theory Spec2Isabelle
  imports Main "HOL-Library.Word" "HOL-Library.Monad_Syntax" "HOL-Library.Multiset"
begin

section \<open>Data structures of engine1.cpp\<close>

text \<open>
  The enumerations and structs of the source. Identifiers and the generated-id and
  timestamp counters are \<open>uint64_t\<close>, share counts are \<open>uint32_t\<close>: they are words of
  that width. Prices are \<open>int64_t\<close>; the engine only copies and compares them, so they
  are modelled by \<open>int\<close>, into which \<open>int64_t\<close> embeds with its order
  (\<open>INT64_MAX\<close> is the constant below).
\<close>

datatype Side = Buy | Sell

datatype OrderType = Market | Limit | Stop | StopLimit

record TradeReport =
  takerId :: "64 word"
  makerId :: "64 word"
  qty :: "32 word"
  tprice :: int
  timestamp :: "64 word"

text \<open>
  An \<open>Order*\<close> is the index of the order's slot in the order pool. The \<open>next\<close>/\<open>prev\<close>
  links of the orders of one price level are modelled by the list of their slots kept at
  the level, head first. A \<open>Limit*\<close> held by an order (\<open>parentLimit\<close>) is modelled by the
  price key of that level in the tree the order lives in; \<open>None\<close> is \<open>nullptr\<close>.
\<close>

record Order =
  oid :: "64 word"
  side :: Side
  otype :: OrderType
  shares :: "32 word"
  price :: int
  stopPrice :: int
  parentLimit :: "int option"

text \<open>
  A tree of \<open>Limit\<close> nodes: left child, price, FIFO of order slots (\<open>head\<close> first,
  \<open>tail\<close> last), recorded height, right child. \<open>Null\<close> is \<open>nullptr\<close>.
\<close>

datatype Limit = Null | Node Limit int "nat list" int Limit

record TriggeredStop =
  originalId :: "64 word"
  ts_side :: Side
  convertToType :: OrderType
  ts_shares :: "32 word"
  limitPrice :: int

definition INT64_MAX :: int where
  "INT64_MAX = 2 ^ 63 - 1"

text \<open>
  The state of the engine: the two pools of the \<open>MemoryManager\<close> (the order pool with its
  free list of slots, and the number of free \<open>Limit\<close> nodes), the four trees, the two
  indices, the counters, and the sequence of reports handed to \<open>tradeBuffer.push\<close>
  (whether the ring accepts a report depends on the concurrent consumer, which is not
  part of the engine). The last field is a ghost log, not a field of the source:
  \<open>checkStopOrders\<close> appends the arguments of each of its calls, so that a statement can
  say when the trigger pass runs.
\<close>

record OrderBook =
  oPool :: "nat \<Rightarrow> Order"
  fOrder :: "nat list"
  fLimit :: nat
  buyRoot :: Limit
  sellRoot :: Limit
  stopBuyRoot :: Limit
  stopSellRoot :: Limit
  orderMap :: "64 word \<Rightarrow> nat option"
  stopOrderMap :: "64 word \<Rightarrow> nat option"
  tradeBuffer :: "TradeReport list"
  timestampCounter :: "64 word"
  generatedIdCounter :: "64 word"
  stopChecks :: "(int \<times> Side) list"

section \<open>Memory arena\<close>

definition getOrder ::
  "64 word \<Rightarrow> Side \<Rightarrow> OrderType \<Rightarrow> 32 word \<Rightarrow> int \<Rightarrow> int \<Rightarrow> OrderBook \<Rightarrow> (nat \<times> OrderBook) option" where
  "getOrder i s t q p sp bk =
     (case fOrder bk of
        [] \<Rightarrow> None
      | a # fr \<Rightarrow>
          Some (a, bk\<lparr>fOrder := fr,
                      oPool := (oPool bk)(a := \<lparr>oid = i, side = s, otype = t, shares = q,
                                               price = p, stopPrice = sp, parentLimit = None\<rparr>)\<rparr>))"

definition recycleOrder :: "nat \<Rightarrow> OrderBook \<Rightarrow> OrderBook" where
  "recycleOrder a bk =
     bk\<lparr>oPool := (oPool bk)(a := (oPool bk a)\<lparr>parentLimit := None\<rparr>),
        fOrder := a # fOrder bk\<rparr>"

text \<open>\<open>getLimit\<close> on the number of free nodes: \<open>None\<close> is the null handle of exhaustion.\<close>

definition getLimit :: "int \<Rightarrow> nat \<Rightarrow> (Limit \<times> nat) option" where
  "getLimit p fl = (if fl = 0 then None else Some (Node Null p [] 1 Null, fl - 1))"

definition recycleLimit :: "nat \<Rightarrow> nat" where
  "recycleLimit fl = Suc fl"

section \<open>The price-level tree\<close>

text \<open>
  The tree functions return \<open>None\<close> where the source dereferences a null pointer.
\<close>

fun h :: "Limit \<Rightarrow> int" where
  "h Null = 0"
| "h (Node l p q ht r) = ht"

fun up :: "Limit \<Rightarrow> Limit" where
  "up Null = Null"
| "up (Node l p q ht r) = Node l p q (1 + max (h l) (h r)) r"

fun getBal :: "Limit \<Rightarrow> int" where
  "getBal Null = 0"
| "getBal (Node l p q ht r) = h l - h r"

fun rotR :: "Limit \<Rightarrow> Limit option" where
  "rotR (Node (Node a xp xq xh b) yp yq yh c) =
     Some (up (Node a xp xq xh (up (Node b yp yq yh c))))"
| "rotR _ = None"

fun rotL :: "Limit \<Rightarrow> Limit option" where
  "rotL (Node a xp xq xh (Node b yp yq yh c)) =
     Some (up (Node (up (Node a xp xq xh b)) yp yq yh c))"
| "rotL _ = None"

fun lprice :: "Limit \<Rightarrow> int option" where
  "lprice Null = None"
| "lprice (Node l p q ht r) = Some p"

fun left :: "Limit \<Rightarrow> Limit" where
  "left Null = Null"
| "left (Node l p q ht r) = l"

fun right :: "Limit \<Rightarrow> Limit" where
  "right Null = Null"
| "right (Node l p q ht r) = r"

fun setLeft :: "Limit \<Rightarrow> Limit \<Rightarrow> Limit" where
  "setLeft l' Null = Null"
| "setLeft l' (Node l p q ht r) = Node l' p q ht r"

fun setRight :: "Limit \<Rightarrow> Limit \<Rightarrow> Limit" where
  "setRight r' Null = Null"
| "setRight r' (Node l p q ht r) = Node l p q ht r'"

text \<open>
  The tail of \<open>insert\<close>, from \<open>up(n)\<close> on: \<open>n\<close> is the node with the new child already
  linked. The tests follow the source in order; \<open>n->left->price\<close> is read only when
  \<open>b > 1\<close> holds, \<open>n->right->price\<close> only when \<open>b < -1\<close> holds.
\<close>

definition insertBalance :: "Limit \<Rightarrow> int \<Rightarrow> Limit option" where
  "insertBalance n0 p =
     (let n = up n0; b = getBal n in
      if b > 1 then
        (case lprice (left n) of
           None \<Rightarrow> None
         | Some lp \<Rightarrow>
             if p < lp then rotR n
             else if p > lp then
               do { l' \<leftarrow> rotL (left n); rotR (setLeft l' n) }
             else Some n)
      else if b < -1 then
        (case lprice (right n) of
           None \<Rightarrow> None
         | Some rp \<Rightarrow>
             if p > rp then rotL n
             else if p < rp then
               do { r' \<leftarrow> rotR (right n); rotL (setRight r' n) }
             else Some n)
      else Some n)"

text \<open>
  \<open>insert(n, p, target)\<close>, with the number of free \<open>Limit\<close> nodes threaded through. The
  result is the new root, the target (the key of the level found or created, \<open>None\<close>
  when \<open>getLimit\<close> returned null) and the number of free nodes left.
\<close>

fun insertL :: "Limit \<Rightarrow> int \<Rightarrow> nat \<Rightarrow> (Limit \<times> int option \<times> nat) option" where
  "insertL Null p fl =
     (case getLimit p fl of
        None \<Rightarrow> Some (Null, None, fl)
      | Some (n, fl') \<Rightarrow> Some (n, Some p, fl'))"
| "insertL (Node l np q ht r) p fl =
     (if p < np then
        do { (l', tg, fl') \<leftarrow> insertL l p fl;
             n \<leftarrow> insertBalance (Node l' np q ht r) p;
             Some (n, tg, fl') }
      else if p > np then
        do { (r', tg, fl') \<leftarrow> insertL r p fl;
             n \<leftarrow> insertBalance (Node l np q ht r') p;
             Some (n, tg, fl') }
      else Some (Node l np q ht r, Some np, fl))"

text \<open>\<open>getMin\<close> and \<open>getMax\<close> return the node reached; the model returns its price and FIFO.\<close>

fun getMin :: "Limit \<Rightarrow> (int \<times> nat list) option" where
  "getMin Null = None"
| "getMin (Node l p q ht r) = (if l \<noteq> Null then getMin l else Some (p, q))"

fun getMax :: "Limit \<Rightarrow> (int \<times> nat list) option" where
  "getMax Null = None"
| "getMax (Node l p q ht r) = (if r \<noteq> Null then getMax r else Some (p, q))"

text \<open>The tail of \<open>removeLimit\<close>, from \<open>up(root)\<close> on.\<close>

definition removeBalance :: "Limit \<Rightarrow> Limit option" where
  "removeBalance root0 =
     (let root = up root0; b = getBal root in
      if b > 1 \<and> getBal (left root) \<ge> 0 then rotR root
      else if b > 1 \<and> getBal (left root) < 0 then
        do { l' \<leftarrow> rotL (left root); rotR (setLeft l' root) }
      else if b < -1 \<and> getBal (right root) \<le> 0 then rotL root
      else if b < -1 \<and> getBal (right root) > 0 then
        do { r' \<leftarrow> rotR (right root); rotL (setRight r' root) }
      else Some root)"

text \<open>
  \<open>removeLimit(root, p)\<close>, with the number of free \<open>Limit\<close> nodes threaded through. In
  the two-children case the successor's price and FIFO are replanted into the node; the
  loop that re-points \<open>parentLimit\<close> of the replanted orders to the surviving node keeps
  their handle, which is the replanted price key.
\<close>

fun removeLimit :: "Limit \<Rightarrow> int \<Rightarrow> nat \<Rightarrow> (Limit \<times> nat) option" where
  "removeLimit Null p fl = Some (Null, fl)"
| "removeLimit (Node l np q ht r) p fl =
     (if p < np then
        do { (l', fl') \<leftarrow> removeLimit l p fl;
             n \<leftarrow> removeBalance (Node l' np q ht r);
             Some (n, fl') }
      else if p > np then
        do { (r', fl') \<leftarrow> removeLimit r p fl;
             n \<leftarrow> removeBalance (Node l np q ht r');
             Some (n, fl') }
      else if l = Null \<or> r = Null then
        Some (if l \<noteq> Null then l else r, recycleLimit fl)
      else
        (case getMin r of
           None \<Rightarrow> None
         | Some (sp, sq) \<Rightarrow>
             do { (r', fl') \<leftarrow> removeLimit r sp fl;
                  n \<leftarrow> removeBalance (Node l sp sq ht r');
                  Some (n, fl') }))"

text \<open>
  Access to a level through its handle: the FIFO of the level with key \<open>k\<close>, and the
  tree with that level's FIFO replaced. A handle whose level is not in the tree is
  dangling: \<open>findLimit\<close> is \<open>None\<close> there.
\<close>

fun findLimit :: "Limit \<Rightarrow> int \<Rightarrow> nat list option" where
  "findLimit Null k = None"
| "findLimit (Node l p q ht r) k =
     (if k < p then findLimit l k else if k > p then findLimit r k else Some q)"

fun setFifo :: "int \<Rightarrow> nat list \<Rightarrow> Limit \<Rightarrow> Limit" where
  "setFifo k q' Null = Null"
| "setFifo k q' (Node l p q ht r) =
     (if k < p then Node (setFifo k q' l) p q ht r
      else if k > p then Node l p q ht (setFifo k q' r)
      else Node l p q' ht r)"

fun appendOrder :: "int \<Rightarrow> nat \<Rightarrow> Limit \<Rightarrow> Limit" where
  "appendOrder k a Null = Null"
| "appendOrder k a (Node l p q ht r) =
     (if k < p then Node (appendOrder k a l) p q ht r
      else if k > p then Node l p q ht (appendOrder k a r)
      else Node l p (q @ [a]) ht r)"

section \<open>The matching engine\<close>

definition restingRoot :: "Side \<Rightarrow> OrderBook \<Rightarrow> Limit" where
  "restingRoot sd bk = (if sd = Buy then buyRoot bk else sellRoot bk)"

definition setRestingRoot :: "Side \<Rightarrow> Limit \<Rightarrow> OrderBook \<Rightarrow> OrderBook" where
  "setRestingRoot sd t bk = (if sd = Buy then bk\<lparr>buyRoot := t\<rparr> else bk\<lparr>sellRoot := t\<rparr>)"

definition stopRoot :: "Side \<Rightarrow> OrderBook \<Rightarrow> Limit" where
  "stopRoot sd bk = (if sd = Buy then stopBuyRoot bk else stopSellRoot bk)"

definition setStopRoot :: "Side \<Rightarrow> Limit \<Rightarrow> OrderBook \<Rightarrow> OrderBook" where
  "setStopRoot sd t bk = (if sd = Buy then bk\<lparr>stopBuyRoot := t\<rparr> else bk\<lparr>stopSellRoot := t\<rparr>)"

definition opposite :: "Side \<Rightarrow> Side" where
  "opposite sd = (if sd = Buy then Sell else Buy)"

definition setShares :: "nat \<Rightarrow> 32 word \<Rightarrow> OrderBook \<Rightarrow> OrderBook" where
  "setShares a v bk = bk\<lparr>oPool := (oPool bk)(a := (oPool bk a)\<lparr>shares := v\<rparr>)\<rparr>"

definition pushTrade :: "nat \<Rightarrow> nat \<Rightarrow> 32 word \<Rightarrow> int \<Rightarrow> OrderBook \<Rightarrow> OrderBook" where
  "pushTrade taker maker traded bp bk =
     bk\<lparr>tradeBuffer := tradeBuffer bk @
           [\<lparr>takerId = oid (oPool bk taker), makerId = oid (oPool bk maker), qty = traded,
             tprice = bp, timestamp = timestampCounter bk\<rparr>],
        timestampCounter := timestampCounter bk + 1\<rparr>"

text \<open>
  One pass through the body of the inner loop of the matching, up to the test
  \<open>maker->shares == 0\<close>: the report is pushed and both share counts are decremented.
\<close>

definition fill :: "nat \<Rightarrow> nat \<Rightarrow> int \<Rightarrow> OrderBook \<Rightarrow> OrderBook" where
  "fill taker maker bp bk =
     (let traded = min (shares (oPool bk taker)) (shares (oPool bk maker));
          bk1 = pushTrade taker maker traded bp bk;
          bk2 = setShares taker (shares (oPool bk1 taker) - traded) bk1
      in setShares maker (shares (oPool bk2 maker) - traded) bk2)"

text \<open>The branch \<open>maker->shares == 0\<close>, after the head of the level has moved on.\<close>

definition removeMaker :: "nat \<Rightarrow> OrderBook \<Rightarrow> OrderBook" where
  "removeMaker maker bk =
     recycleOrder maker (bk\<lparr>orderMap := (orderMap bk)(oid (oPool bk maker) := None)\<rparr>)"

text \<open>
  The inner loop of the matching: \<open>while (maker && taker->shares > 0)\<close> over the FIFO
  of the best level, whose price is \<open>bp\<close>. The result is what is left of the FIFO
  (\<open>best->head\<close> onwards), \<open>lastExecutedPrice\<close> and the state.
\<close>

fun matchMakers :: "nat \<Rightarrow> int \<Rightarrow> nat list \<Rightarrow> int \<Rightarrow> OrderBook \<Rightarrow> nat list \<times> int \<times> OrderBook" where
  "matchMakers taker bp [] lastp bk = ([], lastp, bk)"
| "matchMakers taker bp (maker # rest) lastp bk =
     (if shares (oPool bk taker) > 0 then
        let bk3 = fill taker maker bp bk
        in if shares (oPool bk3 maker) = 0 then
             matchMakers taker bp rest bp (removeMaker maker bk3)
           else (maker # rest, bp, bk3)
      else (maker # rest, lastp, bk))"

text \<open>
  The outer loop \<open>while (taker->shares > 0)\<close>. The remaining FIFO is written back to the
  best level, and the level is removed when its head is null. The loop is a partial
  function: \<open>None\<close> stands for a run that does not return.
\<close>

partial_function (option) matchLoop ::
  "nat \<Rightarrow> Side \<Rightarrow> int \<Rightarrow> int \<Rightarrow> OrderBook \<Rightarrow> (int \<times> OrderBook) option" where
  "matchLoop taker sd p lastp bk =
     (if shares (oPool bk taker) > 0 then
        (case (if sd = Buy then getMin (sellRoot bk) else getMax (buyRoot bk)) of
           None \<Rightarrow> Some (lastp, bk)
         | Some (bp, q) \<Rightarrow>
             if (sd = Buy \<and> p < bp) \<or> (sd = Sell \<and> p > bp) then Some (lastp, bk)
             else
               (case matchMakers taker bp q lastp bk of
                  (q', lastp', bk1) \<Rightarrow>
                    let t1 = setFifo bp q' (restingRoot (opposite sd) bk1) in
                    if q' = [] then
                      do { (t2, fl) \<leftarrow> removeLimit t1 bp (fLimit bk1);
                           matchLoop taker sd p lastp'
                             (setRestingRoot (opposite sd) t2 (bk1\<lparr>fLimit := fl\<rparr>)) }
                    else matchLoop taker sd p lastp' (setRestingRoot (opposite sd) t1 bk1)))
      else Some (lastp, bk))"

text \<open>
  The body of the inner loop of \<open>checkStopOrders\<close>: the descriptor pushed for a stop
  order, and the state once the order is erased from the stop index and recycled.
\<close>

definition descriptor :: "Order \<Rightarrow> TriggeredStop" where
  "descriptor stopOrder =
     \<lparr>originalId = oid stopOrder, ts_side = side stopOrder,
      convertToType = (if otype stopOrder = Stop then Market else Limit),
      ts_shares = shares stopOrder, limitPrice = price stopOrder\<rparr>"

definition removeStop :: "nat \<Rightarrow> OrderBook \<Rightarrow> OrderBook" where
  "removeStop a bk =
     recycleOrder a (bk\<lparr>stopOrderMap := (stopOrderMap bk)(oid (oPool bk a) := None)\<rparr>)"

text \<open>The inner loop of \<open>checkStopOrders\<close> over the FIFO of one triggered level.\<close>

fun collectStops :: "nat list \<Rightarrow> TriggeredStop list \<Rightarrow> OrderBook \<Rightarrow> TriggeredStop list \<times> OrderBook" where
  "collectStops [] triggered bk = (triggered, bk)"
| "collectStops (a # rest) triggered bk =
     collectStops rest (triggered @ [descriptor (oPool bk a)]) (removeStop a bk)"

text \<open>The two outer loops of \<open>checkStopOrders\<close>, from the highest stop-sell level down
  and from the lowest stop-buy level up.\<close>

partial_function (option) stopSellLoop ::
  "int \<Rightarrow> TriggeredStop list \<Rightarrow> OrderBook \<Rightarrow> (TriggeredStop list \<times> OrderBook) option" where
  "stopSellLoop executedPrice triggered bk =
     (case getMax (stopSellRoot bk) of
        None \<Rightarrow> Some (triggered, bk)
      | Some (hp, q) \<Rightarrow>
          if executedPrice \<le> hp then
            (case collectStops q triggered bk of
               (triggered', bk1) \<Rightarrow>
                 do { (t, fl) \<leftarrow> removeLimit (stopSellRoot bk1) hp (fLimit bk1);
                      stopSellLoop executedPrice triggered' (bk1\<lparr>stopSellRoot := t, fLimit := fl\<rparr>) })
          else Some (triggered, bk))"

partial_function (option) stopBuyLoop ::
  "int \<Rightarrow> TriggeredStop list \<Rightarrow> OrderBook \<Rightarrow> (TriggeredStop list \<times> OrderBook) option" where
  "stopBuyLoop executedPrice triggered bk =
     (case getMin (stopBuyRoot bk) of
        None \<Rightarrow> Some (triggered, bk)
      | Some (lp, q) \<Rightarrow>
          if executedPrice \<ge> lp then
            (case collectStops q triggered bk of
               (triggered', bk1) \<Rightarrow>
                 do { (t, fl) \<leftarrow> removeLimit (stopBuyRoot bk1) lp (fLimit bk1);
                      stopBuyLoop executedPrice triggered' (bk1\<lparr>stopBuyRoot := t, fLimit := fl\<rparr>) })
          else Some (triggered, bk))"

declare matchLoop.simps [code] stopSellLoop.simps [code] stopBuyLoop.simps [code]

definition checkStopOrders ::
  "int \<Rightarrow> Side \<Rightarrow> TriggeredStop list \<Rightarrow> OrderBook \<Rightarrow> (TriggeredStop list \<times> OrderBook) option" where
  "checkStopOrders executedPrice executedSide triggered bk0 =
     do { let bk = bk0\<lparr>stopChecks := stopChecks bk0 @ [(executedPrice, executedSide)]\<rparr>;
          (tr1, bk1) \<leftarrow>
            (if executedSide = Sell \<and> stopSellRoot bk \<noteq> Null
             then stopSellLoop executedPrice triggered bk else Some (triggered, bk));
          if executedSide = Buy \<and> stopBuyRoot bk1 \<noteq> Null
          then stopBuyLoop executedPrice tr1 bk1 else Some (tr1, bk1) }"

text \<open>
  Linking an order at the tail of the level \<open>L\<close> that \<open>insert\<close> returned, in a resting
  tree or in a stop tree.
\<close>

definition linkTail :: "nat \<Rightarrow> int \<Rightarrow> OrderBook \<Rightarrow> OrderBook" where
  "linkTail a k bk = bk\<lparr>oPool := (oPool bk)(a := (oPool bk a)\<lparr>parentLimit := Some k\<rparr>)\<rparr>"

text \<open>
  The end of the matching path of \<open>processOrderInternal\<close>, from the test
  \<open>taker->shares > 0 && type == OrderType::Limit\<close> to the loop over the triggered
  stops: a limit order with shares left rests at its price, any other taker is recycled.
  The early return \<open>if (!L) return;\<close> leaves the function before that loop, so it
  returns no stops.
\<close>

definition restResidual ::
  "64 word \<Rightarrow> Side \<Rightarrow> OrderType \<Rightarrow> int \<Rightarrow> nat \<Rightarrow> TriggeredStop list \<Rightarrow> OrderBook
     \<Rightarrow> (TriggeredStop list \<times> OrderBook) option" where
  "restResidual i sd ty p taker triggeredStops bk3 =
     (if shares (oPool bk3 taker) > 0 \<and> ty = Limit then
        do { (t, L, fl) \<leftarrow> insertL (restingRoot sd bk3) p (fLimit bk3);
             let bk4 = setRestingRoot sd t (bk3\<lparr>fLimit := fl\<rparr>) in
             (case L of
                None \<Rightarrow> Some ([], bk4)
              | Some k \<Rightarrow>
                  let bk5 = setRestingRoot sd (appendOrder k taker (restingRoot sd bk4)) bk4;
                      bk6 = linkTail taker k bk5
                  in Some (triggeredStops, bk6\<lparr>orderMap := (orderMap bk6)(i \<mapsto> taker)\<rparr>)) }
      else Some (triggeredStops, recycleOrder taker bk3))"

text \<open>
  The stop path of \<open>processOrderInternal\<close> once the order node is allocated: the order
  is armed at the tail of the level of its stop price in the stop tree of its side.
\<close>

definition armStop :: "64 word \<Rightarrow> Side \<Rightarrow> int \<Rightarrow> nat \<Rightarrow> OrderBook \<Rightarrow> OrderBook option" where
  "armStop i sd sp stopOrder bk1 =
     do { (t, L, fl) \<leftarrow> insertL (stopRoot sd bk1) sp (fLimit bk1);
          let bk2 = setStopRoot sd t (bk1\<lparr>fLimit := fl\<rparr>) in
          (case L of
             None \<Rightarrow> Some bk2
           | Some k \<Rightarrow>
               let bk3 = setStopRoot sd (appendOrder k stopOrder (stopRoot sd bk2)) bk2;
                   bk4 = linkTail stopOrder k bk3
               in Some (bk4\<lparr>stopOrderMap := (stopOrderMap bk4)(i \<mapsto> stopOrder)\<rparr>)) }"

text \<open>
  \<open>processOrderInternal\<close> up to its last loop. The result is the vector
  \<open>triggeredStops\<close> and the state.
\<close>

definition processBody ::
  "64 word \<Rightarrow> Side \<Rightarrow> OrderType \<Rightarrow> 32 word \<Rightarrow> int \<Rightarrow> int \<Rightarrow> bool \<Rightarrow> OrderBook
     \<Rightarrow> (TriggeredStop list \<times> OrderBook) option" where
  "processBody i sd ty q p sp checkStops bk =
     (if ty = Stop \<or> ty = StopLimit then
        (case getOrder i sd ty q p sp bk of
           None \<Rightarrow> Some ([], bk)
         | Some (stopOrder, bk1) \<Rightarrow>
             do { bk2 \<leftarrow> armStop i sd sp stopOrder bk1; Some ([], bk2) })
      else
        (case getOrder i sd ty q p sp bk of
           None \<Rightarrow> Some ([], bk)
         | Some (taker, bk1) \<Rightarrow>
             do { (lastExecutedPrice, bk2) \<leftarrow> matchLoop taker sd p 0 bk1;
                  (triggeredStops, bk3) \<leftarrow>
                    (if checkStops \<and> lastExecutedPrice > 0
                     then checkStopOrders lastExecutedPrice sd [] bk2 else Some ([], bk2));
                  restResidual i sd ty p taker triggeredStops bk3 }))"

text \<open>
  The last loop of \<open>processOrderInternal\<close>: each triggered stop is passed to
  \<open>processOrderInternal\<close> with a generated id and \<open>checkStops = false\<close>. That inner call
  collects no stops (\<open>checkStopOrders\<close> is not called), so its own last loop is empty and
  the call is \<open>processBody\<close> alone.
\<close>

fun resubmitStops :: "TriggeredStop list \<Rightarrow> OrderBook \<Rightarrow> OrderBook option" where
  "resubmitStops [] bk = Some bk"
| "resubmitStops (ts # rest) bk =
     (let newId = generatedIdCounter bk;
          bk1 = bk\<lparr>generatedIdCounter := generatedIdCounter bk + 1\<rparr>
      in do { (tr, bk2) \<leftarrow> processBody newId (ts_side ts) (convertToType ts) (ts_shares ts)
                              (limitPrice ts) 0 False bk1;
              resubmitStops rest bk2 })"

definition processOrderInternal ::
  "64 word \<Rightarrow> Side \<Rightarrow> OrderType \<Rightarrow> 32 word \<Rightarrow> int \<Rightarrow> int \<Rightarrow> bool \<Rightarrow> OrderBook \<Rightarrow> OrderBook option" where
  "processOrderInternal i sd ty q p sp checkStops bk =
     do { (triggeredStops, bk1) \<leftarrow> processBody i sd ty q p sp checkStops bk;
          resubmitStops triggeredStops bk1 }"

definition processOrder ::
  "64 word \<Rightarrow> Side \<Rightarrow> OrderType \<Rightarrow> 32 word \<Rightarrow> int \<Rightarrow> int \<Rightarrow> OrderBook \<Rightarrow> OrderBook option" where
  "processOrder i sd ty q p sp bk = processOrderInternal i sd ty q p sp True bk"

text \<open>
  Unlinking order \<open>a\<close> from the FIFO of its level \<open>L\<close> (key \<open>k\<close>) in tree \<open>t\<close>. The result is
  the FIFO left and the tree. The source follows \<open>prev\<close> and \<open>next\<close> of the order; the
  list model covers the states where the order is in the FIFO of the level it points to,
  and is \<open>None\<close> elsewhere.
\<close>

definition unlink :: "nat \<Rightarrow> int \<Rightarrow> Limit \<Rightarrow> (nat list \<times> Limit) option" where
  "unlink a k t =
     (case findLimit t k of
        None \<Rightarrow> None
      | Some q \<Rightarrow> if a \<in> set q then Some (remove1 a q, setFifo k (remove1 a q) t) else None)"

definition cancelOrder :: "64 word \<Rightarrow> OrderBook \<Rightarrow> (bool \<times> OrderBook) option" where
  "cancelOrder orderId bk =
     (case orderMap bk orderId of
        Some a \<Rightarrow>
          (case parentLimit (oPool bk a) of
             None \<Rightarrow> None
           | Some k \<Rightarrow>
               let sd = side (oPool bk a) in
               do { (q', t1) \<leftarrow> unlink a k (restingRoot sd bk);
                    (t2, fl) \<leftarrow> (if q' = [] then removeLimit t1 k (fLimit bk)
                                else Some (t1, fLimit bk));
                    let bk1 = setRestingRoot sd t2 (bk\<lparr>fLimit := fl\<rparr>) in
                    Some (True, recycleOrder a (bk1\<lparr>orderMap := (orderMap bk1)(orderId := None)\<rparr>)) })
      | None \<Rightarrow>
          (case stopOrderMap bk orderId of
             Some a \<Rightarrow>
               (case parentLimit (oPool bk a) of
                  None \<Rightarrow> None
                | Some k \<Rightarrow>
                    let sd = side (oPool bk a) in
                    do { (q', t1) \<leftarrow> unlink a k (stopRoot sd bk);
                         (t2, fl) \<leftarrow> (if q' = [] then removeLimit t1 k (fLimit bk)
                                     else Some (t1, fLimit bk));
                         let bk1 = setStopRoot sd t2 (bk\<lparr>fLimit := fl\<rparr>) in
                         Some (True, recycleOrder a
                                 (bk1\<lparr>stopOrderMap := (stopOrderMap bk1)(orderId := None)\<rparr>)) })
           | None \<Rightarrow> Some (False, bk)))"

definition modifyOrder :: "64 word \<Rightarrow> 32 word \<Rightarrow> int \<Rightarrow> OrderBook \<Rightarrow> (bool \<times> OrderBook) option" where
  "modifyOrder orderId newQty newPrice bk =
     (case orderMap bk orderId of
        None \<Rightarrow> Some (False, bk)
      | Some a \<Rightarrow>
          if newPrice = price (oPool bk a) then Some (True, setShares a newQty bk)
          else
            (case parentLimit (oPool bk a) of
               None \<Rightarrow> None
             | Some k \<Rightarrow>
                 let sd = side (oPool bk a) in
                 do { (q', t1) \<leftarrow> unlink a k (restingRoot sd bk);
                      (t2, fl) \<leftarrow> (if q' = [] then removeLimit t1 k (fLimit bk)
                                  else Some (t1, fLimit bk));
                      let bk1 = bk\<lparr>oPool := (oPool bk)(a := (oPool bk a)\<lparr>price := newPrice,
                                                                          shares := newQty\<rparr>)\<rparr> in
                      do { (t3, newLimit, fl') \<leftarrow> insertL t2 newPrice fl;
                           let bk2 = setRestingRoot sd t3 (bk1\<lparr>fLimit := fl'\<rparr>) in
                           (case newLimit of
                              None \<Rightarrow> Some (False, bk2)
                            | Some k' \<Rightarrow>
                                Some (True, linkTail a k'
                                       (setRestingRoot sd (appendOrder k' a (restingRoot sd bk2)) bk2))) } }))"

definition getOrderCount :: "OrderBook \<Rightarrow> nat" where
  "getOrderCount bk = card (dom (orderMap bk))"

definition getStopOrderCount :: "OrderBook \<Rightarrow> nat" where
  "getStopOrderCount bk = card (dom (stopOrderMap bk))"

text \<open>
  The engine over \<open>MemoryManager mm(n)\<close>: an order pool of \<open>n\<close> slots, all free and
  value-initialised, \<open>n / 5\<close> free \<open>Limit\<close> nodes, empty trees and indices. The source
  needs \<open>n \<ge> 5\<close> (it takes the address of the first slot of both pools).
\<close>

definition newBook :: "nat \<Rightarrow> OrderBook" where
  "newBook n =
     \<lparr>oPool = (\<lambda>a. \<lparr>oid = 0, side = Buy, otype = Market, shares = 0, price = 0,
                      stopPrice = 0, parentLimit = None\<rparr>),
      fOrder = [0..<n], fLimit = n div 5,
      buyRoot = Null, sellRoot = Null, stopBuyRoot = Null, stopSellRoot = Null,
      orderMap = Map.empty, stopOrderMap = Map.empty,
      tradeBuffer = [], timestampCounter = 0, generatedIdCounter = 1000000000,
      stopChecks = []\<rparr>"

section \<open>Public actions and runs\<close>

datatype Action =
    Submit "64 word" Side OrderType "32 word" int int
  | Cancel "64 word"
  | Modify "64 word" "32 word" int

fun act :: "Action \<Rightarrow> OrderBook \<Rightarrow> OrderBook option" where
  "act (Submit i sd ty q p sp) bk = processOrder i sd ty q p sp bk"
| "act (Cancel i) bk = map_option snd (cancelOrder i bk)"
| "act (Modify i q p) bk = map_option snd (modifyOrder i q p bk)"

fun run :: "Action list \<Rightarrow> OrderBook \<Rightarrow> OrderBook option" where
  "run [] bk = Some bk"
| "run (x # xs) bk = do { bk1 \<leftarrow> act x bk; run xs bk1 }"

section \<open>Invariants of the trees and of the book\<close>

text \<open>The levels of a tree in key order, each with its FIFO.\<close>

fun inorder :: "Limit \<Rightarrow> (int \<times> nat list) list" where
  "inorder Null = []"
| "inorder (Node l p q ht r) = inorder l @ (p, q) # inorder r"

definition keys :: "Limit \<Rightarrow> int list" where
  "keys t = map fst (inorder t)"

definition slots :: "Limit \<Rightarrow> nat list" where
  "slots t = concat (map snd (inorder t))"

definition bst :: "Limit \<Rightarrow> bool" where
  "bst t = sorted_wrt (<) (keys t)"

text \<open>
  What the tree operations do to the list of levels: a new level with an empty FIFO at
  its place in key order, the level of a key removed, the FIFO of the level of a key
  replaced.
\<close>

definition ins_level :: "int \<Rightarrow> (int \<times> nat list) list \<Rightarrow> (int \<times> nat list) list" where
  "ins_level k xs = filter (\<lambda>x. fst x < k) xs @ (k, []) # filter (\<lambda>x. k < fst x) xs"

definition del_level :: "int \<Rightarrow> (int \<times> nat list) list \<Rightarrow> (int \<times> nat list) list" where
  "del_level k xs = filter (\<lambda>x. fst x \<noteq> k) xs"

definition upd_level :: "int \<Rightarrow> (nat list \<Rightarrow> nat list) \<Rightarrow> (int \<times> nat list) list \<Rightarrow> (int \<times> nat list) list" where
  "upd_level k f xs = map (\<lambda>x. if fst x = k then (fst x, f (snd x)) else x) xs"

text \<open>The height of a tree, as opposed to the height recorded in its root.\<close>

fun th :: "Limit \<Rightarrow> int" where
  "th Null = 0"
| "th (Node l p q ht r) = 1 + max (th l) (th r)"

text \<open>
  Every node records \<open>1 + max\<close> of the heights of its subtrees, and its balance factor
  is \<open>-1\<close>, \<open>0\<close> or \<open>1\<close>.
\<close>

fun avl :: "Limit \<Rightarrow> bool" where
  "avl Null = True"
| "avl (Node l p q ht r) =
     (avl l \<and> avl r \<and> ht = 1 + max (th l) (th r) \<and> -1 \<le> th l - th r \<and> th l - th r \<le> 1)"

text \<open>
  The shape of a tree that \<open>insert\<close> of price \<open>p\<close> has made one higher: a fresh node, or a
  node whose subtree on the side of \<open>p\<close> is the higher one.
\<close>

fun ins_shape :: "int \<Rightarrow> Limit \<Rightarrow> bool" where
  "ins_shape p Null = False"
| "ins_shape p (Node a x q ht b) =
     ((p < x \<and> th a = th b + 1) \<or> (p > x \<and> th b = th a + 1) \<or> (p = x \<and> a = Null \<and> b = Null))"

definition trees_avl :: "OrderBook \<Rightarrow> bool" where
  "trees_avl bk =
     (avl (buyRoot bk) \<and> avl (sellRoot bk) \<and> avl (stopBuyRoot bk) \<and> avl (stopSellRoot bk))"

definition trees_bst :: "OrderBook \<Rightarrow> bool" where
  "trees_bst bk =
     (bst (buyRoot bk) \<and> bst (sellRoot bk) \<and> bst (stopBuyRoot bk) \<and> bst (stopSellRoot bk))"

text \<open>No level of the tree has a null head.\<close>

definition nonempty_levels :: "Limit \<Rightarrow> bool" where
  "nonempty_levels t = ([] \<notin> set (map snd (inorder t)))"

text \<open>All order slots linked in the four trees, followed by the free list.\<close>

definition all_slots :: "OrderBook \<Rightarrow> nat list" where
  "all_slots bk =
     slots (buyRoot bk) @ slots (sellRoot bk) @ slots (stopBuyRoot bk) @ slots (stopSellRoot bk)
       @ fOrder bk"

text \<open>A balanced search tree without empty levels.\<close>

definition tree_ok :: "Limit \<Rightarrow> bool" where
  "tree_ok t = (avl t \<and> bst t \<and> nonempty_levels t)"

definition trees_ok :: "OrderBook \<Rightarrow> bool" where
  "trees_ok bk =
     (tree_ok (buyRoot bk) \<and> tree_ok (sellRoot bk) \<and> tree_ok (stopBuyRoot bk)
      \<and> tree_ok (stopSellRoot bk))"

text \<open>
  The invariant of the book: the four trees are balanced search trees without empty
  levels, and no slot is linked twice or linked while free.
\<close>

definition book_inv :: "OrderBook \<Rightarrow> bool" where
  "book_inv bk = (trees_ok bk \<and> distinct (all_slots bk))"

section \<open>The loops over the list of levels\<close>

text \<open>
  The levels of the tree that an aggressor of side \<open>sd\<close> matches against, best level
  first: ascending prices of the resting sells for a buy, descending prices of the
  resting buys for a sell.
\<close>

definition levels_of :: "Side \<Rightarrow> Limit \<Rightarrow> (int \<times> nat list) list" where
  "levels_of sd t = (if sd = Buy then inorder t else rev (inorder t))"

definition makerLevels :: "Side \<Rightarrow> OrderBook \<Rightarrow> (int \<times> nat list) list" where
  "makerLevels sd bk = levels_of sd (restingRoot (opposite sd) bk)"

text \<open>The resting orders an aggressor of side \<open>sd\<close> faces, in price-time priority, each
  with the price of its level.\<close>

definition queueOf :: "(int \<times> nat list) list \<Rightarrow> (nat \<times> int) list" where
  "queueOf lv = concat (map (\<lambda>(bp, q). map (\<lambda>a. (a, bp)) q) lv)"

definition makerQueue :: "Side \<Rightarrow> OrderBook \<Rightarrow> (nat \<times> int) list" where
  "makerQueue sd bk = queueOf (makerLevels sd bk)"

text \<open>The cross test of the matching loop, as the condition to go on.\<close>

definition crosses :: "Side \<Rightarrow> int \<Rightarrow> int \<Rightarrow> bool" where
  "crosses sd p bp = (\<not> ((sd = Buy \<and> p < bp) \<or> (sd = Sell \<and> p > bp)))"

text \<open>
  The matching loop written over the list of levels instead of the tree: what it leaves
  of the levels, \<open>lastExecutedPrice\<close>, and the state (whose tree fields are not used).
  \<open>matchLoop\<close> is proved to compute this.
\<close>

fun matchLevels ::
  "nat \<Rightarrow> Side \<Rightarrow> int \<Rightarrow> (int \<times> nat list) list \<Rightarrow> int \<Rightarrow> OrderBook
     \<Rightarrow> (int \<times> nat list) list \<times> int \<times> OrderBook" where
  "matchLevels taker sd p [] lastp bk = ([], lastp, bk)"
| "matchLevels taker sd p ((bp, q) # lv) lastp bk =
     (if 0 < shares (oPool bk taker) \<and> crosses sd p bp then
        (case matchMakers taker bp q lastp bk of
           (q', lastp', bk1) \<Rightarrow>
             if q' = [] then matchLevels taker sd p lv lastp' bk1
             else ((bp, q') # lv, lastp', bk1))
      else ((bp, q) # lv, lastp, bk))"

text \<open>The reports pushed between two states.\<close>

definition newTrades :: "OrderBook \<Rightarrow> OrderBook \<Rightarrow> TradeReport list" where
  "newTrades bk bk' = drop (length (tradeBuffer bk)) (tradeBuffer bk')"

text \<open>
  The stop levels that a trigger pass fires for an executed price, in the order of the
  scan: for a sell aggressor the stop-sell levels with price at or above the executed
  price, highest first; for a buy aggressor the stop-buy levels at or below it, lowest
  first.
\<close>

definition firedLevels :: "int \<Rightarrow> Side \<Rightarrow> OrderBook \<Rightarrow> (int \<times> nat list) list" where
  "firedLevels ep sd bk =
     (if sd = Sell then rev (filter (\<lambda>x. ep \<le> fst x) (inorder (stopSellRoot bk)))
      else filter (\<lambda>x. fst x \<le> ep) (inorder (stopBuyRoot bk)))"

text \<open>Every order resting in the buy or the sell tree has a positive share count.\<close>

definition resting_pos :: "OrderBook \<Rightarrow> bool" where
  "resting_pos bk = list_all (\<lambda>a. 0 < shares (oPool bk a)) (slots (buyRoot bk) @ slots (sellRoot bk))"

text \<open>An action that is not a modify with a new quantity of zero.\<close>

fun positive_modify :: "Action \<Rightarrow> bool" where
  "positive_modify (Modify i q p) = (0 < q)"
| "positive_modify _ = True"

definition removeStops :: "nat list \<Rightarrow> OrderBook \<Rightarrow> OrderBook" where
  "removeStops q bk = foldl (\<lambda>b a. removeStop a b) bk q"

section \<open>Scenarios\<close>

text \<open>
  End-to-end scenario 4 of the specification: a resting sell, an armed sell stop, then a
  crossing buy.
\<close>

definition scenario4 :: "OrderBook option" where
  "scenario4 =
     do { b1 \<leftarrow> processOrder 1 Sell Limit 10 90 0 (newBook 20);
          b2 \<leftarrow> processOrder 2 Sell Stop 5 0 95 b1;
          processOrder 3 Buy Limit 4 100 0 b2 }"

text \<open>
  A book over a pool of five order slots and one \<open>Limit\<close> node, with two buy orders
  resting at price 100, and the modification of the first one to price 101.
\<close>

definition exhausted_modify :: "(bool \<times> OrderBook) option" where
  "exhausted_modify =
     do { b1 \<leftarrow> processOrder 1 Buy Limit 5 100 0 (newBook 5);
          b2 \<leftarrow> processOrder 2 Buy Limit 5 100 0 b1;
          modifyOrder 1 5 101 b2 }"

definition before_exhausted_modify :: "OrderBook option" where
  "before_exhausted_modify =
     do { b1 \<leftarrow> processOrder 1 Buy Limit 5 100 0 (newBook 5);
          processOrder 2 Buy Limit 5 100 0 b1 }"



text \<open>A book with a buy order resting at 100 and a sell order resting at 110.\<close>

definition resting_book :: "OrderBook option" where
  "resting_book = run [Submit 1 Buy Limit 5 100 0, Submit 2 Sell Limit 5 110 0] (newBook 20)"

text \<open>
  A buy order resting at the negative price \<open>-10\<close>, and the matching loop of a sell market
  order of 3 shares with the sentinel price 0.
\<close>

definition negative_bid_match :: "(int \<times> OrderBook) option" where
  "negative_bid_match =
     do { bk \<leftarrow> processOrder 1 Buy Limit 5 (-10) 0 (newBook 20);
          (a, bk1) \<leftarrow> getOrder 2 Sell Market 3 0 0 bk;
          matchLoop a Sell 0 0 bk1 }"

text \<open>
  A sell order resting at price 0 and a buy stop armed at stop price 0, then a buy limit
  order at price 0.
\<close>

definition zero_price_run :: "Action list" where
  "zero_price_run =
     [Submit 1 Sell Limit 10 0 0, Submit 2 Buy Stop 5 0 0, Submit 3 Buy Limit 4 0 0]"

text \<open>
  A buy order of 10 shares resting at 90, and two sell stops: order 2 (3 shares) at stop
  price 95, order 3 (4 shares) at stop price 100.
\<close>

definition two_stops_book :: "OrderBook option" where
  "two_stops_book =
     run [Submit 1 Buy Limit 10 90 0, Submit 2 Sell Stop 3 0 95, Submit 3 Sell Stop 4 0 100]
       (newBook 20)"

text \<open>Sell orders 1 and 2 resting at 90, in this order, and sell order 3 resting at 85.\<close>

definition three_asks_book :: "OrderBook option" where
  "three_asks_book =
     run [Submit 1 Sell Limit 5 90 0, Submit 2 Sell Limit 5 90 0, Submit 3 Sell Limit 5 85 0]
       (newBook 20)"

section \<open>The matching of the specification\<close>

text \<open>
  The matching of section 4.4 of the specification, written over the queue of resting
  orders of the opposite side in price-time priority. An entry is a resting order with
  its remaining shares and the price of its level. A taker with \<open>r\<close> shares left trades
  the smaller of \<open>r\<close> and the maker's shares with the first entry, at the price of its
  level, as long as it has shares left and its price crosses that level; the next entry
  is touched only with what the taker has left after the one before.
  \<open>spec_fills\<close> is the list of fills (maker, quantity, price), \<open>spec_rest\<close> the queue left
  behind: makers filled to zero are gone, a maker filled in part keeps the difference.
\<close>

fun spec_fills :: "Side \<Rightarrow> int \<Rightarrow> 32 word \<Rightarrow> (nat \<times> 32 word \<times> int) list \<Rightarrow> (nat \<times> 32 word \<times> int) list" where
  "spec_fills sd p r [] = []"
| "spec_fills sd p r ((a, s, bp) # xs) =
     (if r = 0 \<or> \<not> crosses sd p bp then []
      else (a, min r s, bp) # spec_fills sd p (r - min r s) xs)"

fun spec_rest :: "Side \<Rightarrow> int \<Rightarrow> 32 word \<Rightarrow> (nat \<times> 32 word \<times> int) list \<Rightarrow> (nat \<times> 32 word \<times> int) list" where
  "spec_rest sd p r [] = []"
| "spec_rest sd p r ((a, s, bp) # xs) =
     (if r = 0 \<or> \<not> crosses sd p bp then (a, s, bp) # xs
      else if s \<le> r then spec_rest sd p (r - s) xs
      else (a, s - r, bp) # xs)"

text \<open>The queue of a list of levels, each order with its shares in a state.\<close>

definition entries :: "OrderBook \<Rightarrow> (int \<times> nat list) list \<Rightarrow> (nat \<times> 32 word \<times> int) list" where
  "entries bk lv = map (\<lambda>(a, bp). (a, shares (oPool bk a), bp)) (queueOf lv)"

definition sharesQueue :: "Side \<Rightarrow> OrderBook \<Rightarrow> (nat \<times> 32 word \<times> int) list" where
  "sharesQueue sd bk = entries bk (makerLevels sd bk)"

definition reportFields :: "TradeReport \<Rightarrow> 64 word \<times> 64 word \<times> 32 word \<times> int" where
  "reportFields t = (takerId t, makerId t, qty t, tprice t)"

text \<open>The fields of the report of a fill (maker, quantity, price) for a taker id.\<close>

definition fillReport ::
  "64 word \<Rightarrow> OrderBook \<Rightarrow> nat \<times> 32 word \<times> int \<Rightarrow> 64 word \<times> 64 word \<times> 32 word \<times> int" where
  "fillReport tid bk x = (tid, oid (oPool bk (fst x)), fst (snd x), snd (snd x))"

section \<open>The engine at the level of pointers\<close>

text \<open>
  The definitions above keep the orders of a price level in a list and let an order
  name its level by the price key; they cover the states in which every indexed order
  is in the FIFO of the level it points to. The definitions of this section follow the
  source pointer by pointer, for every state. An \<open>Order*\<close> is the index of a slot of the
  order pool and a \<open>Limit*\<close> the index of a slot of the level pool; \<open>None\<close> is \<open>nullptr\<close>.
  Orders carry their \<open>next\<close>, \<open>prev\<close>, \<open>nextFree\<close> and \<open>parentLimit\<close> links.

  The fields \<open>left\<close>, \<open>right\<close> and \<open>height\<close> of a \<open>Limit\<close> are read and written only by
  the tree functions, through pointers found by walking down from a root, so the links
  are modelled by a tree of nodes (left child, address of the node, price, recorded
  height, right child). The fields \<open>price\<close>, \<open>head\<close> and \<open>tail\<close> are also reached
  through \<open>parentLimit\<close>, so they live in a store indexed by the address of the node,
  together with \<open>nextFree\<close>; the price is written to the node of the tree and to the
  store together (by \<open>getLimit\<close> and by the replanting in \<open>removeLimit\<close>, its only
  writers). A function returns \<open>None\<close> where the source dereferences a null pointer or
  does not return.
\<close>

record POrder =
  o_id :: "64 word"
  o_side :: Side
  o_type :: OrderType
  o_shares :: "32 word"
  o_price :: int
  o_stopPrice :: int
  o_next :: "nat option"
  o_prev :: "nat option"
  o_nextFree :: "nat option"
  o_parentLimit :: "nat option"

record PLimit =
  l_price :: int
  l_head :: "nat option"
  l_tail :: "nat option"
  l_nextFree :: "nat option"

datatype PTree = PNull | PNode PTree nat int int PTree

record Heap =
  orders :: "nat \<Rightarrow> POrder"
  limits :: "nat \<Rightarrow> PLimit"
  freeOrder :: "nat option"
  freeLimit :: "nat option"
  p_buyRoot :: PTree
  p_sellRoot :: PTree
  p_stopBuyRoot :: PTree
  p_stopSellRoot :: PTree
  p_orderMap :: "64 word \<Rightarrow> nat option"
  p_stopOrderMap :: "64 word \<Rightarrow> nat option"
  p_tradeBuffer :: "TradeReport list"
  p_timestampCounter :: "64 word"
  p_generatedIdCounter :: "64 word"

subsection \<open>Memory arena\<close>

definition getOrder_p ::
  "64 word \<Rightarrow> Side \<Rightarrow> OrderType \<Rightarrow> 32 word \<Rightarrow> int \<Rightarrow> int \<Rightarrow> Heap \<Rightarrow> (nat \<times> Heap) option" where
  "getOrder_p i s t q p sp hp =
     (case freeOrder hp of
        None \<Rightarrow> None
      | Some a \<Rightarrow>
          Some (a, hp\<lparr>freeOrder := o_nextFree (orders hp a),
                      orders := (orders hp)(a := (orders hp a)\<lparr>o_id := i, o_side := s, o_type := t,
                          o_shares := q, o_price := p, o_stopPrice := sp, o_next := None,
                          o_prev := None, o_parentLimit := None\<rparr>)\<rparr>))"

definition recycleOrder_p :: "nat \<Rightarrow> Heap \<Rightarrow> Heap" where
  "recycleOrder_p a hp =
     hp\<lparr>orders := (orders hp)(a := (orders hp a)\<lparr>o_parentLimit := None, o_prev := None,
                                      o_next := None, o_nextFree := freeOrder hp\<rparr>),
        freeOrder := Some a\<rparr>"

definition getLimit_p :: "int \<Rightarrow> Heap \<Rightarrow> (nat \<times> Heap) option" where
  "getLimit_p p hp =
     (case freeLimit hp of
        None \<Rightarrow> None
      | Some l \<Rightarrow>
          Some (l, hp\<lparr>freeLimit := l_nextFree (limits hp l),
                      limits := (limits hp)(l := (limits hp l)\<lparr>l_price := p, l_head := None,
                                                              l_tail := None\<rparr>)\<rparr>))"

definition recycleLimit_p :: "nat \<Rightarrow> Heap \<Rightarrow> Heap" where
  "recycleLimit_p l hp =
     hp\<lparr>limits := (limits hp)(l := (limits hp l)\<lparr>l_head := None, l_tail := None,
                                      l_nextFree := freeLimit hp\<rparr>),
        freeLimit := Some l\<rparr>"

subsection \<open>The tree of levels\<close>

fun h_p :: "PTree \<Rightarrow> int" where
  "h_p PNull = 0"
| "h_p (PNode l a p ht r) = ht"

fun up_p :: "PTree \<Rightarrow> PTree" where
  "up_p PNull = PNull"
| "up_p (PNode l a p ht r) = PNode l a p (1 + max (h_p l) (h_p r)) r"

fun getBal_p :: "PTree \<Rightarrow> int" where
  "getBal_p PNull = 0"
| "getBal_p (PNode l a p ht r) = h_p l - h_p r"

fun rotR_p :: "PTree \<Rightarrow> PTree option" where
  "rotR_p (PNode (PNode a xa xp xh b) ya yp yh c) =
     Some (up_p (PNode a xa xp xh (up_p (PNode b ya yp yh c))))"
| "rotR_p _ = None"

fun rotL_p :: "PTree \<Rightarrow> PTree option" where
  "rotL_p (PNode a xa xp xh (PNode b ya yp yh c)) =
     Some (up_p (PNode (up_p (PNode a xa xp xh b)) ya yp yh c))"
| "rotL_p _ = None"

fun price_p :: "PTree \<Rightarrow> int option" where
  "price_p PNull = None"
| "price_p (PNode l a p ht r) = Some p"

fun left_p :: "PTree \<Rightarrow> PTree" where
  "left_p PNull = PNull"
| "left_p (PNode l a p ht r) = l"

fun right_p :: "PTree \<Rightarrow> PTree" where
  "right_p PNull = PNull"
| "right_p (PNode l a p ht r) = r"

fun setLeft_p :: "PTree \<Rightarrow> PTree \<Rightarrow> PTree" where
  "setLeft_p l' PNull = PNull"
| "setLeft_p l' (PNode l a p ht r) = PNode l' a p ht r"

fun setRight_p :: "PTree \<Rightarrow> PTree \<Rightarrow> PTree" where
  "setRight_p r' PNull = PNull"
| "setRight_p r' (PNode l a p ht r) = PNode l a p ht r'"

text \<open>The tail of \<open>insert\<close>, from \<open>up(n)\<close> on.\<close>

definition insertBalance_p :: "PTree \<Rightarrow> int \<Rightarrow> PTree option" where
  "insertBalance_p n0 p =
     (let n = up_p n0; b = getBal_p n in
      if b > 1 then
        (case price_p (left_p n) of
           None \<Rightarrow> None
         | Some lp \<Rightarrow>
             if p < lp then rotR_p n
             else if p > lp then
               do { l' \<leftarrow> rotL_p (left_p n); rotR_p (setLeft_p l' n) }
             else Some n)
      else if b < -1 then
        (case price_p (right_p n) of
           None \<Rightarrow> None
         | Some rp \<Rightarrow>
             if p > rp then rotL_p n
             else if p < rp then
               do { r' \<leftarrow> rotR_p (right_p n); rotL_p (setRight_p r' n) }
             else Some n)
      else Some n)"

text \<open>
  \<open>insert(n, p, target)\<close>: the new root, the target (\<open>None\<close> when \<open>getLimit\<close> returned
  null) and the state of the arena.
\<close>

fun insert_p :: "PTree \<Rightarrow> int \<Rightarrow> Heap \<Rightarrow> (PTree \<times> nat option \<times> Heap) option" where
  "insert_p PNull p hp =
     (case getLimit_p p hp of
        None \<Rightarrow> Some (PNull, None, hp)
      | Some (l, hp') \<Rightarrow> Some (PNode PNull l p 1 PNull, Some l, hp'))"
| "insert_p (PNode l a np ht r) p hp =
     (if p < np then
        do { (l', tg, hp') \<leftarrow> insert_p l p hp;
             n \<leftarrow> insertBalance_p (PNode l' a np ht r) p;
             Some (n, tg, hp') }
      else if p > np then
        do { (r', tg, hp') \<leftarrow> insert_p r p hp;
             n \<leftarrow> insertBalance_p (PNode l a np ht r') p;
             Some (n, tg, hp') }
      else Some (PNode l a np ht r, Some a, hp))"

text \<open>\<open>getMin\<close> and \<open>getMax\<close>: the address and the price of the node reached.\<close>

fun getMin_p :: "PTree \<Rightarrow> (nat \<times> int) option" where
  "getMin_p PNull = None"
| "getMin_p (PNode l a p ht r) = (if l \<noteq> PNull then getMin_p l else Some (a, p))"

fun getMax_p :: "PTree \<Rightarrow> (nat \<times> int) option" where
  "getMax_p PNull = None"
| "getMax_p (PNode l a p ht r) = (if r \<noteq> PNull then getMax_p r else Some (a, p))"

text \<open>The tail of \<open>removeLimit\<close>, from \<open>up(root)\<close> on.\<close>

definition removeBalance_p :: "PTree \<Rightarrow> PTree option" where
  "removeBalance_p root0 =
     (let root = up_p root0; b = getBal_p root in
      if b > 1 \<and> getBal_p (left_p root) \<ge> 0 then rotR_p root
      else if b > 1 \<and> getBal_p (left_p root) < 0 then
        do { l' \<leftarrow> rotL_p (left_p root); rotR_p (setLeft_p l' root) }
      else if b < -1 \<and> getBal_p (right_p root) \<le> 0 then rotL_p root
      else if b < -1 \<and> getBal_p (right_p root) > 0 then
        do { r' \<leftarrow> rotR_p (right_p root); rotL_p (setRight_p r' root) }
      else Some root)"

text \<open>
  The loop of \<open>removeLimit\<close> that re-points the orders of the replanted FIFO to the
  surviving node, from \<open>curr\<close> along \<open>next\<close>. It does not return on a cyclic chain.
\<close>

partial_function (option) repoint :: "nat option \<Rightarrow> nat \<Rightarrow> (nat \<Rightarrow> POrder) \<Rightarrow> (nat \<Rightarrow> POrder) option" where
  "repoint cur root os =
     (case cur of
        None \<Rightarrow> Some os
      | Some c \<Rightarrow> repoint (o_next (os c)) root (os(c := (os c)\<lparr>o_parentLimit := Some root\<rparr>)))"

text \<open>
  \<open>removeLimit(root, p)\<close>. A node with at most one child is recycled and its child
  returned. For a node with two children the price, head and tail of the successor are
  written into the node, the orders from the new head on are re-pointed, and the
  successor's price is removed from the right subtree.
\<close>

fun removeLimit_p :: "PTree \<Rightarrow> int \<Rightarrow> Heap \<Rightarrow> (PTree \<times> Heap) option" where
  "removeLimit_p PNull p hp = Some (PNull, hp)"
| "removeLimit_p (PNode l a np ht r) p hp =
     (if p < np then
        do { (l', hp') \<leftarrow> removeLimit_p l p hp;
             n \<leftarrow> removeBalance_p (PNode l' a np ht r);
             Some (n, hp') }
      else if p > np then
        do { (r', hp') \<leftarrow> removeLimit_p r p hp;
             n \<leftarrow> removeBalance_p (PNode l a np ht r');
             Some (n, hp') }
      else if l = PNull \<or> r = PNull then
        Some (if l \<noteq> PNull then l else r, recycleLimit_p a hp)
      else
        (case getMin_p r of
           None \<Rightarrow> None
         | Some (sa, sp) \<Rightarrow>
             do { os \<leftarrow> repoint (l_head (limits hp sa)) a (orders hp);
                  (r', hp') \<leftarrow> removeLimit_p r sp
                     (hp\<lparr>limits := (limits hp)(a := (limits hp a)\<lparr>l_price := sp,
                               l_head := l_head (limits hp sa), l_tail := l_tail (limits hp sa)\<rparr>),
                         orders := os\<rparr>);
                  n \<leftarrow> removeBalance_p (PNode l a sp ht r');
                  Some (n, hp') }))"

subsection \<open>The matching engine\<close>

definition setHead :: "nat \<Rightarrow> nat option \<Rightarrow> Heap \<Rightarrow> Heap" where
  "setHead l v hp = hp\<lparr>limits := (limits hp)(l := (limits hp l)\<lparr>l_head := v\<rparr>)\<rparr>"

definition setTail :: "nat \<Rightarrow> nat option \<Rightarrow> Heap \<Rightarrow> Heap" where
  "setTail l v hp = hp\<lparr>limits := (limits hp)(l := (limits hp l)\<lparr>l_tail := v\<rparr>)\<rparr>"

definition setNext :: "nat \<Rightarrow> nat option \<Rightarrow> Heap \<Rightarrow> Heap" where
  "setNext a v hp = hp\<lparr>orders := (orders hp)(a := (orders hp a)\<lparr>o_next := v\<rparr>)\<rparr>"

definition setPrev :: "nat \<Rightarrow> nat option \<Rightarrow> Heap \<Rightarrow> Heap" where
  "setPrev a v hp = hp\<lparr>orders := (orders hp)(a := (orders hp a)\<lparr>o_prev := v\<rparr>)\<rparr>"

definition setParent :: "nat \<Rightarrow> nat option \<Rightarrow> Heap \<Rightarrow> Heap" where
  "setParent a v hp = hp\<lparr>orders := (orders hp)(a := (orders hp a)\<lparr>o_parentLimit := v\<rparr>)\<rparr>"

definition setShares_p :: "nat \<Rightarrow> 32 word \<Rightarrow> Heap \<Rightarrow> Heap" where
  "setShares_p a v hp = hp\<lparr>orders := (orders hp)(a := (orders hp a)\<lparr>o_shares := v\<rparr>)\<rparr>"

definition restingRoot_p :: "Side \<Rightarrow> Heap \<Rightarrow> PTree" where
  "restingRoot_p sd hp = (if sd = Buy then p_buyRoot hp else p_sellRoot hp)"

definition setRestingRoot_p :: "Side \<Rightarrow> PTree \<Rightarrow> Heap \<Rightarrow> Heap" where
  "setRestingRoot_p sd t hp = (if sd = Buy then hp\<lparr>p_buyRoot := t\<rparr> else hp\<lparr>p_sellRoot := t\<rparr>)"

definition stopRoot_p :: "Side \<Rightarrow> Heap \<Rightarrow> PTree" where
  "stopRoot_p sd hp = (if sd = Buy then p_stopBuyRoot hp else p_stopSellRoot hp)"

definition setStopRoot_p :: "Side \<Rightarrow> PTree \<Rightarrow> Heap \<Rightarrow> Heap" where
  "setStopRoot_p sd t hp = (if sd = Buy then hp\<lparr>p_stopBuyRoot := t\<rparr> else hp\<lparr>p_stopSellRoot := t\<rparr>)"

definition pushTrade_p :: "nat \<Rightarrow> nat \<Rightarrow> 32 word \<Rightarrow> int \<Rightarrow> Heap \<Rightarrow> Heap" where
  "pushTrade_p taker maker traded bp hp =
     hp\<lparr>p_tradeBuffer := p_tradeBuffer hp @
           [\<lparr>takerId = o_id (orders hp taker), makerId = o_id (orders hp maker), qty = traded,
             tprice = bp, timestamp = p_timestampCounter hp\<rparr>],
        p_timestampCounter := p_timestampCounter hp + 1\<rparr>"

text \<open>
  The body of the inner loop of the matching up to the test \<open>maker->shares == 0\<close>. The
  two decrements are done one after the other, as in the source.
\<close>

definition fill_p :: "nat \<Rightarrow> nat \<Rightarrow> int \<Rightarrow> Heap \<Rightarrow> Heap" where
  "fill_p taker maker bp hp =
     (let traded = min (o_shares (orders hp taker)) (o_shares (orders hp maker));
          hp1 = pushTrade_p taker maker traded bp hp;
          hp2 = setShares_p taker (o_shares (orders hp1 taker) - traded) hp1
      in setShares_p maker (o_shares (orders hp2 maker) - traded) hp2)"

text \<open>The branch \<open>maker->shares == 0\<close>: the head of the level moves on, the maker is
  erased from the index and recycled.\<close>

definition popMaker :: "nat \<Rightarrow> nat \<Rightarrow> Heap \<Rightarrow> Heap" where
  "popMaker best maker hp =
     (let hp1 = setHead best (o_next (orders hp maker)) hp;
          hp2 = (case l_head (limits hp1 best) of
                   Some nh \<Rightarrow> setPrev nh None hp1
                 | None \<Rightarrow> setTail best None hp1);
          hp3 = hp2\<lparr>p_orderMap := (p_orderMap hp2)(o_id (orders hp2 maker) := None)\<rparr>
      in recycleOrder_p maker hp3)"

text \<open>The inner loop \<open>while (maker && taker->shares > 0)\<close> on the level \<open>best\<close>, whose
  price is \<open>bp\<close>.\<close>

partial_function (option) matchMakers_p ::
  "nat \<Rightarrow> nat \<Rightarrow> int \<Rightarrow> nat option \<Rightarrow> int \<Rightarrow> Heap \<Rightarrow> (int \<times> Heap) option" where
  "matchMakers_p taker best bp maker lastp hp =
     (case maker of
        None \<Rightarrow> Some (lastp, hp)
      | Some m \<Rightarrow>
          if o_shares (orders hp taker) > 0 then
            (if o_shares (orders (fill_p taker m bp hp) m) = 0 then
               matchMakers_p taker best bp
                 (l_head (limits (popMaker best m (fill_p taker m bp hp)) best)) bp
                 (popMaker best m (fill_p taker m bp hp))
             else Some (bp, fill_p taker m bp hp))
          else Some (lastp, hp))"

text \<open>The outer loop \<open>while (taker->shares > 0)\<close>.\<close>

partial_function (option) matchLoop_p ::
  "nat \<Rightarrow> Side \<Rightarrow> int \<Rightarrow> int \<Rightarrow> Heap \<Rightarrow> (int \<times> Heap) option" where
  "matchLoop_p taker sd p lastp hp =
     (if o_shares (orders hp taker) > 0 then
        (case (if sd = Buy then getMin_p (p_sellRoot hp) else getMax_p (p_buyRoot hp)) of
           None \<Rightarrow> Some (lastp, hp)
         | Some (best, bp) \<Rightarrow>
             if (sd = Buy \<and> p < bp) \<or> (sd = Sell \<and> p > bp) then Some (lastp, hp)
             else
               do { (lastp', hp1) \<leftarrow> matchMakers_p taker best bp (l_head (limits hp best)) lastp hp;
                    hp2 \<leftarrow> (if l_head (limits hp1 best) = None then
                              (if sd = Buy then
                                 do { (t, hp') \<leftarrow> removeLimit_p (p_sellRoot hp1) bp hp1;
                                      Some (hp'\<lparr>p_sellRoot := t\<rparr>) }
                               else
                                 do { (t, hp') \<leftarrow> removeLimit_p (p_buyRoot hp1) bp hp1;
                                      Some (hp'\<lparr>p_buyRoot := t\<rparr>) })
                            else Some hp1);
                    matchLoop_p taker sd p lastp' hp2 })
      else Some (lastp, hp))"

definition descriptor_p :: "POrder \<Rightarrow> TriggeredStop" where
  "descriptor_p stopOrder =
     \<lparr>originalId = o_id stopOrder, ts_side = o_side stopOrder,
      convertToType = (if o_type stopOrder = Stop then Market else Limit),
      ts_shares = o_shares stopOrder, limitPrice = o_price stopOrder\<rparr>"

text \<open>The inner loop \<open>while (stopOrder)\<close> of \<open>checkStopOrders\<close>.\<close>

partial_function (option) collectStops_p ::
  "nat option \<Rightarrow> TriggeredStop list \<Rightarrow> Heap \<Rightarrow> (TriggeredStop list \<times> Heap) option" where
  "collectStops_p stopOrder triggered hp =
     (case stopOrder of
        None \<Rightarrow> Some (triggered, hp)
      | Some s \<Rightarrow>
          collectStops_p (o_next (orders hp s)) (triggered @ [descriptor_p (orders hp s)])
            (recycleOrder_p s (hp\<lparr>p_stopOrderMap := (p_stopOrderMap hp)(o_id (orders hp s) := None)\<rparr>)))"

partial_function (option) stopSellLoop_p ::
  "int \<Rightarrow> TriggeredStop list \<Rightarrow> Heap \<Rightarrow> (TriggeredStop list \<times> Heap) option" where
  "stopSellLoop_p executedPrice triggered hp =
     (case getMax_p (p_stopSellRoot hp) of
        None \<Rightarrow> Some (triggered, hp)
      | Some (highest, highp) \<Rightarrow>
          if executedPrice \<le> highp then
            do { (triggered', hp1) \<leftarrow> collectStops_p (l_head (limits hp highest)) triggered hp;
                 (t, hp2) \<leftarrow> removeLimit_p (p_stopSellRoot hp1) highp hp1;
                 stopSellLoop_p executedPrice triggered' (hp2\<lparr>p_stopSellRoot := t\<rparr>) }
          else Some (triggered, hp))"

partial_function (option) stopBuyLoop_p ::
  "int \<Rightarrow> TriggeredStop list \<Rightarrow> Heap \<Rightarrow> (TriggeredStop list \<times> Heap) option" where
  "stopBuyLoop_p executedPrice triggered hp =
     (case getMin_p (p_stopBuyRoot hp) of
        None \<Rightarrow> Some (triggered, hp)
      | Some (lowest, lowp) \<Rightarrow>
          if executedPrice \<ge> lowp then
            do { (triggered', hp1) \<leftarrow> collectStops_p (l_head (limits hp lowest)) triggered hp;
                 (t, hp2) \<leftarrow> removeLimit_p (p_stopBuyRoot hp1) lowp hp1;
                 stopBuyLoop_p executedPrice triggered' (hp2\<lparr>p_stopBuyRoot := t\<rparr>) }
          else Some (triggered, hp))"

definition checkStopOrders_p ::
  "int \<Rightarrow> Side \<Rightarrow> TriggeredStop list \<Rightarrow> Heap \<Rightarrow> (TriggeredStop list \<times> Heap) option" where
  "checkStopOrders_p executedPrice executedSide triggered hp =
     do { (triggered1, hp1) \<leftarrow>
            (if executedSide = Sell \<and> p_stopSellRoot hp \<noteq> PNull
             then stopSellLoop_p executedPrice triggered hp else Some (triggered, hp));
          if executedSide = Buy \<and> p_stopBuyRoot hp1 \<noteq> PNull
          then stopBuyLoop_p executedPrice triggered1 hp1 else Some (triggered1, hp1) }"

text \<open>
  Linking an order at the tail of the FIFO of level \<open>L\<close> and setting its \<open>parentLimit\<close>:
  the statements from \<open>if (!L->head)\<close> to \<open>parentLimit = L\<close>, the same in the stop path,
  the residual path and \<open>modifyOrder\<close>.
\<close>

definition link_p :: "nat \<Rightarrow> nat \<Rightarrow> Heap \<Rightarrow> Heap option" where
  "link_p a L hp =
     do { hp1 \<leftarrow>
            (case l_head (limits hp L) of
               None \<Rightarrow> Some (setHead L (Some a) (setTail L (Some a) hp))
             | Some oh \<Rightarrow>
                 (case l_tail (limits hp L) of
                    None \<Rightarrow> None
                  | Some ot \<Rightarrow>
                      (let hp2 = setNext ot (Some a) hp;
                           hp3 = setPrev a (l_tail (limits hp2 L)) hp2
                       in Some (setTail L (Some a) hp3))));
          Some (setParent a (Some L) hp1) }"

definition armStop_p :: "64 word \<Rightarrow> Side \<Rightarrow> int \<Rightarrow> nat \<Rightarrow> Heap \<Rightarrow> Heap option" where
  "armStop_p i sd sp stopOrder hp1 =
     do { (t, L, hp2) \<leftarrow> insert_p (stopRoot_p sd hp1) sp hp1;
          let hp3 = setStopRoot_p sd t hp2 in
          (case L of
             None \<Rightarrow> Some hp3
           | Some l \<Rightarrow>
               do { hp4 \<leftarrow> link_p stopOrder l hp3;
                    Some (hp4\<lparr>p_stopOrderMap := (p_stopOrderMap hp4)(i \<mapsto> stopOrder)\<rparr>) }) }"

definition restResidual_p ::
  "64 word \<Rightarrow> Side \<Rightarrow> OrderType \<Rightarrow> int \<Rightarrow> nat \<Rightarrow> TriggeredStop list \<Rightarrow> Heap
     \<Rightarrow> (TriggeredStop list \<times> Heap) option" where
  "restResidual_p i sd ty p taker triggeredStops hp3 =
     (if o_shares (orders hp3 taker) > 0 \<and> ty = Limit then
        do { (t, L, hp4) \<leftarrow> insert_p (restingRoot_p sd hp3) p hp3;
             let hp5 = setRestingRoot_p sd t hp4 in
             (case L of
                None \<Rightarrow> Some ([], hp5)
              | Some l \<Rightarrow>
                  do { hp6 \<leftarrow> link_p taker l hp5;
                       Some (triggeredStops, hp6\<lparr>p_orderMap := (p_orderMap hp6)(i \<mapsto> taker)\<rparr>) }) }
      else Some (triggeredStops, recycleOrder_p taker hp3))"

text \<open>\<open>processOrderInternal\<close> up to its last loop, and that loop, as above.\<close>

definition processBody_p ::
  "64 word \<Rightarrow> Side \<Rightarrow> OrderType \<Rightarrow> 32 word \<Rightarrow> int \<Rightarrow> int \<Rightarrow> bool \<Rightarrow> Heap
     \<Rightarrow> (TriggeredStop list \<times> Heap) option" where
  "processBody_p i sd ty q p sp checkStops hp =
     (if ty = Stop \<or> ty = StopLimit then
        (case getOrder_p i sd ty q p sp hp of
           None \<Rightarrow> Some ([], hp)
         | Some (stopOrder, hp1) \<Rightarrow>
             do { hp2 \<leftarrow> armStop_p i sd sp stopOrder hp1; Some ([], hp2) })
      else
        (case getOrder_p i sd ty q p sp hp of
           None \<Rightarrow> Some ([], hp)
         | Some (taker, hp1) \<Rightarrow>
             do { (lastExecutedPrice, hp2) \<leftarrow> matchLoop_p taker sd p 0 hp1;
                  (triggeredStops, hp3) \<leftarrow>
                    (if checkStops \<and> lastExecutedPrice > 0
                     then checkStopOrders_p lastExecutedPrice sd [] hp2 else Some ([], hp2));
                  restResidual_p i sd ty p taker triggeredStops hp3 }))"

fun resubmitStops_p :: "TriggeredStop list \<Rightarrow> Heap \<Rightarrow> Heap option" where
  "resubmitStops_p [] hp = Some hp"
| "resubmitStops_p (ts # rest) hp =
     (let newId = p_generatedIdCounter hp;
          hp1 = hp\<lparr>p_generatedIdCounter := p_generatedIdCounter hp + 1\<rparr>
      in do { (tr, hp2) \<leftarrow> processBody_p newId (ts_side ts) (convertToType ts) (ts_shares ts)
                              (limitPrice ts) 0 False hp1;
              resubmitStops_p rest hp2 })"

definition processOrderInternal_p ::
  "64 word \<Rightarrow> Side \<Rightarrow> OrderType \<Rightarrow> 32 word \<Rightarrow> int \<Rightarrow> int \<Rightarrow> bool \<Rightarrow> Heap \<Rightarrow> Heap option" where
  "processOrderInternal_p i sd ty q p sp checkStops hp =
     do { (triggeredStops, hp1) \<leftarrow> processBody_p i sd ty q p sp checkStops hp;
          resubmitStops_p triggeredStops hp1 }"

definition processOrder_p ::
  "64 word \<Rightarrow> Side \<Rightarrow> OrderType \<Rightarrow> 32 word \<Rightarrow> int \<Rightarrow> int \<Rightarrow> Heap \<Rightarrow> Heap option" where
  "processOrder_p i sd ty q p sp hp = processOrderInternal_p i sd ty q p sp True hp"

text \<open>
  The unlinking of order \<open>a\<close> in \<open>cancelOrder\<close> and \<open>modifyOrder\<close>, with \<open>L\<close> the
  \<open>parentLimit\<close> read before: the two \<open>if\<close> statements on \<open>prev\<close> and \<open>next\<close>. \<open>L\<close> is
  dereferenced in their \<open>else\<close> branches.
\<close>

definition unlink_p :: "nat \<Rightarrow> nat option \<Rightarrow> Heap \<Rightarrow> Heap option" where
  "unlink_p a L hp =
     do { hp1 \<leftarrow>
            (case o_prev (orders hp a) of
               Some pr \<Rightarrow> Some (setNext pr (o_next (orders hp a)) hp)
             | None \<Rightarrow> (case L of None \<Rightarrow> None
                         | Some l \<Rightarrow> Some (setHead l (o_next (orders hp a)) hp)));
          (case o_next (orders hp1 a) of
             Some nx \<Rightarrow> Some (setPrev nx (o_prev (orders hp1 a)) hp1)
           | None \<Rightarrow> (case L of None \<Rightarrow> None
                       | Some l \<Rightarrow> Some (setTail l (o_prev (orders hp1 a)) hp1))) }"

definition cancelOrder_p :: "64 word \<Rightarrow> Heap \<Rightarrow> (bool \<times> Heap) option" where
  "cancelOrder_p orderId hp =
     (case p_orderMap hp orderId of
        Some a \<Rightarrow>
          (let L = o_parentLimit (orders hp a) in
           do { hp1 \<leftarrow> unlink_p a L hp;
                l \<leftarrow> L;
                hp2 \<leftarrow> (if l_head (limits hp1 l) = None then
                          do { (t, hp') \<leftarrow> removeLimit_p (restingRoot_p (o_side (orders hp1 a)) hp1)
                                             (l_price (limits hp1 l)) hp1;
                               Some (setRestingRoot_p (o_side (orders hp1 a)) t hp') }
                        else Some hp1);
                Some (True, recycleOrder_p a (hp2\<lparr>p_orderMap := (p_orderMap hp2)(orderId := None)\<rparr>)) })
      | None \<Rightarrow>
          (case p_stopOrderMap hp orderId of
             Some a \<Rightarrow>
               (let L = o_parentLimit (orders hp a) in
                do { hp1 \<leftarrow> unlink_p a L hp;
                     l \<leftarrow> L;
                     hp2 \<leftarrow> (if l_head (limits hp1 l) = None then
                               do { (t, hp') \<leftarrow> removeLimit_p (stopRoot_p (o_side (orders hp1 a)) hp1)
                                                  (l_price (limits hp1 l)) hp1;
                                    Some (setStopRoot_p (o_side (orders hp1 a)) t hp') }
                             else Some hp1);
                     Some (True, recycleOrder_p a
                             (hp2\<lparr>p_stopOrderMap := (p_stopOrderMap hp2)(orderId := None)\<rparr>)) })
           | None \<Rightarrow> Some (False, hp)))"

definition modifyOrder_p :: "64 word \<Rightarrow> 32 word \<Rightarrow> int \<Rightarrow> Heap \<Rightarrow> (bool \<times> Heap) option" where
  "modifyOrder_p orderId newQty newPrice hp =
     (case p_orderMap hp orderId of
        None \<Rightarrow> Some (False, hp)
      | Some a \<Rightarrow>
          if newPrice = o_price (orders hp a) then Some (True, setShares_p a newQty hp)
          else
            (let oldLimit = o_parentLimit (orders hp a); sd = o_side (orders hp a) in
             do { hp1 \<leftarrow> unlink_p a oldLimit hp;
                  l \<leftarrow> oldLimit;
                  hp2 \<leftarrow> (if l_head (limits hp1 l) = None then
                            do { (t, hp') \<leftarrow> removeLimit_p (restingRoot_p sd hp1)
                                               (l_price (limits hp1 l)) hp1;
                                 Some (setRestingRoot_p sd t hp') }
                          else Some hp1);
                  let hp3 = hp2\<lparr>orders := (orders hp2)(a := (orders hp2 a)\<lparr>o_price := newPrice,
                                  o_shares := newQty, o_prev := None, o_next := None\<rparr>)\<rparr> in
                  do { (t, newLimit, hp4) \<leftarrow> insert_p (restingRoot_p sd hp3) newPrice hp3;
                       let hp5 = setRestingRoot_p sd t hp4 in
                       (case newLimit of
                          None \<Rightarrow> Some (False, hp5)
                        | Some nl \<Rightarrow> do { hp6 \<leftarrow> link_p a nl hp5; Some (True, hp6) }) } }))"

text \<open>
  The engine over \<open>MemoryManager mm(n)\<close>: the constructor chains the slots of each pool
  through \<open>nextFree\<close>; every other field is value-initialised. The source needs
  \<open>n \<ge> 5\<close> (it takes the address of the first slot of both pools); a pool without slots
  has an empty free list here.
\<close>

definition newBook_p :: "nat \<Rightarrow> Heap" where
  "newBook_p n =
     \<lparr>orders = (\<lambda>a. \<lparr>o_id = 0, o_side = Buy, o_type = Market, o_shares = 0, o_price = 0,
                       o_stopPrice = 0, o_next = None, o_prev = None,
                       o_nextFree = (if a + 1 < n then Some (a + 1) else None),
                       o_parentLimit = None\<rparr>),
      limits = (\<lambda>l. \<lparr>l_price = 0, l_head = None, l_tail = None,
                       l_nextFree = (if l + 1 < n div 5 then Some (l + 1) else None)\<rparr>),
      freeOrder = (if 0 < n then Some 0 else None),
      freeLimit = (if 0 < n div 5 then Some 0 else None),
      p_buyRoot = PNull, p_sellRoot = PNull, p_stopBuyRoot = PNull, p_stopSellRoot = PNull,
      p_orderMap = Map.empty, p_stopOrderMap = Map.empty,
      p_tradeBuffer = [], p_timestampCounter = 0, p_generatedIdCounter = 1000000000\<rparr>"

fun act_p :: "Action \<Rightarrow> Heap \<Rightarrow> Heap option" where
  "act_p (Submit i sd ty q p sp) hp = processOrder_p i sd ty q p sp hp"
| "act_p (Cancel i) hp = map_option snd (cancelOrder_p i hp)"
| "act_p (Modify i q p) hp = map_option snd (modifyOrder_p i q p hp)"

fun run_p :: "Action list \<Rightarrow> Heap \<Rightarrow> Heap option" where
  "run_p [] hp = Some hp"
| "run_p (x # xs) hp = do { hp1 \<leftarrow> act_p x hp; run_p xs hp1 }"

declare repoint.simps [code] matchMakers_p.simps [code] matchLoop_p.simps [code]
  collectStops_p.simps [code] stopSellLoop_p.simps [code] stopBuyLoop_p.simps [code]

subsection \<open>Balance of the trees\<close>

text \<open>The height of a tree, as opposed to the height recorded in its root.\<close>

fun th_p :: "PTree \<Rightarrow> int" where
  "th_p PNull = 0"
| "th_p (PNode l a p ht r) = 1 + max (th_p l) (th_p r)"

text \<open>
  Every node records \<open>1 + max\<close> of the heights of its subtrees, and its balance factor
  is \<open>-1\<close>, \<open>0\<close> or \<open>1\<close>.
\<close>

fun avl_p :: "PTree \<Rightarrow> bool" where
  "avl_p PNull = True"
| "avl_p (PNode l a p ht r) =
     (avl_p l \<and> avl_p r \<and> ht = 1 + max (th_p l) (th_p r)
      \<and> -1 \<le> th_p l - th_p r \<and> th_p l - th_p r \<le> 1)"

definition roots :: "Heap \<Rightarrow> PTree \<times> PTree \<times> PTree \<times> PTree" where
  "roots hp = (p_buyRoot hp, p_sellRoot hp, p_stopBuyRoot hp, p_stopSellRoot hp)"

definition trees_avl_p :: "Heap \<Rightarrow> bool" where
  "trees_avl_p hp =
     (avl_p (p_buyRoot hp) \<and> avl_p (p_sellRoot hp) \<and> avl_p (p_stopBuyRoot hp)
      \<and> avl_p (p_stopSellRoot hp))"

text \<open>A tree of addressed nodes as a tree of levels: prices, heights and links.\<close>

fun shape :: "PTree \<Rightarrow> Limit" where
  "shape PNull = Null"
| "shape (PNode l a p ht r) = Node (shape l) p [] ht (shape r)"

subsection \<open>Runs at the level of pointers\<close>

text \<open>
  Over \<open>MemoryManager mm(50)\<close>, with ten \<open>Limit\<close> nodes: five sell levels and four buy
  levels (with single and double rotations), a stop level and a second order at 90.
  The modify of order 6 then finds the pool of levels empty and is dropped; order 6 is
  cancelled and order 11 modified twice after it; a sell level is removed with a
  rotation, a buy order is filled, a stop is armed and the buy level 70, a node with two
  children, is removed.
\<close>

definition rotating_run :: "Action list" where
  "rotating_run =
     [Submit 1 Sell Limit 5 110 0, Submit 2 Sell Limit 5 120 0, Submit 3 Sell Limit 5 130 0,
      Submit 4 Sell Limit 5 126 0, Submit 5 Sell Limit 5 123 0,
      Submit 6 Buy Limit 5 90 0, Submit 7 Buy Limit 5 80 0, Submit 8 Buy Limit 5 70 0,
      Submit 9 Buy Limit 5 60 0, Submit 10 Buy Stop 5 0 140, Submit 11 Buy Limit 5 90 0,
      Modify 6 5 95, Cancel 6, Modify 11 4 65, Modify 11 4 85,
      Cancel 1, Submit 12 Buy Limit 3 126 0, Submit 13 Sell Stop 3 0 75, Cancel 8]"

text \<open>
  Over \<open>MemoryManager mm(5)\<close>, with one \<open>Limit\<close> node. The modify of order 1 is dropped for
  exhaustion and leaves it pointing to its old level; the node is freed and becomes the
  sell level 200; cancelling order 1 then clears head and tail of that level, cancelling
  order 3 sets its head again, and the last submit reaches \<open>L->tail->next\<close> with a null
  tail.
\<close>

definition null_tail_run :: "Action list" where
  "null_tail_run =
     [Submit 1 Buy Limit 5 100 0, Submit 2 Buy Limit 5 100 0, Modify 1 5 101, Cancel 2,
      Submit 3 Sell Limit 5 200 0, Submit 4 Sell Limit 5 200 0, Cancel 1, Cancel 3,
      Submit 5 Sell Limit 5 200 0]"

text \<open>
  Over \<open>MemoryManager mm(15)\<close>, with three \<open>Limit\<close> nodes; every quantity is positive. The
  modify of order 1 is dropped for exhaustion. After it, cancels write through the
  \<open>parentLimit\<close> of orders that are no longer in the FIFO of that level, and the head of
  the sell level 200 ends on a slot of the order pool that was recycled and then taken
  and recycled again by the fully filled order 9.
\<close>

definition stale_head_run :: "Action list" where
  "stale_head_run =
     [Submit 1 Buy Limit 5 120 0, Submit 2 Buy Limit 5 120 0, Submit 3 Buy Limit 5 120 0,
      Submit 4 Buy Limit 5 110 0, Submit 5 Buy Limit 5 100 0, Modify 1 5 130, Cancel 1,
      Submit 6 Buy Limit 5 125 0, Cancel 2, Cancel 4, Submit 7 Buy Limit 5 125 0,
      Submit 8 Sell Limit 5 200 0, Cancel 6, Cancel 7, Submit 9 Sell Limit 5 100 0]"

section \<open>Evaluation\<close>

lemmas engine_defs =
  processOrder_def processOrderInternal_def processBody_def restResidual_def armStop_def getOrder_def getLimit_def
  stopRoot_def setStopRoot_def restingRoot_def setRestingRoot_def linkTail_def
  matchLoop.simps stopSellLoop.simps stopBuyLoop.simps checkStopOrders_def recycleOrder_def
  insertBalance_def opposite_def pushTrade_def setShares_def recycleLimit_def
  removeBalance_def fill_def removeMaker_def descriptor_def removeStop_def
  cancelOrder_def modifyOrder_def unlink_def newBook_def upt_rec

section \<open>Balance of the trees\<close>

lemma th_nonneg: "0 \<le> th t"
  by (induction t) auto

lemma th_plus_neq [simp]: "1 + th t \<noteq> 0" "th t + 1 \<noteq> 0" "2 + th t \<noteq> 0" "th t + 2 \<noteq> 0"
  using th_nonneg[of t] by auto

lemma avl_h_th [simp]: "avl t \<Longrightarrow> h t = th t"
  by (cases t) auto

lemma th_Node_pos: "0 < th (Node l p q ht r)"
  using th_nonneg[of l] th_nonneg[of r] by simp

lemma th_0_iff [simp]: "th t = 0 \<longleftrightarrow> t = Null"
proof (cases t)
  case Null
  then show ?thesis by simp
next
  case (Node l p q ht r)
  then show ?thesis using th_Node_pos[of l p q ht r] by auto
qed

lemma insertBalance_balanced:
  assumes "avl l" "avl r" "-1 \<le> th l - th r" "th l - th r \<le> 1"
  shows "insertBalance (Node l np q ht r) p = Some (Node l np q (1 + max (th l) (th r)) r)"
  using assms by (auto simp: insertBalance_def Let_def)

lemma insertBalance_left:
  assumes "avl (Node a lp lq lh b)" "avl r" "th (Node a lp lq lh b) = th r + 2"
    "(p < lp \<and> th a = th b + 1) \<or> (p > lp \<and> th b = th a + 1)"
  shows "\<exists>t'. insertBalance (Node (Node a lp lq lh b) np q ht r) p = Some t' \<and> avl t' \<and> th t' = th r + 2"
  using assms th_nonneg[of a] th_nonneg[of b] th_nonneg[of r]
  apply (cases b)
  apply (auto simp: insertBalance_def Let_def max_def split: if_splits)
  done

lemma insertBalance_right:
  assumes "avl (Node a rp rq rh b)" "avl l" "th (Node a rp rq rh b) = th l + 2"
    "(p > rp \<and> th b = th a + 1) \<or> (p < rp \<and> th a = th b + 1)"
  shows "\<exists>t'. insertBalance (Node l np q ht (Node a rp rq rh b)) p = Some t' \<and> avl t' \<and> th t' = th l + 2"
  using assms th_nonneg[of a] th_nonneg[of b] th_nonneg[of l]
  apply (cases a)
  apply (auto simp: insertBalance_def Let_def max_def split: if_splits)
  done

lemma ins_shape_left:
  assumes "ins_shape p l'" "th l' = th r + 2"
  obtains a lp lq lh b where "l' = Node a lp lq lh b"
    "(p < lp \<and> th a = th b + 1) \<or> (p > lp \<and> th b = th a + 1)"
  using assms th_nonneg[of r] by (cases l') auto

lemma insertL_avl:
  "avl t \<Longrightarrow> \<exists>t' tg fl'. insertL t p fl = Some (t', tg, fl') \<and> avl t'
      \<and> (th t' = th t \<or> (th t' = th t + 1 \<and> ins_shape p t'))"
proof (induction t)
  case Null
  then show ?case by (auto simp: getLimit_def)
next
  case (Node l np q ht r)
  have al: "avl l" and ar: "avl r" and bal: "-1 \<le> th l - th r" "th l - th r \<le> 1"
    using Node.prems by auto
  show ?case
  proof (cases "p < np")
    case True
    from Node.IH(1)[OF al] obtain l' tg fl' where
      i: "insertL l p fl = Some (l', tg, fl')" and al': "avl l'"
      and hl: "th l' = th l \<or> (th l' = th l + 1 \<and> ins_shape p l')" by blast
    show ?thesis
    proof (cases "th l' - th r \<le> 1")
      case le: True
      have "insertBalance (Node l' np q ht r) p = Some (Node l' np q (1 + max (th l') (th r)) r)"
        using insertBalance_balanced[OF al' ar] le hl bal by auto
      then show ?thesis using i True al' ar le hl bal by (auto simp: max_def)
    next
      case False
      then have e: "th l' = th r + 2" using hl bal by auto
      then have sh: "ins_shape p l'" using hl bal by auto
      from ins_shape_left[OF sh e] obtain a lp lq lh b where l': "l' = Node a lp lq lh b"
        and c: "(p < lp \<and> th a = th b + 1) \<or> (p > lp \<and> th b = th a + 1)" by blast
      from insertBalance_left[OF al'[unfolded l'] ar e[unfolded l'] c, of np q ht]
      obtain t' where "insertBalance (Node l' np q ht r) p = Some t'" "avl t'" "th t' = th r + 2"
        unfolding l' by blast
      then show ?thesis using i True e hl bal by (auto simp: max_def)
    qed
  next
    case nlt: False
    show ?thesis
    proof (cases "p > np")
      case True
      from Node.IH(2)[OF ar] obtain r' tg fl' where
        i: "insertL r p fl = Some (r', tg, fl')" and ar': "avl r'"
        and hr: "th r' = th r \<or> (th r' = th r + 1 \<and> ins_shape p r')" by blast
      show ?thesis
      proof (cases "th r' - th l \<le> 1")
        case le: True
        have "insertBalance (Node l np q ht r') p = Some (Node l np q (1 + max (th l) (th r')) r')"
          using insertBalance_balanced[OF al ar'] le hr bal by auto
        then show ?thesis using i True nlt al ar' le hr bal by (auto simp: max_def)
      next
        case False
        then have e: "th r' = th l + 2" using hr bal by auto
        then have sh: "ins_shape p r'" using hr bal by auto
        obtain a rp rq rh b where r': "r' = Node a rp rq rh b"
          and c: "(p > rp \<and> th b = th a + 1) \<or> (p < rp \<and> th a = th b + 1)"
          using sh e th_nonneg[of l] by (cases r') auto
        from insertBalance_right[OF ar'[unfolded r'] al e[unfolded r'] c, of np q ht]
        obtain t' where "insertBalance (Node l np q ht r') p = Some t'" "avl t'" "th t' = th l + 2"
          unfolding r' by blast
        then show ?thesis using i True nlt e hr bal by (auto simp: max_def)
      qed
    next
      case False
      then show ?thesis using nlt Node.prems by auto
    qed
  qed
qed


lemma removeBalance_balanced:
  assumes "avl l" "avl r" "-1 \<le> th l - th r" "th l - th r \<le> 1"
  shows "removeBalance (Node l np q ht r) = Some (Node l np q (1 + max (th l) (th r)) r)"
  using assms by (auto simp: removeBalance_def Let_def)

lemma removeBalance_left:
  assumes "avl l" "avl r" "th l = th r + 2"
  shows "\<exists>t'. removeBalance (Node l np q ht r) = Some t' \<and> avl t'
     \<and> (th t' = th r + 3 \<or> th t' = th r + 2)"
proof -
  obtain a lp lq lh b where l: "l = Node a lp lq lh b"
    using assms(3) th_nonneg[of r] by (cases l) auto
  show ?thesis
  proof (cases "th a \<ge> th b")
    case True
    then show ?thesis using assms th_nonneg[of a] th_nonneg[of b] th_nonneg[of r] unfolding l
      by (auto simp: removeBalance_def Let_def max_def split: if_splits)
  next
    case False
    then obtain b1 bp bq bh b2 where b: "b = Node b1 bp bq bh b2"
      using th_nonneg[of a] by (cases b) auto
    show ?thesis using False assms th_nonneg[of a] th_nonneg[of b1] th_nonneg[of b2] th_nonneg[of r]
      unfolding l b
      by (auto simp: removeBalance_def Let_def max_def split: if_splits)
  qed
qed

lemma removeBalance_right:
  assumes "avl l" "avl r" "th r = th l + 2"
  shows "\<exists>t'. removeBalance (Node l np q ht r) = Some t' \<and> avl t'
     \<and> (th t' = th l + 3 \<or> th t' = th l + 2)"
proof -
  obtain a rp rq rh b where r: "r = Node a rp rq rh b"
    using assms(3) th_nonneg[of l] by (cases r) auto
  show ?thesis
  proof (cases "th b \<ge> th a")
    case True
    then show ?thesis using assms th_nonneg[of a] th_nonneg[of b] th_nonneg[of l] unfolding r
      by (auto simp: removeBalance_def Let_def max_def split: if_splits)
  next
    case False
    then obtain a1 ap aq ah a2 where a: "a = Node a1 ap aq ah a2"
      using th_nonneg[of b] by (cases a) auto
    show ?thesis using False assms th_nonneg[of b] th_nonneg[of a1] th_nonneg[of a2] th_nonneg[of l]
      unfolding r a
      by (auto simp: removeBalance_def Let_def max_def split: if_splits)
  qed
qed

lemma removeBalance_avl:
  assumes "avl l" "avl r" "-2 \<le> th l - th r" "th l - th r \<le> 2"
  shows "\<exists>t'. removeBalance (Node l np q ht r) = Some t' \<and> avl t'
     \<and> (th t' = 1 + max (th l) (th r)
         \<or> (th t' = max (th l) (th r) \<and> (th l = th r + 2 \<or> th r = th l + 2)))"
proof -
  consider "th l = th r + 2" | "th r = th l + 2" | "-1 \<le> th l - th r \<and> th l - th r \<le> 1"
    using assms by linarith
  then show ?thesis
  proof cases
    case 1
    from removeBalance_left[OF assms(1,2) 1, of np q ht] show ?thesis using 1 by (auto simp: max_def)
  next
    case 2
    from removeBalance_right[OF assms(1,2) 2, of np q ht] show ?thesis using 2 by (auto simp: max_def)
  next
    case 3
    then show ?thesis using removeBalance_balanced[OF assms(1,2), of np q ht] assms by auto
  qed
qed

lemma getMin_Some: "t \<noteq> Null \<Longrightarrow> \<exists>x. getMin t = Some x"
  by (induction t) auto

lemma getMax_Some: "t \<noteq> Null \<Longrightarrow> \<exists>x. getMax t = Some x"
  by (induction t) auto

lemma removeLimit_avl:
  "avl t \<Longrightarrow> \<exists>t' fl'. removeLimit t p fl = Some (t', fl') \<and> avl t'
      \<and> (th t' = th t \<or> th t' = th t - 1)"
proof (induction t arbitrary: p fl)
  case Null
  then show ?case by auto
next
  case (Node l np q ht r)
  have al: "avl l" and ar: "avl r" and bal: "-1 \<le> th l - th r" "th l - th r \<le> 1"
    using Node.prems by auto
  have left_case: "\<exists>t' fl'. (do { (l', fl') \<leftarrow> removeLimit l p' fl;
             n \<leftarrow> removeBalance (Node l' np' q' ht r);
             Some (n, fl') }) = Some (t', fl') \<and> avl t'
      \<and> (th t' = 1 + max (th l) (th r) \<or> th t' = max (th l) (th r))" for p' np' q'
  proof -
    from Node.IH(1)[OF al, of p' fl] obtain l' fl' where
      i: "removeLimit l p' fl = Some (l', fl')" and al': "avl l'"
      and hl: "th l' = th l \<or> th l' = th l - 1" by blast
    from removeBalance_avl[OF al' ar, of np' q' ht] hl bal obtain t' where
      "removeBalance (Node l' np' q' ht r) = Some t'" "avl t'"
      "th t' = 1 + max (th l') (th r) \<or> (th t' = max (th l') (th r) \<and> (th l' = th r + 2 \<or> th r = th l' + 2))"
      by auto
    then show ?thesis using i hl bal by (auto simp: max_def split: if_splits)
  qed
  have right_case: "\<exists>t' fl'. (do { (r', fl') \<leftarrow> removeLimit r p' fl;
             n \<leftarrow> removeBalance (Node l np' q' ht r');
             Some (n, fl') }) = Some (t', fl') \<and> avl t'
      \<and> (th t' = 1 + max (th l) (th r) \<or> th t' = max (th l) (th r))" for p' np' q'
  proof -
    from Node.IH(2)[OF ar, of p' fl] obtain r' fl' where
      i: "removeLimit r p' fl = Some (r', fl')" and ar': "avl r'"
      and hr: "th r' = th r \<or> th r' = th r - 1" by blast
    from removeBalance_avl[OF al ar', of np' q' ht] hr bal obtain t' where
      "removeBalance (Node l np' q' ht r') = Some t'" "avl t'"
      "th t' = 1 + max (th l) (th r') \<or> (th t' = max (th l) (th r') \<and> (th l = th r' + 2 \<or> th r' = th l + 2))"
      by auto
    then show ?thesis using i hr bal by (auto simp: max_def split: if_splits)
  qed
  show ?case
  proof (cases "p < np")
    case True
    then show ?thesis using left_case[of p np q] by auto
  next
    case nlt: False
    show ?thesis
    proof (cases "p > np")
      case True
      then show ?thesis using nlt right_case[of p np q] by auto
    next
      case ngt: False
      show ?thesis
      proof (cases "l = Null \<or> r = Null")
        case True
        then show ?thesis using nlt ngt al ar bal th_nonneg[of l] th_nonneg[of r]
          by (auto simp: max_def)
      next
        case False
        then obtain sp sq where m: "getMin r = Some (sp, sq)"
          using getMin_Some[of r] by auto
        show ?thesis using nlt ngt False m right_case[of sp sp sq] by auto
      qed
    qed
  qed
qed

lemma th_setFifo [simp]: "th (setFifo k q' t) = th t"
  by (induction t) auto

lemma avl_setFifo [simp]: "avl (setFifo k q' t) = avl t"
  by (induction t) auto

lemma th_appendOrder [simp]: "th (appendOrder k a t) = th t"
  by (induction t) auto

lemma avl_appendOrder [simp]: "avl (appendOrder k a t) = avl t"
  by (induction t) auto

section \<open>The levels of a tree in key order\<close>

lemma inorder_up [simp]: "inorder (up t) = inorder t"
  by (cases t) auto

lemma inorder_rotR: "rotR t = Some t' \<Longrightarrow> inorder t' = inorder t"
  by (cases t rule: rotR.cases) auto

lemma inorder_rotL: "rotL t = Some t' \<Longrightarrow> inorder t' = inorder t"
  by (cases t rule: rotL.cases) auto

lemma inorder_setLeft: "inorder (setLeft l' (Node l p q ht r)) = inorder l' @ (p, q) # inorder r"
  by simp

lemma inorder_insertBalance:
  "insertBalance (Node l np q ht r) p = Some n' \<Longrightarrow> inorder n' = inorder l @ (np, q) # inorder r"
  apply (auto simp: insertBalance_def Let_def split: if_splits option.splits bind_splits dest!: inorder_rotR inorder_rotL)
  done

lemma inorder_removeBalance:
  "removeBalance (Node l np q ht r) = Some n' \<Longrightarrow> inorder n' = inorder l @ (np, q) # inorder r"
  apply (auto simp: removeBalance_def Let_def split: if_splits option.splits bind_splits dest!: inorder_rotR inorder_rotL)
  done

lemma inorder_Nil_iff [simp]: "inorder t = [] \<longleftrightarrow> t = Null"
  by (cases t) auto

lemma getMin_inorder: "getMin t = (case inorder t of [] \<Rightarrow> None | x # _ \<Rightarrow> Some x)"
  by (induction t) (auto split: list.splits)

lemma getMax_inorder: "getMax t = (if inorder t = [] then None else Some (last (inorder t)))"
  by (induction t) (auto split: list.splits)

lemma keys_setFifo [simp]: "keys (setFifo k q' t) = keys t"
  by (induction t) (auto simp: keys_def)

lemma keys_appendOrder [simp]: "keys (appendOrder k a t) = keys t"
  by (induction t) (auto simp: keys_def)

lemma bst_Node:
  "bst (Node l p q ht r) \<longleftrightarrow> bst l \<and> bst r \<and> (\<forall>x \<in> set (keys l). x < p) \<and> (\<forall>y \<in> set (keys r). p < y)"
  by (fastforce simp: bst_def keys_def sorted_wrt_append)

lemma findLimit_map_of: "bst t \<Longrightarrow> findLimit t k = map_of (inorder t) k"
proof (induction t)
  case Null
  then show ?case by simp
next
  case (Node l p q ht r)
  then have bl: "bst l" and br: "bst r" and lo: "\<forall>x \<in> set (keys l). x < p" and hi: "\<forall>y \<in> set (keys r). p < y"
    by (auto simp: bst_Node)
  have nl: "k \<ge> p \<Longrightarrow> map_of (inorder l) k = None"
    using lo by (force simp: map_of_eq_None_iff keys_def)
  have nr: "k \<le> p \<Longrightarrow> map_of (inorder r) k = None"
    using hi by (force simp: map_of_eq_None_iff keys_def)
  show ?case using Node.IH bl br nl nr
    by (auto simp: map_add_def split: option.splits)
qed

lemma upd_level_id: "k \<notin> fst ` set xs \<Longrightarrow> upd_level k f xs = xs"
  by (induction xs) (auto simp: upd_level_def)

lemma upd_level_append [simp]: "upd_level k f (xs @ ys) = upd_level k f xs @ upd_level k f ys"
  by (simp add: upd_level_def)

lemma upd_level_Cons [simp]:
  "upd_level k f ((p, q) # ys) = (if p = k then (p, f q) else (p, q)) # upd_level k f ys"
  by (simp add: upd_level_def)

lemma upd_level_Nil [simp]: "upd_level k f [] = []"
  by (simp add: upd_level_def)

lemma inorder_setFifo: "bst t \<Longrightarrow> inorder (setFifo k q' t) = upd_level k (\<lambda>_. q') (inorder t)"
proof (induction t)
  case Null
  then show ?case by simp
next
  case (Node l p q ht r)
  then have bl: "bst l" and br: "bst r" and lo: "\<forall>x \<in> set (keys l). x < p" and hi: "\<forall>y \<in> set (keys r). p < y"
    by (auto simp: bst_Node)
  have nl: "k \<ge> p \<Longrightarrow> upd_level k (\<lambda>_. q') (inorder l) = inorder l"
    using lo by (intro upd_level_id) (force simp: keys_def)
  have nr: "k \<le> p \<Longrightarrow> upd_level k (\<lambda>_. q') (inorder r) = inorder r"
    using hi by (intro upd_level_id) (force simp: keys_def)
  show ?case using Node.IH bl br nl nr by auto
qed

lemma inorder_appendOrder: "bst t \<Longrightarrow> inorder (appendOrder k a t) = upd_level k (\<lambda>q. q @ [a]) (inorder t)"
proof (induction t)
  case Null
  then show ?case by simp
next
  case (Node l p q ht r)
  then have bl: "bst l" and br: "bst r" and lo: "\<forall>x \<in> set (keys l). x < p" and hi: "\<forall>y \<in> set (keys r). p < y"
    by (auto simp: bst_Node)
  have nl: "k \<ge> p \<Longrightarrow> upd_level k (\<lambda>q. q @ [a]) (inorder l) = inorder l"
    using lo by (intro upd_level_id) (force simp: keys_def)
  have nr: "k \<le> p \<Longrightarrow> upd_level k (\<lambda>q. q @ [a]) (inorder r) = inorder r"
    using hi by (intro upd_level_id) (force simp: keys_def)
  show ?case using Node.IH bl br nl nr by auto
qed

lemma bst_setFifo [simp]: "bst (setFifo k q' t) = bst t"
  by (simp add: bst_def)

lemma bst_appendOrder [simp]: "bst (appendOrder k a t) = bst t"
  by (simp add: bst_def)

lemma del_level_id: "k \<notin> fst ` set xs \<Longrightarrow> del_level k xs = xs"
  by (induction xs) (auto simp: del_level_def)

lemma del_level_append [simp]: "del_level k (xs @ ys) = del_level k xs @ del_level k ys"
  by (simp add: del_level_def)

lemma del_level_Cons [simp]:
  "del_level k (x # ys) = (if fst x = k then del_level k ys else x # del_level k ys)"
  by (simp add: del_level_def)

lemma del_level_Nil [simp]: "del_level k [] = []"
  by (simp add: del_level_def)

lemma keys_del_level: "map fst (del_level k xs) = filter (\<lambda>x. x \<noteq> k) (map fst xs)"
  by (induction xs) auto

lemma sorted_del_level: "sorted_wrt (<) (map fst xs) \<Longrightarrow> sorted_wrt (<) (map fst (del_level k xs))"
  by (simp add: keys_del_level sorted_wrt_filter)

lemma removeLimit_inorder:
  "bst t \<Longrightarrow> removeLimit t p fl = Some (t', fl') \<Longrightarrow>
     inorder t' = del_level p (inorder t) \<and> fl' = (if p \<in> set (keys t) then Suc fl else fl)"
proof (induction t arbitrary: p fl t' fl')
  case Null
  then show ?case by (auto simp: keys_def)
next
  case (Node l np q ht r)
  then have bl: "bst l" and br: "bst r" and lo: "\<forall>x \<in> set (keys l). x < np" and hi: "\<forall>y \<in> set (keys r). np < y"
    by (auto simp: bst_Node)
  have nl: "k \<ge> np \<Longrightarrow> del_level k (inorder l) = inorder l \<and> k \<notin> set (keys l)" for k
    using lo by (force simp: keys_def intro!: del_level_id)
  have nr: "k \<le> np \<Longrightarrow> del_level k (inorder r) = inorder r \<and> k \<notin> set (keys r)" for k
    using hi by (force simp: keys_def intro!: del_level_id)
  show ?case
  proof (cases "p < np")
    case True
    from Node.prems(2) True obtain l' where rl: "removeLimit l p fl = Some (l', fl')"
      and rb: "removeBalance (Node l' np q ht r) = Some t'"
      by (auto split: bind_splits)
    from Node.IH(1)[OF bl rl] inorder_removeBalance[OF rb] True nr[of p]
    show ?thesis by (auto simp: keys_def)
  next
    case nlt: False
    show ?thesis
    proof (cases "p > np")
      case True
      from Node.prems(2) True nlt obtain r' where rl: "removeLimit r p fl = Some (r', fl')"
        and rb: "removeBalance (Node l np q ht r') = Some t'"
        by (auto split: bind_splits)
      from Node.IH(2)[OF br rl] inorder_removeBalance[OF rb] True nl[of p]
      show ?thesis by (auto simp: keys_def)
    next
      case ngt: False
      then have e: "p = np" using nlt by simp
      show ?thesis
      proof (cases "l = Null \<or> r = Null")
        case True
        then show ?thesis using e Node.prems(2) nl[of p] nr[of p]
          by (auto simp: keys_def recycleLimit_def)
      next
        case False
        then obtain sp sq rest where m: "inorder r = (sp, sq) # rest"
          by (cases "inorder r") auto
        then have gm: "getMin r = Some (sp, sq)" by (simp add: getMin_inorder)
        have srt: "sorted_wrt (<) (map fst ((sp, sq) # rest))" using br m by (simp add: bst_def keys_def)
        then have "sp \<notin> fst ` set rest" by auto
        then have d: "del_level sp (inorder r) = rest" by (simp add: m del_level_id)
        have spk: "sp \<in> set (keys r)" by (simp add: keys_def m)
        from Node.prems(2) e False gm obtain r' where rl: "removeLimit r sp fl = Some (r', fl')"
          and rb: "removeBalance (Node l sp sq ht r') = Some t'"
          by (auto split: bind_splits)
        from Node.IH(2)[OF br rl] inorder_removeBalance[OF rb] nl[of p] nr[of p] d spk m e
        show ?thesis by (auto simp: keys_def)
      qed
    qed
  qed
qed


lemma ins_level_left:
  assumes "\<forall>x \<in> set r. k < fst x" "k < p"
  shows "ins_level k (l @ (p, q) # r) = ins_level k l @ (p, q) # r"
proof -
  have "filter (\<lambda>x. fst x < k) r = []" "filter (\<lambda>x. k < fst x) r = r"
    using assms(1) by (auto simp: filter_empty_conv filter_id_conv)
  then show ?thesis using assms(2) by (simp add: ins_level_def)
qed

lemma ins_level_right:
  assumes "\<forall>x \<in> set l. fst x < k" "p < k"
  shows "ins_level k (l @ (p, q) # r) = l @ (p, q) # ins_level k r"
proof -
  have "filter (\<lambda>x. fst x < k) l = l" "filter (\<lambda>x. k < fst x) l = []"
    using assms(1) by (auto simp: filter_empty_conv filter_id_conv)
  then show ?thesis using assms(2) by (simp add: ins_level_def)
qed

lemma insertL_inorder:
  "bst t \<Longrightarrow> insertL t p fl = Some (t', tg, fl') \<Longrightarrow>
     (if p \<in> set (keys t) then inorder t' = inorder t \<and> tg = Some p \<and> fl' = fl
      else if fl = 0 then inorder t' = inorder t \<and> tg = None \<and> fl' = 0
      else inorder t' = ins_level p (inorder t) \<and> tg = Some p \<and> fl' = fl - 1)"
proof (induction t arbitrary: t' tg fl')
  case Null
  then show ?case by (auto simp: getLimit_def keys_def ins_level_def split: if_splits)
next
  case (Node l np q ht r)
  then have bl: "bst l" and br: "bst r" and lo: "\<forall>x \<in> set (keys l). x < np" and hi: "\<forall>y \<in> set (keys r). np < y"
    by (auto simp: bst_Node)
  have lo': "\<forall>x \<in> set (inorder l). fst x < np" using lo by (auto simp: keys_def)
  have hi': "\<forall>x \<in> set (inorder r). np < fst x" using hi by (auto simp: keys_def)
  show ?case
  proof (cases "p < np")
    case True
    from Node.prems(2) True obtain l' where il: "insertL l p fl = Some (l', tg, fl')"
      and ib: "insertBalance (Node l' np q ht r) p = Some t'"
      by (auto split: bind_splits)
    have nr: "p \<notin> set (keys r)" using hi True by auto
    have "ins_level p (inorder l @ (np, q) # inorder r) = ins_level p (inorder l) @ (np, q) # inorder r"
      using hi' True by (intro ins_level_left) auto
    with Node.IH(1)[OF bl il] inorder_insertBalance[OF ib] True nr
    show ?thesis by (auto simp: keys_def split: if_splits)
  next
    case nlt: False
    show ?thesis
    proof (cases "p > np")
      case True
      from Node.prems(2) True nlt obtain r' where il: "insertL r p fl = Some (r', tg, fl')"
        and ib: "insertBalance (Node l np q ht r') p = Some t'"
        by (auto split: bind_splits)
      have nl: "p \<notin> set (keys l)" using lo True by auto
      have "ins_level p (inorder l @ (np, q) # inorder r) = inorder l @ (np, q) # ins_level p (inorder r)"
        using lo' True by (intro ins_level_right) auto
      with Node.IH(2)[OF br il] inorder_insertBalance[OF ib] True nl
      show ?thesis by (auto simp: keys_def split: if_splits)
    next
      case False
      then show ?thesis using nlt Node.prems(2) by (auto simp: keys_def)
    qed
  qed
qed

lemma keys_ins_level: "map fst (ins_level k xs) = filter (\<lambda>x. x < k) (map fst xs) @ k # filter (\<lambda>x. k < x) (map fst xs)"
  by (simp add: ins_level_def filter_map comp_def)

lemma sorted_ins_level:
  "sorted_wrt (<) (map fst xs) \<Longrightarrow> sorted_wrt (<) (map fst (ins_level k xs))"
  by (auto simp: keys_ins_level sorted_wrt_append sorted_wrt_filter)

lemma insertL_bst:
  "bst t \<Longrightarrow> insertL t p fl = Some (t', tg, fl') \<Longrightarrow> bst t'"
  using insertL_inorder[of t p fl t' tg fl'] by (auto simp: bst_def keys_def sorted_ins_level split: if_splits)

lemma removeLimit_bst:
  "bst t \<Longrightarrow> removeLimit t p fl = Some (t', fl') \<Longrightarrow> bst t'"
  using removeLimit_inorder[of t p fl t' fl'] by (auto simp: bst_def keys_def sorted_del_level)

section \<open>The operations keep the trees balanced\<close>

lemma pushTrade_simps [simp]:
  "oPool (pushTrade t m tr bp bk) = oPool bk"
  "fOrder (pushTrade t m tr bp bk) = fOrder bk"
  "fLimit (pushTrade t m tr bp bk) = fLimit bk"
  "buyRoot (pushTrade t m tr bp bk) = buyRoot bk"
  "sellRoot (pushTrade t m tr bp bk) = sellRoot bk"
  "stopBuyRoot (pushTrade t m tr bp bk) = stopBuyRoot bk"
  "stopSellRoot (pushTrade t m tr bp bk) = stopSellRoot bk"
  "orderMap (pushTrade t m tr bp bk) = orderMap bk"
  "stopOrderMap (pushTrade t m tr bp bk) = stopOrderMap bk"
  "generatedIdCounter (pushTrade t m tr bp bk) = generatedIdCounter bk"
  "stopChecks (pushTrade t m tr bp bk) = stopChecks bk"
  "timestampCounter (pushTrade t m tr bp bk) = timestampCounter bk + 1"
  "tradeBuffer (pushTrade t m tr bp bk) = tradeBuffer bk @
     [\<lparr>takerId = oid (oPool bk t), makerId = oid (oPool bk m), qty = tr, tprice = bp,
       timestamp = timestampCounter bk\<rparr>]"
  by (simp_all add: pushTrade_def)

lemma setShares_simps [simp]:
  "oPool (setShares a v bk) = (oPool bk)(a := (oPool bk a)\<lparr>shares := v\<rparr>)"
  "fOrder (setShares a v bk) = fOrder bk"
  "fLimit (setShares a v bk) = fLimit bk"
  "buyRoot (setShares a v bk) = buyRoot bk"
  "sellRoot (setShares a v bk) = sellRoot bk"
  "stopBuyRoot (setShares a v bk) = stopBuyRoot bk"
  "stopSellRoot (setShares a v bk) = stopSellRoot bk"
  "orderMap (setShares a v bk) = orderMap bk"
  "stopOrderMap (setShares a v bk) = stopOrderMap bk"
  "generatedIdCounter (setShares a v bk) = generatedIdCounter bk"
  "stopChecks (setShares a v bk) = stopChecks bk"
  "timestampCounter (setShares a v bk) = timestampCounter bk"
  "tradeBuffer (setShares a v bk) = tradeBuffer bk"
  by (simp_all add: setShares_def)

lemma recycleOrder_simps [simp]:
  "oPool (recycleOrder a bk) = (oPool bk)(a := (oPool bk a)\<lparr>parentLimit := None\<rparr>)"
  "fOrder (recycleOrder a bk) = a # fOrder bk"
  "fLimit (recycleOrder a bk) = fLimit bk"
  "buyRoot (recycleOrder a bk) = buyRoot bk"
  "sellRoot (recycleOrder a bk) = sellRoot bk"
  "stopBuyRoot (recycleOrder a bk) = stopBuyRoot bk"
  "stopSellRoot (recycleOrder a bk) = stopSellRoot bk"
  "orderMap (recycleOrder a bk) = orderMap bk"
  "stopOrderMap (recycleOrder a bk) = stopOrderMap bk"
  "generatedIdCounter (recycleOrder a bk) = generatedIdCounter bk"
  "stopChecks (recycleOrder a bk) = stopChecks bk"
  "timestampCounter (recycleOrder a bk) = timestampCounter bk"
  "tradeBuffer (recycleOrder a bk) = tradeBuffer bk"
  by (simp_all add: recycleOrder_def)

lemma linkTail_simps [simp]:
  "oPool (linkTail a k bk) = (oPool bk)(a := (oPool bk a)\<lparr>parentLimit := Some k\<rparr>)"
  "fOrder (linkTail a k bk) = fOrder bk"
  "fLimit (linkTail a k bk) = fLimit bk"
  "buyRoot (linkTail a k bk) = buyRoot bk"
  "sellRoot (linkTail a k bk) = sellRoot bk"
  "stopBuyRoot (linkTail a k bk) = stopBuyRoot bk"
  "stopSellRoot (linkTail a k bk) = stopSellRoot bk"
  "orderMap (linkTail a k bk) = orderMap bk"
  "stopOrderMap (linkTail a k bk) = stopOrderMap bk"
  "generatedIdCounter (linkTail a k bk) = generatedIdCounter bk"
  "stopChecks (linkTail a k bk) = stopChecks bk"
  "timestampCounter (linkTail a k bk) = timestampCounter bk"
  "tradeBuffer (linkTail a k bk) = tradeBuffer bk"
  by (simp_all add: linkTail_def)

lemma setRestingRoot_simps [simp]:
  "oPool (setRestingRoot sd t bk) = oPool bk"
  "fOrder (setRestingRoot sd t bk) = fOrder bk"
  "fLimit (setRestingRoot sd t bk) = fLimit bk"
  "buyRoot (setRestingRoot sd t bk) = (if sd = Buy then t else buyRoot bk)"
  "sellRoot (setRestingRoot sd t bk) = (if sd = Buy then sellRoot bk else t)"
  "stopBuyRoot (setRestingRoot sd t bk) = stopBuyRoot bk"
  "stopSellRoot (setRestingRoot sd t bk) = stopSellRoot bk"
  "orderMap (setRestingRoot sd t bk) = orderMap bk"
  "stopOrderMap (setRestingRoot sd t bk) = stopOrderMap bk"
  "generatedIdCounter (setRestingRoot sd t bk) = generatedIdCounter bk"
  "stopChecks (setRestingRoot sd t bk) = stopChecks bk"
  "timestampCounter (setRestingRoot sd t bk) = timestampCounter bk"
  "tradeBuffer (setRestingRoot sd t bk) = tradeBuffer bk"
  by (simp_all add: setRestingRoot_def)

lemma setStopRoot_simps [simp]:
  "oPool (setStopRoot sd t bk) = oPool bk"
  "fOrder (setStopRoot sd t bk) = fOrder bk"
  "fLimit (setStopRoot sd t bk) = fLimit bk"
  "buyRoot (setStopRoot sd t bk) = buyRoot bk"
  "sellRoot (setStopRoot sd t bk) = sellRoot bk"
  "stopBuyRoot (setStopRoot sd t bk) = (if sd = Buy then t else stopBuyRoot bk)"
  "stopSellRoot (setStopRoot sd t bk) = (if sd = Buy then stopSellRoot bk else t)"
  "orderMap (setStopRoot sd t bk) = orderMap bk"
  "stopOrderMap (setStopRoot sd t bk) = stopOrderMap bk"
  "generatedIdCounter (setStopRoot sd t bk) = generatedIdCounter bk"
  "stopChecks (setStopRoot sd t bk) = stopChecks bk"
  "timestampCounter (setStopRoot sd t bk) = timestampCounter bk"
  "tradeBuffer (setStopRoot sd t bk) = tradeBuffer bk"
  by (simp_all add: setStopRoot_def)

lemma restingRoot_simps [simp]:
  "restingRoot Buy bk = buyRoot bk" "restingRoot Sell bk = sellRoot bk"
  "stopRoot Buy bk = stopBuyRoot bk" "stopRoot Sell bk = stopSellRoot bk"
  "opposite Buy = Sell" "opposite Sell = Buy"
  by (simp_all add: restingRoot_def stopRoot_def opposite_def)

lemma fill_simps [simp]:
  "fOrder (fill t m bp bk) = fOrder bk"
  "fLimit (fill t m bp bk) = fLimit bk"
  "buyRoot (fill t m bp bk) = buyRoot bk"
  "sellRoot (fill t m bp bk) = sellRoot bk"
  "stopBuyRoot (fill t m bp bk) = stopBuyRoot bk"
  "stopSellRoot (fill t m bp bk) = stopSellRoot bk"
  "orderMap (fill t m bp bk) = orderMap bk"
  "stopOrderMap (fill t m bp bk) = stopOrderMap bk"
  "generatedIdCounter (fill t m bp bk) = generatedIdCounter bk"
  "stopChecks (fill t m bp bk) = stopChecks bk"
  "timestampCounter (fill t m bp bk) = timestampCounter bk + 1"
  "tradeBuffer (fill t m bp bk) = tradeBuffer bk @
     [\<lparr>takerId = oid (oPool bk t), makerId = oid (oPool bk m),
       qty = min (shares (oPool bk t)) (shares (oPool bk m)), tprice = bp,
       timestamp = timestampCounter bk\<rparr>]"
  by (simp_all add: fill_def Let_def)

lemma removeMaker_simps [simp]:
  "oPool (removeMaker a bk) = (oPool bk)(a := (oPool bk a)\<lparr>parentLimit := None\<rparr>)"
  "fOrder (removeMaker a bk) = a # fOrder bk"
  "fLimit (removeMaker a bk) = fLimit bk"
  "buyRoot (removeMaker a bk) = buyRoot bk"
  "sellRoot (removeMaker a bk) = sellRoot bk"
  "stopBuyRoot (removeMaker a bk) = stopBuyRoot bk"
  "stopSellRoot (removeMaker a bk) = stopSellRoot bk"
  "orderMap (removeMaker a bk) = (orderMap bk)(oid (oPool bk a) := None)"
  "stopOrderMap (removeMaker a bk) = stopOrderMap bk"
  "generatedIdCounter (removeMaker a bk) = generatedIdCounter bk"
  "stopChecks (removeMaker a bk) = stopChecks bk"
  "timestampCounter (removeMaker a bk) = timestampCounter bk"
  "tradeBuffer (removeMaker a bk) = tradeBuffer bk"
  by (simp_all add: removeMaker_def)

lemma removeStop_simps [simp]:
  "oPool (removeStop a bk) = (oPool bk)(a := (oPool bk a)\<lparr>parentLimit := None\<rparr>)"
  "fOrder (removeStop a bk) = a # fOrder bk"
  "fLimit (removeStop a bk) = fLimit bk"
  "buyRoot (removeStop a bk) = buyRoot bk"
  "sellRoot (removeStop a bk) = sellRoot bk"
  "stopBuyRoot (removeStop a bk) = stopBuyRoot bk"
  "stopSellRoot (removeStop a bk) = stopSellRoot bk"
  "orderMap (removeStop a bk) = orderMap bk"
  "stopOrderMap (removeStop a bk) = (stopOrderMap bk)(oid (oPool bk a) := None)"
  "generatedIdCounter (removeStop a bk) = generatedIdCounter bk"
  "stopChecks (removeStop a bk) = stopChecks bk"
  "timestampCounter (removeStop a bk) = timestampCounter bk"
  "tradeBuffer (removeStop a bk) = tradeBuffer bk"
  by (simp_all add: removeStop_def)

text \<open>The part of the state that the two inner loops leave alone.\<close>

lemma matchMakers_frame:
  "matchMakers taker bp q lastp bk = (q', lp', bk') \<Longrightarrow>
     buyRoot bk' = buyRoot bk \<and> sellRoot bk' = sellRoot bk
     \<and> stopBuyRoot bk' = stopBuyRoot bk \<and> stopSellRoot bk' = stopSellRoot bk
     \<and> fLimit bk' = fLimit bk \<and> stopOrderMap bk' = stopOrderMap bk
     \<and> generatedIdCounter bk' = generatedIdCounter bk \<and> stopChecks bk' = stopChecks bk"
  by (induction taker bp q lastp bk rule: matchMakers.induct)
     (auto simp: Let_def split: if_splits)

lemma collectStops_frame:
  "collectStops q tr bk = (tr', bk') \<Longrightarrow>
     buyRoot bk' = buyRoot bk \<and> sellRoot bk' = sellRoot bk
     \<and> stopBuyRoot bk' = stopBuyRoot bk \<and> stopSellRoot bk' = stopSellRoot bk
     \<and> fLimit bk' = fLimit bk \<and> orderMap bk' = orderMap bk
     \<and> tradeBuffer bk' = tradeBuffer bk \<and> timestampCounter bk' = timestampCounter bk
     \<and> generatedIdCounter bk' = generatedIdCounter bk \<and> stopChecks bk' = stopChecks bk"
  by (induction q tr bk rule: collectStops.induct) auto

lemma trees_avl_simps [simp]:
  "trees_avl (setRestingRoot sd t bk) \<longleftrightarrow>
     avl t \<and> avl (restingRoot (opposite sd) bk) \<and> avl (stopBuyRoot bk) \<and> avl (stopSellRoot bk)"
  "trees_avl (setStopRoot sd t bk) \<longleftrightarrow>
     avl t \<and> avl (stopRoot (opposite sd) bk) \<and> avl (buyRoot bk) \<and> avl (sellRoot bk)"
  by (cases sd; auto simp: trees_avl_def)+

lemma trees_avl_cong:
  "buyRoot bk' = buyRoot bk \<Longrightarrow> sellRoot bk' = sellRoot bk \<Longrightarrow> stopBuyRoot bk' = stopBuyRoot bk
   \<Longrightarrow> stopSellRoot bk' = stopSellRoot bk \<Longrightarrow> trees_avl bk' = trees_avl bk"
  by (simp add: trees_avl_def)

lemma trees_avl_resting: "trees_avl bk \<Longrightarrow> avl (restingRoot sd bk)"
  by (cases sd) (auto simp: trees_avl_def)

lemma trees_avl_stop: "trees_avl bk \<Longrightarrow> avl (stopRoot sd bk)"
  by (cases sd) (auto simp: trees_avl_def)

lemma matchLoop_avl:
  assumes "matchLoop taker sd p lastp bk = Some (lp', bk')" "trees_avl bk"
  shows "trees_avl bk'"
  using assms
proof (induction taker sd p lastp bk "(lp', bk')" rule: matchLoop.raw_induct[rotated 1, consumes 1])
  case (1 matchLoop taker sd p lastp bk)
  show ?case
  proof (cases "0 < shares (oPool bk taker)")
    case False
    then show ?thesis using 1(2,3) by simp
  next
    case pos: True
    show ?thesis
    proof (cases "if sd = Buy then getMin (sellRoot bk) else getMax (buyRoot bk)")
      case None
      then show ?thesis using 1(2,3) pos by simp
    next
      case (Some a)
      obtain bp q where a: "a = (bp, q)" by (cases a)
      show ?thesis
      proof (cases "sd = Buy \<and> p < bp \<or> sd = Sell \<and> bp < p")
        case True
        then show ?thesis using 1(2,3) pos Some a by simp
      next
        case nocross: False
        obtain q' lastp' bk1 where mm: "matchMakers taker bp q lastp bk = (q', lastp', bk1)"
          by (cases "matchMakers taker bp q lastp bk")
        note fr = matchMakers_frame[OF mm]
        have av1: "trees_avl bk1" using fr 1(3) by (simp add: trees_avl_def)
        define t1 where "t1 = setFifo bp q' (restingRoot (opposite sd) bk1)"
        have at1: "avl t1" using trees_avl_resting[OF av1] by (simp add: t1_def)
        show ?thesis
        proof (cases "q' = []")
          case True
          from removeLimit_avl[OF at1, of bp "fLimit bk1"] obtain t2 fl where
            rl: "removeLimit t1 bp (fLimit bk1) = Some (t2, fl)" and at2: "avl t2" by blast
          have step: "matchLoop taker sd p lastp' (setRestingRoot (opposite sd) t2 (bk1\<lparr>fLimit := fl\<rparr>)) = Some (lp', bk')"
            using 1(2) pos Some a nocross mm True rl by (simp add: t1_def)
          have "trees_avl (setRestingRoot (opposite sd) t2 (bk1\<lparr>fLimit := fl\<rparr>))"
            using av1 at2 by (cases sd) (auto simp: trees_avl_def)
          then show ?thesis using 1(1)[OF step] by simp
        next
          case False
          have step: "matchLoop taker sd p lastp' (setRestingRoot (opposite sd) t1 bk1) = Some (lp', bk')"
            using 1(2) pos Some a nocross mm False by (simp add: t1_def)
          have "trees_avl (setRestingRoot (opposite sd) t1 bk1)"
            using av1 at1 by (cases sd) (auto simp: trees_avl_def)
          then show ?thesis using 1(1)[OF step] by simp
        qed
      qed
    qed
  qed
qed


lemma insertL_avl_Some: "avl t \<Longrightarrow> insertL t p fl = Some (t', tg, fl') \<Longrightarrow> avl t'"
  using insertL_avl[of t p fl] by auto

lemma removeLimit_avl_Some: "avl t \<Longrightarrow> removeLimit t p fl = Some (t', fl') \<Longrightarrow> avl t'"
  using removeLimit_avl[of t p fl] by auto

lemma stopSellLoop_avl:
  assumes "stopSellLoop ep tr bk = Some (tr', bk')" "trees_avl bk"
  shows "trees_avl bk'"
  using assms
proof (induction ep tr bk "(tr', bk')" rule: stopSellLoop.raw_induct[rotated 1, consumes 1])
  case (1 stopSellLoop ep tr bk)
  show ?case
  proof (cases "getMax (stopSellRoot bk)")
    case None
    then show ?thesis using 1(2,3) by simp
  next
    case (Some a)
    obtain hp q where a: "a = (hp, q)" by (cases a)
    show ?thesis
    proof (cases "ep \<le> hp")
      case False
      then show ?thesis using 1(2,3) Some a by simp
    next
      case True
      obtain tr1 bk1 where cs: "collectStops q tr bk = (tr1, bk1)"
        by (cases "collectStops q tr bk")
      note fr = collectStops_frame[OF cs]
      have av1: "trees_avl bk1" using fr 1(3) by (simp add: trees_avl_def)
      from 1(2) Some a True cs obtain t fl where
        rl: "removeLimit (stopSellRoot bk1) hp (fLimit bk1) = Some (t, fl)"
        and step: "stopSellLoop ep tr1 (bk1\<lparr>stopSellRoot := t, fLimit := fl\<rparr>) = Some (tr', bk')"
        by (auto split: bind_splits)
      have "avl t" using removeLimit_avl_Some[OF _ rl] av1 by (simp add: trees_avl_def)
      then have "trees_avl (bk1\<lparr>stopSellRoot := t, fLimit := fl\<rparr>)"
        using av1 by (simp add: trees_avl_def)
      then show ?thesis using 1(1)[OF step] by simp
    qed
  qed
qed

lemma stopBuyLoop_avl:
  assumes "stopBuyLoop ep tr bk = Some (tr', bk')" "trees_avl bk"
  shows "trees_avl bk'"
  using assms
proof (induction ep tr bk "(tr', bk')" rule: stopBuyLoop.raw_induct[rotated 1, consumes 1])
  case (1 stopBuyLoop ep tr bk)
  show ?case
  proof (cases "getMin (stopBuyRoot bk)")
    case None
    then show ?thesis using 1(2,3) by simp
  next
    case (Some a)
    obtain lp q where a: "a = (lp, q)" by (cases a)
    show ?thesis
    proof (cases "lp \<le> ep")
      case False
      then show ?thesis using 1(2,3) Some a by simp
    next
      case True
      obtain tr1 bk1 where cs: "collectStops q tr bk = (tr1, bk1)"
        by (cases "collectStops q tr bk")
      note fr = collectStops_frame[OF cs]
      have av1: "trees_avl bk1" using fr 1(3) by (simp add: trees_avl_def)
      from 1(2) Some a True cs obtain t fl where
        rl: "removeLimit (stopBuyRoot bk1) lp (fLimit bk1) = Some (t, fl)"
        and step: "stopBuyLoop ep tr1 (bk1\<lparr>stopBuyRoot := t, fLimit := fl\<rparr>) = Some (tr', bk')"
        by (auto split: bind_splits)
      have "avl t" using removeLimit_avl_Some[OF _ rl] av1 by (simp add: trees_avl_def)
      then have "trees_avl (bk1\<lparr>stopBuyRoot := t, fLimit := fl\<rparr>)"
        using av1 by (simp add: trees_avl_def)
      then show ?thesis using 1(1)[OF step] by simp
    qed
  qed
qed

lemma checkStopOrders_avl:
  assumes "checkStopOrders ep sd tr bk = Some (tr', bk')" "trees_avl bk"
  shows "trees_avl bk'"
proof -
  let ?bk0 = "bk\<lparr>stopChecks := stopChecks bk @ [(ep, sd)]\<rparr>"
  have a0: "trees_avl ?bk0" using assms(2) by (simp add: trees_avl_def)
  from assms(1) obtain tr1 bk1 where
    s1: "(if sd = Sell \<and> stopSellRoot bk \<noteq> Null then stopSellLoop ep tr ?bk0 else Some (tr, ?bk0)) = Some (tr1, bk1)"
    and s2: "(if sd = Buy \<and> stopBuyRoot bk1 \<noteq> Null then stopBuyLoop ep tr1 bk1 else Some (tr1, bk1)) = Some (tr', bk')"
    by (auto simp: checkStopOrders_def Let_def split: bind_splits)
  have a1: "trees_avl bk1" using s1 a0 stopSellLoop_avl by (auto split: if_splits)
  show ?thesis using s2 a1 stopBuyLoop_avl by (auto split: if_splits)
qed

lemma getOrder_Some:
  "getOrder i s t q p sp bk = Some (a, bk1) \<longleftrightarrow>
     (\<exists>fr. fOrder bk = a # fr \<and>
        bk1 = bk\<lparr>fOrder := fr,
                 oPool := (oPool bk)(a := \<lparr>oid = i, side = s, otype = t, shares = q,
                                          price = p, stopPrice = sp, parentLimit = None\<rparr>)\<rparr>)"
  by (auto simp: getOrder_def split: list.splits)

lemma getOrder_None: "getOrder i s t q p sp bk = None \<longleftrightarrow> fOrder bk = []"
  by (auto simp: getOrder_def split: list.splits)

lemma getOrder_trees:
  "getOrder i s t q p sp bk = Some (a, bk1) \<Longrightarrow>
     buyRoot bk1 = buyRoot bk \<and> sellRoot bk1 = sellRoot bk
     \<and> stopBuyRoot bk1 = stopBuyRoot bk \<and> stopSellRoot bk1 = stopSellRoot bk
     \<and> fLimit bk1 = fLimit bk \<and> orderMap bk1 = orderMap bk \<and> stopOrderMap bk1 = stopOrderMap bk
     \<and> tradeBuffer bk1 = tradeBuffer bk \<and> timestampCounter bk1 = timestampCounter bk
     \<and> generatedIdCounter bk1 = generatedIdCounter bk \<and> stopChecks bk1 = stopChecks bk"
  by (auto simp: getOrder_Some)

lemma restResidual_avl:
  assumes "restResidual i sd ty p a tr3 bk3 = Some (tr, bk')" "trees_avl bk3"
  shows "trees_avl bk'"
proof (cases "0 < shares (oPool bk3 a) \<and> ty = Limit")
  case False
  then show ?thesis using assms by (auto simp: restResidual_def trees_avl_def)
next
  case True
  from assms(1) True obtain t L fl where
    il: "insertL (restingRoot sd bk3) p (fLimit bk3) = Some (t, L, fl)"
    by (auto simp: restResidual_def split: bind_splits)
  have at: "avl t" using insertL_avl_Some[OF trees_avl_resting[OF assms(2)] il] .
  show ?thesis using assms True il at
    by (cases sd) (auto simp: restResidual_def Let_def trees_avl_def split: option.splits)
qed

lemma armStop_avl:
  assumes "armStop i sd sp a bk1 = Some bk'" "trees_avl bk1"
  shows "trees_avl bk'"
proof -
  from assms(1) obtain t L fl where
    il: "insertL (stopRoot sd bk1) sp (fLimit bk1) = Some (t, L, fl)"
    by (auto simp: armStop_def split: bind_splits)
  have at: "avl t" using insertL_avl_Some[OF trees_avl_stop[OF assms(2)] il] .
  show ?thesis using assms il at
    by (cases sd) (auto simp: armStop_def Let_def trees_avl_def split: option.splits)
qed

lemma processBody_avl:
  assumes "processBody i sd ty q p sp cs bk = Some (tr, bk')" "trees_avl bk"
  shows "trees_avl bk'"
proof (cases "getOrder i sd ty q p sp bk")
  case None
  then show ?thesis using assms by (auto simp: processBody_def split: if_splits)
next
  case (Some x)
  obtain a bk1 where x: "x = (a, bk1)" by (cases x)
  note g = getOrder_trees[OF Some[unfolded x]]
  have a1: "trees_avl bk1" using g assms(2) by (simp add: trees_avl_def)
  show ?thesis
  proof (cases "ty = Stop \<or> ty = StopLimit")
    case True
    then have "armStop i sd sp a bk1 = Some bk'"
      using assms(1) Some x by (auto simp: processBody_def split: bind_splits)
    from armStop_avl[OF this a1] show ?thesis .
  next
    case False
    from assms(1) False Some x obtain lp bk2 tr3 bk3 where
      ml: "matchLoop a sd p 0 bk1 = Some (lp, bk2)"
      and cso: "(if cs \<and> 0 < lp then checkStopOrders lp sd [] bk2 else Some ([], bk2)) = Some (tr3, bk3)"
      and rest: "restResidual i sd ty p a tr3 bk3 = Some (tr, bk')"
      by (auto simp: processBody_def split: bind_splits)
    have a2: "trees_avl bk2" using matchLoop_avl[OF ml a1] .
    have a3: "trees_avl bk3" using cso a2 checkStopOrders_avl by (auto split: if_splits)
    from restResidual_avl[OF rest a3] show ?thesis .
  qed
qed

lemma resubmitStops_avl:
  "resubmitStops trs bk = Some bk' \<Longrightarrow> trees_avl bk \<Longrightarrow> trees_avl bk'"
proof (induction trs arbitrary: bk)
  case Nil
  then show ?case by simp
next
  case (Cons ts rest)
  define bk1 where "bk1 = bk\<lparr>generatedIdCounter := generatedIdCounter bk + 1\<rparr>"
  from Cons.prems(1) obtain tr bk2 where
    pb: "processBody (generatedIdCounter bk) (ts_side ts) (convertToType ts) (ts_shares ts)
           (limitPrice ts) 0 False bk1 = Some (tr, bk2)"
    and rs: "resubmitStops rest bk2 = Some bk'"
    by (auto simp: Let_def bk1_def split: bind_splits)
  have "trees_avl bk1" using Cons.prems(2) by (simp add: bk1_def trees_avl_def)
  from Cons.IH[OF rs processBody_avl[OF pb this]] show ?case .
qed

lemma processOrder_avl:
  assumes "processOrder i sd ty q p sp bk = Some bk'" "trees_avl bk"
  shows "trees_avl bk'"
proof -
  from assms(1) obtain tr bk1 where pb: "processBody i sd ty q p sp True bk = Some (tr, bk1)"
    and rs: "resubmitStops tr bk1 = Some bk'"
    by (auto simp: processOrder_def processOrderInternal_def split: bind_splits)
  from resubmitStops_avl[OF rs processBody_avl[OF pb assms(2)]] show ?thesis .
qed

lemma unlink_avl: "unlink a k t = Some (q', t1) \<Longrightarrow> avl t \<Longrightarrow> avl t1"
  by (auto simp: unlink_def split: option.splits if_splits)

lemma cancelOrder_avl:
  assumes "cancelOrder i bk = Some (ok, bk')" "trees_avl bk"
  shows "trees_avl bk'"
proof (cases "orderMap bk i")
  case (Some a)
  define sd where "sd = side (oPool bk a)"
  from assms(1) Some obtain k q' t1 t2 fl where
    ul: "unlink a k (restingRoot sd bk) = Some (q', t1)"
    and rl: "(if q' = [] then removeLimit t1 k (fLimit bk) else Some (t1, fLimit bk)) = Some (t2, fl)"
    and bk': "bk' = recycleOrder a ((setRestingRoot sd t2 (bk\<lparr>fLimit := fl\<rparr>))
                      \<lparr>orderMap := (orderMap (setRestingRoot sd t2 (bk\<lparr>fLimit := fl\<rparr>)))(i := None)\<rparr>)"
    by (auto simp: cancelOrder_def Let_def sd_def split: option.splits bind_splits)
  have "avl t1" using unlink_avl[OF ul trees_avl_resting[OF assms(2)]] .
  then have "avl t2" using rl removeLimit_avl_Some by (auto split: if_splits)
  then show ?thesis using assms(2) unfolding bk' by (cases sd) (auto simp: trees_avl_def)
next
  case None
  show ?thesis
  proof (cases "stopOrderMap bk i")
    case n2: None
    then show ?thesis using assms None by (simp add: cancelOrder_def)
  next
    case (Some a)
    define sd where "sd = side (oPool bk a)"
    from assms(1) None Some obtain k q' t1 t2 fl where
      ul: "unlink a k (stopRoot sd bk) = Some (q', t1)"
      and rl: "(if q' = [] then removeLimit t1 k (fLimit bk) else Some (t1, fLimit bk)) = Some (t2, fl)"
      and bk': "bk' = recycleOrder a ((setStopRoot sd t2 (bk\<lparr>fLimit := fl\<rparr>))
                        \<lparr>stopOrderMap := (stopOrderMap (setStopRoot sd t2 (bk\<lparr>fLimit := fl\<rparr>)))(i := None)\<rparr>)"
      by (auto simp: cancelOrder_def Let_def sd_def split: option.splits bind_splits)
    have "avl t1" using unlink_avl[OF ul trees_avl_stop[OF assms(2)]] .
    then have "avl t2" using rl removeLimit_avl_Some by (auto split: if_splits)
    then show ?thesis using assms(2) unfolding bk' by (cases sd) (auto simp: trees_avl_def)
  qed
qed

lemma modifyOrder_avl:
  assumes "modifyOrder i nq np bk = Some (ok, bk')" "trees_avl bk"
  shows "trees_avl bk'"
proof (cases "orderMap bk i")
  case None
  then show ?thesis using assms by (simp add: modifyOrder_def)
next
  case (Some a)
  show ?thesis
  proof (cases "np = price (oPool bk a)")
    case True
    then show ?thesis using assms Some by (auto simp: modifyOrder_def trees_avl_def)
  next
    case False
    let ?sd = "side (oPool bk a)"
    from assms(1) Some False obtain k q' t1 t2 fl t3 nl fl' where
      pl: "parentLimit (oPool bk a) = Some k"
      and ul: "unlink a k (restingRoot ?sd bk) = Some (q', t1)"
      and rl: "(if q' = [] then removeLimit t1 k (fLimit bk) else Some (t1, fLimit bk)) = Some (t2, fl)"
      and il: "insertL t2 np fl = Some (t3, nl, fl')"
      by (auto simp: modifyOrder_def Let_def split: option.splits bind_splits)
    have "avl t1" using unlink_avl[OF ul trees_avl_resting[OF assms(2)]] .
    then have "avl t2" using rl removeLimit_avl_Some by (auto split: if_splits)
    then have at3: "avl t3" using insertL_avl_Some[OF _ il] by simp
    have "modifyOrder i nq np bk = 
            (let bk2 = setRestingRoot ?sd t3 (bk\<lparr>oPool := (oPool bk)(a := (oPool bk a)\<lparr>price := np, shares := nq\<rparr>), fLimit := fl'\<rparr>) in
             case nl of None \<Rightarrow> Some (False, bk2)
             | Some k' \<Rightarrow> Some (True, linkTail a k' (setRestingRoot ?sd (appendOrder k' a (restingRoot ?sd bk2)) bk2)))"
      using Some False pl ul rl il by (simp add: modifyOrder_def Let_def)
    then show ?thesis using assms at3
      by (cases ?sd) (auto simp: Let_def trees_avl_def split: option.splits)
  qed
qed

lemma act_avl: "act x bk = Some bk' \<Longrightarrow> trees_avl bk \<Longrightarrow> trees_avl bk'"
  by (cases x) (auto dest: processOrder_avl cancelOrder_avl modifyOrder_avl)

lemma run_avl: "run xs bk = Some bk' \<Longrightarrow> trees_avl bk \<Longrightarrow> trees_avl bk'"
  by (induction xs arbitrary: bk) (auto split: bind_splits dest: act_avl)

section \<open>The matching loop computes the list-level loop\<close>

lemma matchLoop_no_shares:
  "shares (oPool bk taker) = 0 \<Longrightarrow> matchLoop taker sd p lastp bk = Some (lastp, bk)"
  by (subst matchLoop.simps) simp

lemma fill_oPool:
  "oPool (fill t m bp bk) =
     (let traded = min (shares (oPool bk t)) (shares (oPool bk m));
          f1 = (oPool bk)(t := (oPool bk t)\<lparr>shares := shares (oPool bk t) - traded\<rparr>)
      in f1(m := (f1 m)\<lparr>shares := shares (f1 m) - traded\<rparr>))"
  by (simp add: fill_def Let_def)

lemma fill_commute:
  "fill t m bp (setRestingRoot sd T (bk\<lparr>fLimit := fl\<rparr>)) = setRestingRoot sd T ((fill t m bp bk)\<lparr>fLimit := fl\<rparr>)"
  by (simp add: fill_def Let_def setRestingRoot_def pushTrade_def setShares_def)

lemma removeMaker_commute:
  "removeMaker m (setRestingRoot sd T (bk\<lparr>fLimit := fl\<rparr>)) = setRestingRoot sd T ((removeMaker m bk)\<lparr>fLimit := fl\<rparr>)"
  by (simp add: removeMaker_def setRestingRoot_def recycleOrder_def)

lemma matchMakers_commute:
  "matchMakers taker bp q lastp (setRestingRoot sd T (bk\<lparr>fLimit := fl\<rparr>)) =
     (case matchMakers taker bp q lastp bk of
        (q', lp', bk1) \<Rightarrow> (q', lp', setRestingRoot sd T (bk1\<lparr>fLimit := fl\<rparr>)))"
proof (induction taker bp q lastp bk rule: matchMakers.induct)
  case (1 taker bp lastp bk)
  then show ?case by simp
next
  case (2 taker bp maker rest lastp bk)
  show ?case
  proof (cases "0 < shares (oPool bk taker)")
    case False
    then show ?thesis by simp
  next
    case True
    show ?thesis
    proof (cases "shares (oPool (fill taker maker bp bk) maker) = 0")
      case z: True
      from "2.IH"[OF True refl z] True z show ?thesis
        by (simp add: Let_def fill_commute removeMaker_commute)
    next
      case False
      then show ?thesis using True by (simp add: Let_def fill_commute)
    qed
  qed
qed

lemma matchLevels_commute:
  "matchLevels taker sd p lv lastp (setRestingRoot sd' T (bk\<lparr>fLimit := fl\<rparr>)) =
     (case matchLevels taker sd p lv lastp bk of
        (lv', lp', bk1) \<Rightarrow> (lv', lp', setRestingRoot sd' T (bk1\<lparr>fLimit := fl\<rparr>)))"
proof (induction taker sd p lv lastp bk rule: matchLevels.induct)
  case (1 taker sd p lastp bk)
  then show ?case by simp
next
  case (2 taker sd p bp q lv lastp bk)
  show ?case
  proof (cases "0 < shares (oPool bk taker) \<and> crosses sd p bp")
    case False
    then show ?thesis by auto
  next
    case True
    obtain q' lp1 bk1 where mm: "matchMakers taker bp q lastp bk = (q', lp1, bk1)"
      by (cases "matchMakers taker bp q lastp bk")
    show ?thesis
    proof (cases "q' = []")
      case e: True
      from "2.IH"[OF True mm[symmetric] refl e] True mm e show ?thesis
        by (simp add: matchMakers_commute)
    next
      case False
      then show ?thesis using True mm by (simp add: matchMakers_commute)
    qed
  qed
qed

text \<open>The inner loop stops with the level exhausted or the taker filled.\<close>

lemma matchMakers_stops:
  "taker \<notin> set q \<Longrightarrow> matchMakers taker bp q lastp bk = (q', lp', bk') \<Longrightarrow>
     q' = [] \<or> shares (oPool bk' taker) = 0"
proof (induction taker bp q lastp bk rule: matchMakers.induct)
  case (1 taker bp lastp bk)
  then show ?case by simp
next
  case (2 taker bp maker rest lastp bk)
  show ?case
  proof (cases "0 < shares (oPool bk taker)")
    case False
    then show ?thesis using "2.prems" by (auto simp: word_neq_0_conv)
  next
    case True
    have ne: "maker \<noteq> taker" using "2.prems"(1) by auto
    show ?thesis
    proof (cases "shares (oPool (fill taker maker bp bk) maker) = 0")
      case z: True
      from "2.IH"[OF True refl z] "2.prems" True z show ?thesis by (simp add: Let_def)
    next
      case False
      then have "bk' = fill taker maker bp bk" using "2.prems"(2) True by (auto simp: Let_def)
      then show ?thesis using False ne
        by (auto simp: fill_oPool Let_def min_def split: if_splits)
    qed
  qed
qed


lemma best_level:
  "(if sd = Buy then getMin (sellRoot bk) else getMax (buyRoot bk)) =
     (case makerLevels sd bk of [] \<Rightarrow> None | x # _ \<Rightarrow> Some x)"
  by (cases sd)
     (auto simp: makerLevels_def levels_of_def getMin_inorder getMax_inorder last_rev hd_rev
           split: list.splits)

lemma sorted_keys_distinct: "sorted_wrt (<) (map fst xs) \<Longrightarrow> distinct (map fst (xs :: (int \<times> 'a) list))"
  using strict_sorted_iff[of "map fst xs"] by (simp add: strict_sorted_iff)

lemma upd_level_head:
  assumes "distinct (map fst ((bp, q) # rest))"
  shows "upd_level bp f ((bp, q) # rest) = (bp, f q) # rest"
  using assms by (auto simp: upd_level_id)

lemma upd_level_last:
  assumes "distinct (map fst (rest @ [(bp, q)]))"
  shows "upd_level bp f (rest @ [(bp, q)]) = rest @ [(bp, f q)]"
  using assms by (auto simp: upd_level_id)

lemma del_level_head:
  assumes "distinct (map fst ((bp, q) # rest))"
  shows "del_level bp ((bp, q) # rest) = rest"
  using assms by (auto simp: del_level_id)

lemma del_level_last:
  assumes "distinct (map fst (rest @ [(bp, q)]))"
  shows "del_level bp (rest @ [(bp, q)]) = rest"
  using assms by (auto simp: del_level_id)

lemma levels_of_setFifo:
  assumes "bst T" "levels_of sd T = (bp, q) # rest"
  shows "levels_of sd (setFifo bp q' T) = (bp, q') # rest"
proof (cases sd)
  case Buy
  then have i: "inorder T = (bp, q) # rest" using assms(2) by (simp add: levels_of_def)
  have "distinct (map fst ((bp, q) # rest))"
    using assms(1) i sorted_keys_distinct[of "inorder T"] by (simp add: bst_def keys_def)
  from upd_level_head[OF this] show ?thesis using Buy i assms(1)
    by (simp add: levels_of_def inorder_setFifo)
next
  case Sell
  then have i: "inorder T = rev rest @ [(bp, q)]" using assms(2)
    by (simp add: levels_of_def rev_eq_Cons_iff)
  have "distinct (map fst (rev rest @ [(bp, q)]))"
    using assms(1) i sorted_keys_distinct[of "inorder T"] by (simp add: bst_def keys_def)
  from upd_level_last[OF this] show ?thesis using Sell i assms(1)
    by (simp add: levels_of_def inorder_setFifo)
qed

lemma levels_of_removeLimit:
  assumes "bst T" "avl T" "levels_of sd T = (bp, q) # rest"
  shows "\<exists>T2. removeLimit T bp fl = Some (T2, Suc fl) \<and> levels_of sd T2 = rest \<and> avl T2 \<and> bst T2"
proof -
  from removeLimit_avl[OF assms(2), of bp fl] obtain T2 fl' where
    rl: "removeLimit T bp fl = Some (T2, fl')" and a2: "avl T2" by blast
  note io = removeLimit_inorder[OF assms(1) rl]
  have b2: "bst T2" using removeLimit_bst[OF assms(1) rl] .
  have d: "distinct (map fst (inorder T))"
    using assms(1) sorted_keys_distinct[of "inorder T"] by (simp add: bst_def keys_def)
  show ?thesis
  proof (cases sd)
    case Buy
    then have i: "inorder T = (bp, q) # rest" using assms(3) by (simp add: levels_of_def)
    from del_level_head[of bp q rest] d i io rl a2 b2 Buy show ?thesis
      by (auto simp: levels_of_def keys_def)
  next
    case Sell
    then have i: "inorder T = rev rest @ [(bp, q)]" using assms(3)
      by (simp add: levels_of_def rev_eq_Cons_iff)
    from del_level_last[of "rev rest" bp q] d i io rl a2 b2 Sell show ?thesis
      by (auto simp: levels_of_def keys_def)
  qed
qed

lemma setRestingRoot_same:
  "setRestingRoot sd (restingRoot sd bk) (bk\<lparr>fLimit := fLimit bk\<rparr>) = bk"
  by (cases sd) (simp_all add: setRestingRoot_def)

lemma setRestingRoot_twice:
  "setRestingRoot sd T ((setRestingRoot sd T' (bk\<lparr>fLimit := fl'\<rparr>))\<lparr>fLimit := fl\<rparr>)
     = setRestingRoot sd T (bk\<lparr>fLimit := fl\<rparr>)"
  by (simp add: setRestingRoot_def)

lemma restingRoot_setRestingRoot [simp]:
  "restingRoot sd (setRestingRoot sd T bk) = T"
  "restingRoot (opposite sd) (setRestingRoot sd T bk) = restingRoot (opposite sd) bk"
  "restingRoot sd (setRestingRoot (opposite sd) T bk) = restingRoot sd bk"
  by (cases sd; simp)+

lemma restingRoot_fLimit [simp]: "restingRoot sd (bk\<lparr>fLimit := fl\<rparr>) = restingRoot sd bk"
  by (simp add: restingRoot_def)

lemma matchLevels_length:
  "matchLevels taker sd p lv lastp bk = (lv', lp', bk') \<Longrightarrow> length lv' \<le> length lv"
proof (induction taker sd p lv lastp bk rule: matchLevels.induct)
  case (1 taker sd p lastp bk)
  then show ?case by simp
next
  case (2 taker sd p bp q lv lastp bk)
  show ?case
  proof (cases "0 < shares (oPool bk taker) \<and> crosses sd p bp")
    case False
    then show ?thesis using "2.prems" by auto
  next
    case True
    obtain q' lp1 bk1 where mm: "matchMakers taker bp q lastp bk = (q', lp1, bk1)"
      by (cases "matchMakers taker bp q lastp bk")
    show ?thesis
    proof (cases "q' = []")
      case e: True
      from "2.IH"[OF True mm[symmetric] refl e] "2.prems" True mm e show ?thesis by simp
    next
      case False
      then show ?thesis using True mm "2.prems" by auto
    qed
  qed
qed

text \<open>
  The matching loop returns, and computes what \<open>matchLevels\<close> computes on the levels of
  the opposite tree: the state is that of \<open>matchLevels\<close> with the opposite tree replaced
  by a tree of the levels left, and one \<open>Limit\<close> node freed for each level removed.
\<close>

lemma matchLoop_refines:
  assumes "makerLevels sd bk = lv" "avl (restingRoot (opposite sd) bk)"
    "bst (restingRoot (opposite sd) bk)" "taker \<notin> set (concat (map snd lv))"
    "matchLevels taker sd p lv lastp bk = (lv', lp', bkS)"
  shows "\<exists>T'. matchLoop taker sd p lastp bk =
            Some (lp', setRestingRoot (opposite sd) T'
                         (bkS\<lparr>fLimit := fLimit bk + (length lv - length lv')\<rparr>))
          \<and> levels_of sd T' = lv' \<and> avl T' \<and> bst T'"
  using assms
proof (induction lv arbitrary: bk lastp lv' lp' bkS)
  case Nil
  have "matchLoop taker sd p lastp bk = Some (lastp, bk)"
    using Nil.prems(1) by (subst matchLoop.simps) (simp add: best_level)
  moreover have "bkS = bk" "lp' = lastp" "lv' = []" using Nil.prems(5) by auto
  ultimately show ?case using Nil.prems(1,2,3) setRestingRoot_same[of "opposite sd" bk]
    by (intro exI[of _ "restingRoot (opposite sd) bk"]) (auto simp: makerLevels_def)
next
  case (Cons x lv)
  obtain bp q where x: "x = (bp, q)" by (cases x)
  let ?T = "restingRoot (opposite sd) bk"
  have lo: "levels_of sd ?T = (bp, q) # lv" using Cons.prems(1) x by (simp add: makerLevels_def)
  show ?case
  proof (cases "0 < shares (oPool bk taker) \<and> crosses sd p bp")
    case False
    have "matchLoop taker sd p lastp bk = Some (lastp, bk)"
      using Cons.prems(1) False x
      by (subst matchLoop.simps) (auto simp: best_level crosses_def)
    moreover have "bkS = bk" "lp' = lastp" "lv' = (bp, q) # lv" using Cons.prems(5) False x by auto
    ultimately show ?thesis using Cons.prems(1,2,3) x setRestingRoot_same[of "opposite sd" bk]
      by (intro exI[of _ "restingRoot (opposite sd) bk"]) (auto simp: makerLevels_def)
  next
    case True
    obtain q' lp1 bk1 where mm: "matchMakers taker bp q lastp bk = (q', lp1, bk1)"
      by (cases "matchMakers taker bp q lastp bk")
    note fr = matchMakers_frame[OF mm]
    have T1: "restingRoot (opposite sd) bk1 = ?T" using fr by (cases sd) auto
    let ?t1 = "setFifo bp q' ?T"
    have lt1: "levels_of sd ?t1 = (bp, q') # lv" using levels_of_setFifo[OF Cons.prems(3) lo] .
    have at1: "avl ?t1" using Cons.prems(2) by simp
    have bt1: "bst ?t1" using Cons.prems(3) by simp
    have nc: "\<not> (sd = Buy \<and> p < bp \<or> sd = Sell \<and> bp < p)" using True by (auto simp: crosses_def)
    show ?thesis
    proof (cases "q' = []")
      case e: True
      from levels_of_removeLimit[OF bt1 at1 lt1, of "fLimit bk1"] obtain T2 where
        rl: "removeLimit ?t1 bp (fLimit bk1) = Some (T2, Suc (fLimit bk1))"
        and l2: "levels_of sd T2 = lv" and a2: "avl T2" and b2: "bst T2" by blast
      let ?bk2 = "setRestingRoot (opposite sd) T2 (bk1\<lparr>fLimit := Suc (fLimit bk1)\<rparr>)"
      have unf: "matchLoop taker sd p lastp bk = matchLoop taker sd p lp1 ?bk2"
        using Cons.prems(1) True x mm e rl T1 nc
        by (subst matchLoop.simps) (auto simp: best_level)
      obtain lvS lpS bkS1 where ms: "matchLevels taker sd p lv lp1 bk1 = (lvS, lpS, bkS1)"
        by (cases "matchLevels taker sd p lv lp1 bk1")
      have top: "lv' = lvS" "lp' = lpS" "bkS = bkS1"
        using Cons.prems(5) True x mm e ms by auto
      have ms2: "matchLevels taker sd p lv lp1 ?bk2
                  = (lvS, lpS, setRestingRoot (opposite sd) T2 (bkS1\<lparr>fLimit := Suc (fLimit bk1)\<rparr>))"
        using ms by (simp add: matchLevels_commute)
      have ml2: "makerLevels sd ?bk2 = lv" using l2 by (simp add: makerLevels_def)
      have tk: "taker \<notin> set (concat (map snd lv))" using Cons.prems(4) by simp
      from Cons.IH[OF ml2 _ _ tk ms2] a2 b2 obtain T' where
        r: "matchLoop taker sd p lp1 ?bk2 =
              Some (lpS, setRestingRoot (opposite sd) T'
                     ((setRestingRoot (opposite sd) T2 (bkS1\<lparr>fLimit := Suc (fLimit bk1)\<rparr>))
                        \<lparr>fLimit := fLimit ?bk2 + (length lv - length lvS)\<rparr>))"
        and l': "levels_of sd T' = lvS" and a': "avl T'" and b': "bst T'"
        by auto
      have len: "length lvS \<le> length lv" using matchLevels_length[OF ms] .
      have "fLimit ?bk2 + (length lv - length lvS) = fLimit bk + (length (x # lv) - length lvS)"
        using fr len by simp
      then show ?thesis using unf r l' a' b' top
        by (auto simp: setRestingRoot_twice)
    next
      case ne: False
      have z: "shares (oPool bk1 taker) = 0"
        using matchMakers_stops[OF _ mm] Cons.prems(4) x ne by auto
      let ?bk2 = "setRestingRoot (opposite sd) ?t1 bk1"
      have unf: "matchLoop taker sd p lastp bk = matchLoop taker sd p lp1 ?bk2"
        using Cons.prems(1) True x mm ne T1 nc
        by (subst matchLoop.simps) (auto simp: best_level)
      have "matchLoop taker sd p lp1 ?bk2 = Some (lp1, ?bk2)"
        by (rule matchLoop_no_shares) (simp add: z)
      moreover have top: "lv' = (bp, q') # lv" "lp' = lp1" "bkS = bk1"
        using Cons.prems(5) True x mm ne by auto
      moreover have "?bk2 = setRestingRoot (opposite sd) ?t1 (bk1\<lparr>fLimit := fLimit bk + (length (x # lv) - length lv')\<rparr>)"
        using fr top by (simp add: setRestingRoot_def)
      ultimately show ?thesis using unf lt1 at1 bt1 by auto
    qed
  qed
qed

section \<open>Properties of the list-level matching loop\<close>

lemma fill_static [simp]:
  "oid (oPool (fill t m bp bk) a) = oid (oPool bk a)"
  "side (oPool (fill t m bp bk) a) = side (oPool bk a)"
  "otype (oPool (fill t m bp bk) a) = otype (oPool bk a)"
  "price (oPool (fill t m bp bk) a) = price (oPool bk a)"
  "stopPrice (oPool (fill t m bp bk) a) = stopPrice (oPool bk a)"
  "parentLimit (oPool (fill t m bp bk) a) = parentLimit (oPool bk a)"
  by (simp_all add: fill_oPool Let_def)

lemma fill_other: "a \<noteq> t \<Longrightarrow> a \<noteq> m \<Longrightarrow> oPool (fill t m bp bk) a = oPool bk a"
  by (simp add: fill_oPool Let_def)

lemma matchMakers_static:
  "matchMakers taker bp q lastp bk = (q', lp', bk') \<Longrightarrow>
     oid (oPool bk' a) = oid (oPool bk a) \<and> side (oPool bk' a) = side (oPool bk a)
     \<and> otype (oPool bk' a) = otype (oPool bk a) \<and> price (oPool bk' a) = price (oPool bk a)
     \<and> stopPrice (oPool bk' a) = stopPrice (oPool bk a)"
  by (induction taker bp q lastp bk rule: matchMakers.induct)
     (auto simp: Let_def split: if_splits)

lemma matchMakers_other:
  "matchMakers taker bp q lastp bk = (q', lp', bk') \<Longrightarrow> a \<noteq> taker \<Longrightarrow> a \<notin> set q \<Longrightarrow>
     oPool bk' a = oPool bk a"
  by (induction taker bp q lastp bk rule: matchMakers.induct)
     (auto simp: Let_def fill_other split: if_splits)

text \<open>The reports of the inner loop: one for each maker from the head of the FIFO on, at
  the price of the level.\<close>

lemma matchMakers_trades:
  "matchMakers taker bp q lastp bk = (q', lp', bk') \<Longrightarrow>
     \<exists>new. tradeBuffer bk' = tradeBuffer bk @ new
       \<and> map makerId new = map (\<lambda>a. oid (oPool bk a)) (take (length new) q)
       \<and> list_all (\<lambda>t. tprice t = bp \<and> takerId t = oid (oPool bk taker)) new
       \<and> lp' = (if new = [] then lastp else bp)
       \<and> length new \<le> length q \<and> (if q' = [] then length new = length q else True)"
proof (induction taker bp q lastp bk arbitrary: q' lp' bk' rule: matchMakers.induct)
  case (1 taker bp lastp bk)
  then show ?case by auto
next
  case (2 taker bp maker rest lastp bk)
  show ?case
  proof (cases "0 < shares (oPool bk taker)")
    case False
    then show ?thesis using "2.prems" by auto
  next
    case True
    let ?t = "\<lparr>takerId = oid (oPool bk taker), makerId = oid (oPool bk maker),
               qty = min (shares (oPool bk taker)) (shares (oPool bk maker)), tprice = bp,
               timestamp = timestampCounter bk\<rparr>"
    show ?thesis
    proof (cases "shares (oPool (fill taker maker bp bk) maker) = 0")
      case z: True
      have rec: "matchMakers taker bp rest bp (removeMaker maker (fill taker maker bp bk)) = (q', lp', bk')"
        using "2.prems" True z by (simp add: Let_def)
      from "2.IH"[OF True refl z rec] obtain new where
        n: "tradeBuffer bk' = tradeBuffer (removeMaker maker (fill taker maker bp bk)) @ new"
        "map makerId new = map (\<lambda>a. oid (oPool (removeMaker maker (fill taker maker bp bk)) a)) (take (length new) rest)"
        "list_all (\<lambda>t. tprice t = bp \<and> takerId t = oid (oPool (removeMaker maker (fill taker maker bp bk)) taker)) new"
        "length new \<le> length rest" "if q' = [] then length new = length rest else True"
        and lp: "lp' = (if new = [] then bp else bp)"
        by blast
      show ?thesis
        using n lp by (intro exI[of _ "?t # new"]) (auto split: if_splits)
    next
      case False
      then have "q' = maker # rest" "lp' = bp" "bk' = fill taker maker bp bk"
        using "2.prems" True by (auto simp: Let_def)
      then show ?thesis by (intro exI[of _ "[?t]"]) auto
    qed
  qed
qed


lemma map_pair_const:
  "map makerId new = map f xs \<Longrightarrow> list_all (\<lambda>t. tprice t = bp \<and> P t) new \<Longrightarrow>
     map (\<lambda>t. (makerId t, tprice t)) new = map (\<lambda>a. (f a, bp)) xs"
proof (induction new arbitrary: xs)
  case Nil
  then show ?case by simp
next
  case (Cons t new)
  then show ?case by (cases xs) auto
qed

lemma queueOf_Cons [simp]: "queueOf ((bp, q) # lv) = map (\<lambda>a. (a, bp)) q @ queueOf lv"
  by (simp add: queueOf_def)

lemma queueOf_Nil [simp]: "queueOf [] = []"
  by (simp add: queueOf_def)

lemma matchLevels_static:
  "matchLevels taker sd p lv lastp bk = (lv', lp', bk') \<Longrightarrow>
     oid (oPool bk' a) = oid (oPool bk a) \<and> side (oPool bk' a) = side (oPool bk a)
     \<and> otype (oPool bk' a) = otype (oPool bk a) \<and> price (oPool bk' a) = price (oPool bk a)
     \<and> stopPrice (oPool bk' a) = stopPrice (oPool bk a)"
proof (induction taker sd p lv lastp bk rule: matchLevels.induct)
  case (1 taker sd p lastp bk)
  then show ?case by simp
next
  case (2 taker sd p bp q lv lastp bk)
  show ?case
  proof (cases "0 < shares (oPool bk taker) \<and> crosses sd p bp")
    case False
    then show ?thesis using "2.prems" by auto
  next
    case True
    obtain q' lp1 bk1 where mm: "matchMakers taker bp q lastp bk = (q', lp1, bk1)"
      by (cases "matchMakers taker bp q lastp bk")
    note st = matchMakers_static[OF mm, of a]
    show ?thesis
    proof (cases "q' = []")
      case e: True
      from "2.IH"[OF True mm[symmetric] refl e] "2.prems" True mm e st show ?thesis by simp
    next
      case False
      then show ?thesis using True mm "2.prems" st by auto
    qed
  qed
qed

text \<open>
  The reports of the whole matching: one for each resting order from the front of the
  opposite side's queue on, in price-time priority, each at the price of the maker's
  level; \<open>lastExecutedPrice\<close> is the price of the last of them.
\<close>

lemma matchLevels_trades:
  "matchLevels taker sd p lv lastp bk = (lv', lp', bk') \<Longrightarrow>
     \<exists>new. tradeBuffer bk' = tradeBuffer bk @ new
       \<and> map (\<lambda>t. (makerId t, tprice t)) new
           = map (\<lambda>(a, bp). (oid (oPool bk a), bp)) (take (length new) (queueOf lv))
       \<and> list_all (\<lambda>t. takerId t = oid (oPool bk taker)) new
       \<and> lp' = (if new = [] then lastp else tprice (last new))"
proof (induction taker sd p lv lastp bk arbitrary: lv' lp' bk' rule: matchLevels.induct)
  case (1 taker sd p lastp bk)
  then have "bk' = bk" "lp' = lastp" by auto
  then show ?case by (intro exI[of _ "[]"]) simp
next
  case (2 taker sd p bp q lv lastp bk)
  show ?case
  proof (cases "0 < shares (oPool bk taker) \<and> crosses sd p bp")
    case False
    then have "bk' = bk" "lp' = lastp" using "2.prems" by auto
    then show ?thesis by (intro exI[of _ "[]"]) simp
  next
    case True
    obtain q' lp1 bk1 where mm: "matchMakers taker bp q lastp bk = (q', lp1, bk1)"
      by (cases "matchMakers taker bp q lastp bk")
    from matchMakers_trades[OF mm] obtain new1 where
      t1: "tradeBuffer bk1 = tradeBuffer bk @ new1"
      and m1: "map makerId new1 = map (\<lambda>a. oid (oPool bk a)) (take (length new1) q)"
      and a1: "list_all (\<lambda>t. tprice t = bp \<and> takerId t = oid (oPool bk taker)) new1"
      and l1: "lp1 = (if new1 = [] then lastp else bp)"
      and n1: "length new1 \<le> length q" "if q' = [] then length new1 = length q else True"
      by blast
    have p1: "map (\<lambda>t. (makerId t, tprice t)) new1
               = map (\<lambda>a. (oid (oPool bk a), bp)) (take (length new1) q)"
      using map_pair_const[OF m1 a1] .
    have tk1: "list_all (\<lambda>t. takerId t = oid (oPool bk taker)) new1"
      using a1 by (simp add: list_all_iff)
    have lastbp: "new1 \<noteq> [] \<Longrightarrow> tprice (last new1) = bp"
      using a1 by (simp add: list_all_iff)
    show ?thesis
    proof (cases "q' = []")
      case e: True
      have rec: "matchLevels taker sd p lv lp1 bk1 = (lv', lp', bk')"
        using "2.prems" True mm e by simp
      from "2.IH"[OF True mm[symmetric] refl e rec] obtain new2 where
        t2: "tradeBuffer bk' = tradeBuffer bk1 @ new2"
        and m2: "map (\<lambda>t. (makerId t, tprice t)) new2
           = map (\<lambda>(a, bp). (oid (oPool bk1 a), bp)) (take (length new2) (queueOf lv))"
        and a2: "list_all (\<lambda>t. takerId t = oid (oPool bk1 taker)) new2"
        and l2: "lp' = (if new2 = [] then lp1 else tprice (last new2))"
        by blast
      have st: "\<And>a. oid (oPool bk1 a) = oid (oPool bk a)" using matchMakers_static[OF mm] by simp
      have len: "length new1 = length q" using n1 e by simp
      have q2: "map (\<lambda>t. (makerId t, tprice t)) new2
           = map (\<lambda>(a, bp). (oid (oPool bk a), bp)) (take (length new2) (queueOf lv))"
        using m2 st by simp
      have A: "tradeBuffer bk' = tradeBuffer bk @ (new1 @ new2)" using t1 t2 by simp
      have B: "map (\<lambda>t. (makerId t, tprice t)) (new1 @ new2)
           = map (\<lambda>(a, bp). (oid (oPool bk a), bp)) (take (length (new1 @ new2)) (queueOf ((bp, q) # lv)))"
        using p1 q2 len by (simp add: comp_def take_map)
      have C: "list_all (\<lambda>t. takerId t = oid (oPool bk taker)) (new1 @ new2)"
        using tk1 a2 st by simp
      have D: "lp' = (if new1 @ new2 = [] then lastp else tprice (last (new1 @ new2)))"
        using l1 l2 lastbp by simp
      show ?thesis
        by (rule exI[of _ "new1 @ new2"]) (intro conjI A B C D)
    next
      case False
      have r: "lp' = lp1" "bk' = bk1"
        using False "2.prems" True mm by auto
      have B: "map (\<lambda>t. (makerId t, tprice t)) new1
           = map (\<lambda>(a, bp). (oid (oPool bk a), bp)) (take (length new1) (queueOf ((bp, q) # lv)))"
        using p1 n1 by (simp add: comp_def take_map)
      have D: "lp1 = (if new1 = [] then lastp else tprice (last new1))"
        using l1 lastbp by simp
      show ?thesis unfolding r
        by (rule exI[of _ new1]) (intro conjI t1 B tk1 D)
    qed
  qed
qed

lemma matchLevels_stops:
  "taker \<notin> set (concat (map snd lv)) \<Longrightarrow> matchLevels taker sd p lv lastp bk = (lv', lp', bk') \<Longrightarrow>
     lv' = [] \<or> shares (oPool bk' taker) = 0 \<or> \<not> crosses sd p (fst (hd lv'))"
proof (induction taker sd p lv lastp bk rule: matchLevels.induct)
  case (1 taker sd p lastp bk)
  then show ?case by simp
next
  case (2 taker sd p bp q lv lastp bk)
  show ?case
  proof (cases "0 < shares (oPool bk taker) \<and> crosses sd p bp")
    case False
    then show ?thesis using "2.prems" by (auto simp: word_neq_0_conv)
  next
    case True
    obtain q' lp1 bk1 where mm: "matchMakers taker bp q lastp bk = (q', lp1, bk1)"
      by (cases "matchMakers taker bp q lastp bk")
    show ?thesis
    proof (cases "q' = []")
      case e: True
      from "2.IH"[OF True mm[symmetric] refl e] "2.prems" True mm e show ?thesis by simp
    next
      case False
      then show ?thesis using True mm "2.prems" matchMakers_stops[OF _ mm] by auto
    qed
  qed
qed

lemma matchMakers_mset:
  "matchMakers taker bp q lastp bk = (q', lp', bk') \<Longrightarrow>
     mset q' + mset (fOrder bk') = mset q + mset (fOrder bk)"
proof (induction taker bp q lastp bk rule: matchMakers.induct)
  case (1 taker bp lastp bk)
  then show ?case by simp
next
  case (2 taker bp maker rest lastp bk)
  show ?case
  proof (cases "0 < shares (oPool bk taker)")
    case False
    then show ?thesis using "2.prems" by auto
  next
    case True
    show ?thesis
    proof (cases "shares (oPool (fill taker maker bp bk) maker) = 0")
      case z: True
      have rec: "matchMakers taker bp rest bp (removeMaker maker (fill taker maker bp bk)) = (q', lp', bk')"
        using "2.prems" True z by (simp add: Let_def)
      from "2.IH"[OF True refl z rec] show ?thesis by simp
    next
      case False
      then have "q' = maker # rest" "bk' = fill taker maker bp bk"
        using "2.prems" True by (auto simp: Let_def)
      then show ?thesis by simp
    qed
  qed
qed

lemma matchLevels_mset:
  "matchLevels taker sd p lv lastp bk = (lv', lp', bk') \<Longrightarrow>
     mset (concat (map snd lv')) + mset (fOrder bk') = mset (concat (map snd lv)) + mset (fOrder bk)"
proof (induction taker sd p lv lastp bk rule: matchLevels.induct)
  case (1 taker sd p lastp bk)
  then show ?case by simp
next
  case (2 taker sd p bp q lv lastp bk)
  show ?case
  proof (cases "0 < shares (oPool bk taker) \<and> crosses sd p bp")
    case False
    then show ?thesis using "2.prems" by auto
  next
    case True
    obtain q' lp1 bk1 where mm: "matchMakers taker bp q lastp bk = (q', lp1, bk1)"
      by (cases "matchMakers taker bp q lastp bk")
    note ms = matchMakers_mset[OF mm]
    show ?thesis
    proof (cases "q' = []")
      case e: True
      from "2.IH"[OF True mm[symmetric] refl e] "2.prems" True mm e ms show ?thesis by simp
    next
      case False
      then show ?thesis using True mm "2.prems" ms by auto
    qed
  qed
qed

lemma matchLevels_frame:
  "matchLevels taker sd p lv lastp bk = (lv', lp', bk') \<Longrightarrow>
     buyRoot bk' = buyRoot bk \<and> sellRoot bk' = sellRoot bk
     \<and> stopBuyRoot bk' = stopBuyRoot bk \<and> stopSellRoot bk' = stopSellRoot bk
     \<and> fLimit bk' = fLimit bk \<and> stopOrderMap bk' = stopOrderMap bk
     \<and> generatedIdCounter bk' = generatedIdCounter bk \<and> stopChecks bk' = stopChecks bk"
proof (induction taker sd p lv lastp bk rule: matchLevels.induct)
  case (1 taker sd p lastp bk)
  then show ?case by simp
next
  case (2 taker sd p bp q lv lastp bk)
  show ?case
  proof (cases "0 < shares (oPool bk taker) \<and> crosses sd p bp")
    case False
    then show ?thesis using "2.prems" by auto
  next
    case True
    obtain q' lp1 bk1 where mm: "matchMakers taker bp q lastp bk = (q', lp1, bk1)"
      by (cases "matchMakers taker bp q lastp bk")
    note fr = matchMakers_frame[OF mm]
    show ?thesis
    proof (cases "q' = []")
      case e: True
      from "2.IH"[OF True mm[symmetric] refl e] "2.prems" True mm e fr show ?thesis by simp
    next
      case False
      then show ?thesis using True mm "2.prems" fr by auto
    qed
  qed
qed

lemma matchLevels_other:
  "matchLevels taker sd p lv lastp bk = (lv', lp', bk') \<Longrightarrow> a \<noteq> taker \<Longrightarrow>
     a \<notin> set (concat (map snd lv)) \<Longrightarrow> oPool bk' a = oPool bk a"
proof (induction taker sd p lv lastp bk rule: matchLevels.induct)
  case (1 taker sd p lastp bk)
  then show ?case by simp
next
  case (2 taker sd p bp q lv lastp bk)
  show ?case
  proof (cases "0 < shares (oPool bk taker) \<and> crosses sd p bp")
    case False
    then show ?thesis using "2.prems" by auto
  next
    case True
    obtain q' lp1 bk1 where mm: "matchMakers taker bp q lastp bk = (q', lp1, bk1)"
      by (cases "matchMakers taker bp q lastp bk")
    have o: "oPool bk1 a = oPool bk a" using matchMakers_other[OF mm] "2.prems" by auto
    show ?thesis
    proof (cases "q' = []")
      case e: True
      from "2.IH"[OF True mm[symmetric] refl e] "2.prems" True mm e o show ?thesis by simp
    next
      case False
      then show ?thesis using True mm "2.prems" o by auto
    qed
  qed
qed

lemma matchLevels_nonempty:
  "matchLevels taker sd p lv lastp bk = (lv', lp', bk') \<Longrightarrow> [] \<notin> snd ` set lv \<Longrightarrow>
     [] \<notin> snd ` set lv'"
proof (induction taker sd p lv lastp bk rule: matchLevels.induct)
  case (1 taker sd p lastp bk)
  then show ?case by simp
next
  case (2 taker sd p bp q lv lastp bk)
  show ?case
  proof (cases "0 < shares (oPool bk taker) \<and> crosses sd p bp")
    case False
    then have "lv' = (bp, q) # lv" using "2.prems" by auto
    then show ?thesis using "2.prems"(2) by simp
  next
    case True
    obtain q' lp1 bk1 where mm: "matchMakers taker bp q lastp bk = (q', lp1, bk1)"
      by (cases "matchMakers taker bp q lastp bk")
    show ?thesis
    proof (cases "q' = []")
      case e: True
      from "2.IH"[OF True mm[symmetric] refl e] "2.prems" True mm e show ?thesis by simp
    next
      case False
      then have "lv' = (bp, q') # lv" using True mm "2.prems" by auto
      then show ?thesis using "2.prems"(2) False by simp
    qed
  qed
qed

section \<open>Positivity, runs without trades, and the loops of the trigger pass\<close>

lemma matchMakers_pos:
  "matchMakers taker bp q lastp bk = (q', lp', bk') \<Longrightarrow> taker \<notin> set q \<Longrightarrow> distinct q \<Longrightarrow>
     list_all (\<lambda>a. 0 < shares (oPool bk a)) q \<Longrightarrow> list_all (\<lambda>a. 0 < shares (oPool bk' a)) q'"
proof (induction taker bp q lastp bk rule: matchMakers.induct)
  case (1 taker bp lastp bk)
  then show ?case by simp
next
  case (2 taker bp maker rest lastp bk)
  show ?case
  proof (cases "0 < shares (oPool bk taker)")
    case False
    then show ?thesis using "2.prems" by auto
  next
    case True
    have others: "list_all (\<lambda>a. oPool (fill taker maker bp bk) a = oPool bk a) rest"
      using "2.prems"(2,3) by (auto simp: list_all_iff intro!: fill_other)
    show ?thesis
    proof (cases "shares (oPool (fill taker maker bp bk) maker) = 0")
      case z: True
      have rec: "matchMakers taker bp rest bp (removeMaker maker (fill taker maker bp bk)) = (q', lp', bk')"
        using "2.prems" True z by (simp add: Let_def)
      have "list_all (\<lambda>a. 0 < shares (oPool (removeMaker maker (fill taker maker bp bk)) a)) rest"
        using others "2.prems"(3,4) by (auto simp: list_all_iff)
      from "2.IH"[OF True refl z rec _ _ this] "2.prems"(2,3) show ?thesis by simp
    next
      case False
      then have "q' = maker # rest" "bk' = fill taker maker bp bk"
        using "2.prems" True by (auto simp: Let_def)
      then show ?thesis using False others "2.prems"(4)
        by (auto simp: list_all_iff word_neq_0_conv)
    qed
  qed
qed

lemma matchLevels_pos:
  "matchLevels taker sd p lv lastp bk = (lv', lp', bk') \<Longrightarrow> taker \<notin> set (concat (map snd lv)) \<Longrightarrow>
     distinct (concat (map snd lv)) \<Longrightarrow>
     list_all (\<lambda>a. 0 < shares (oPool bk a)) (concat (map snd lv)) \<Longrightarrow>
     list_all (\<lambda>a. 0 < shares (oPool bk' a)) (concat (map snd lv'))"
proof (induction taker sd p lv lastp bk rule: matchLevels.induct)
  case (1 taker sd p lastp bk)
  then show ?case by simp
next
  case (2 taker sd p bp q lv lastp bk)
  show ?case
  proof (cases "0 < shares (oPool bk taker) \<and> crosses sd p bp")
    case False
    then show ?thesis using "2.prems" by auto
  next
    case True
    obtain q' lp1 bk1 where mm: "matchMakers taker bp q lastp bk = (q', lp1, bk1)"
      by (cases "matchMakers taker bp q lastp bk")
    have pq: "list_all (\<lambda>a. 0 < shares (oPool bk1 a)) q'"
      using matchMakers_pos[OF mm] "2.prems"(2,3,4) by auto
    have "\<And>a. a \<in> set (concat (map snd lv)) \<Longrightarrow> a \<noteq> taker \<and> a \<notin> set q"
      using "2.prems"(2,3) by auto
    then have "\<And>a. a \<in> set (concat (map snd lv)) \<Longrightarrow> oPool bk1 a = oPool bk a"
      using matchMakers_other[OF mm] by blast
    then have pl: "list_all (\<lambda>a. 0 < shares (oPool bk1 a)) (concat (map snd lv))"
      using "2.prems"(4) by (simp add: list_all_iff)
    show ?thesis
    proof (cases "q' = []")
      case e: True
      have rec: "matchLevels taker sd p lv lp1 bk1 = (lv', lp', bk')"
        using "2.prems" True mm e by simp
      from "2.IH"[OF True mm[symmetric] refl e rec _ _ pl] "2.prems"(2,3) show ?thesis by simp
    next
      case False
      then have "lv' = (bp, q') # lv" "bk' = bk1" using True mm "2.prems" by auto
      then show ?thesis using pq pl by simp
    qed
  qed
qed

lemma matchMakers_no_trade:
  assumes r: "matchMakers taker bp q lastp bk = (q', lp', bk')"
    and t: "tradeBuffer bk' = tradeBuffer bk"
  shows "q' = q \<and> lp' = lastp \<and> bk' = bk \<and> (q = [] \<or> \<not> 0 < shares (oPool bk taker))"
proof (cases q)
  case Nil
  then show ?thesis using r by auto
next
  case (Cons maker rest)
  show ?thesis
  proof (cases "0 < shares (oPool bk taker)")
    case False
    then show ?thesis using r Cons by auto
  next
    case True
    have "length (tradeBuffer bk') > length (tradeBuffer bk)"
    proof (cases "shares (oPool (fill taker maker bp bk) maker) = 0")
      case z: True
      have rec: "matchMakers taker bp rest bp (removeMaker maker (fill taker maker bp bk)) = (q', lp', bk')"
        using r Cons True z by (simp add: Let_def)
      from matchMakers_trades[OF rec] show ?thesis by auto
    next
      case False
      then have "bk' = fill taker maker bp bk" using r Cons True by (auto simp: Let_def)
      then show ?thesis by simp
    qed
    then show ?thesis using t by simp
  qed
qed

lemma matchLevels_no_trade:
  assumes r: "matchLevels taker sd p lv lastp bk = (lv', lp', bk')"
    and t: "tradeBuffer bk' = tradeBuffer bk" and ne: "[] \<notin> snd ` set lv"
  shows "lv' = lv \<and> lp' = lastp \<and> bk' = bk"
proof (cases lv)
  case Nil
  then show ?thesis using r by auto
next
  case (Cons x rest)
  obtain bp q where x: "x = (bp, q)" by (cases x)
  have qne: "q \<noteq> []" using ne Cons x by auto
  show ?thesis
  proof (cases "0 < shares (oPool bk taker) \<and> crosses sd p bp")
    case False
    then show ?thesis using r Cons x by auto
  next
    case True
    obtain q' lp1 bk1 where mm: "matchMakers taker bp q lastp bk = (q', lp1, bk1)"
      by (cases "matchMakers taker bp q lastp bk")
    from matchMakers_trades[OF mm] obtain new1 where t1: "tradeBuffer bk1 = tradeBuffer bk @ new1"
      by blast
    have t2: "\<exists>new2. tradeBuffer bk' = tradeBuffer bk1 @ new2"
    proof (cases "q' = []")
      case e: True
      then have "matchLevels taker sd p rest lp1 bk1 = (lv', lp', bk')"
        using r Cons x True mm by simp
      from matchLevels_trades[OF this] show ?thesis by blast
    next
      case False
      then have "bk' = bk1" using r Cons x True mm by auto
      then show ?thesis by simp
    qed
    have "tradeBuffer bk1 = tradeBuffer bk" using t t1 t2 by auto
    from matchMakers_no_trade[OF mm this] qne True show ?thesis by simp
  qed
qed

text \<open>The inner loop of the trigger pass, in closed form.\<close>

lemma descriptor_parentLimit [simp]: "descriptor (ord\<lparr>parentLimit := x\<rparr>) = descriptor ord"
  by (simp add: descriptor_def)

lemma removeStop_static [simp]:
  "descriptor (oPool (removeStop a bk) b) = descriptor (oPool bk b)"
  "oid (oPool (removeStop a bk) b) = oid (oPool bk b)"
  by simp_all

lemma removeStops_Cons [simp]: "removeStops (a # q) bk = removeStops q (removeStop a bk)"
  by (simp add: removeStops_def)

lemma removeStops_Nil [simp]: "removeStops [] bk = bk"
  by (simp add: removeStops_def)

lemma removeStops_static [simp]:
  "descriptor (oPool (removeStops q bk) b) = descriptor (oPool bk b)"
  "oid (oPool (removeStops q bk) b) = oid (oPool bk b)"
  by (induction q arbitrary: bk; simp)+

lemma removeStops_append [simp]: "removeStops (q @ q') bk = removeStops q' (removeStops q bk)"
  by (simp add: removeStops_def)

lemma collectStops_eq:
  "collectStops q tr bk = (tr @ map (\<lambda>a. descriptor (oPool bk a)) q, removeStops q bk)"
  by (induction q tr bk rule: collectStops.induct) simp_all

lemma removeStops_simps [simp]:
  "fOrder (removeStops q bk) = rev q @ fOrder bk"
  "fLimit (removeStops q bk) = fLimit bk"
  "buyRoot (removeStops q bk) = buyRoot bk"
  "sellRoot (removeStops q bk) = sellRoot bk"
  "stopBuyRoot (removeStops q bk) = stopBuyRoot bk"
  "stopSellRoot (removeStops q bk) = stopSellRoot bk"
  "orderMap (removeStops q bk) = orderMap bk"
  "generatedIdCounter (removeStops q bk) = generatedIdCounter bk"
  "stopChecks (removeStops q bk) = stopChecks bk"
  "timestampCounter (removeStops q bk) = timestampCounter bk"
  "tradeBuffer (removeStops q bk) = tradeBuffer bk"
  by (induction q arbitrary: bk; simp)+

lemma removeStops_shares [simp]:
  "shares (oPool (removeStops q bk) b) = shares (oPool bk b)"
  by (induction q arbitrary: bk) simp_all


lemma removeStop_commute:
  "removeStop a (setStopRoot sd T (bk\<lparr>fLimit := fl\<rparr>)) = setStopRoot sd T ((removeStop a bk)\<lparr>fLimit := fl\<rparr>)"
  by (simp add: removeStop_def setStopRoot_def recycleOrder_def)

lemma removeStops_commute:
  "removeStops q (setStopRoot sd T (bk\<lparr>fLimit := fl\<rparr>)) = setStopRoot sd T ((removeStops q bk)\<lparr>fLimit := fl\<rparr>)"
  by (induction q arbitrary: bk) (simp_all add: removeStop_commute)

lemma setStopRoot_twice:
  "setStopRoot sd T ((setStopRoot sd T' (bk\<lparr>fLimit := fl'\<rparr>))\<lparr>fLimit := fl\<rparr>)
     = setStopRoot sd T (bk\<lparr>fLimit := fl\<rparr>)"
  by (simp add: setStopRoot_def)

lemma setStopRoot_same:
  "setStopRoot sd (stopRoot sd bk) (bk\<lparr>fLimit := fLimit bk\<rparr>) = bk"
  by (cases sd) (simp_all add: setStopRoot_def)

lemma setStopRoot_Sell: "bk\<lparr>stopSellRoot := T, fLimit := fl\<rparr> = setStopRoot Sell T (bk\<lparr>fLimit := fl\<rparr>)"
  by (simp add: setStopRoot_def)

lemma setStopRoot_Buy: "bk\<lparr>stopBuyRoot := T, fLimit := fl\<rparr> = setStopRoot Buy T (bk\<lparr>fLimit := fl\<rparr>)"
  by (simp add: setStopRoot_def)

text \<open>
  The loop over the stop-sell tree returns: it fires the levels from the highest down
  while their price is at or above the executed price, and leaves a tree of the others.
\<close>

lemma stopSellLoop_refines:
  assumes "levels_of Sell (stopSellRoot bk) = lv" "avl (stopSellRoot bk)" "bst (stopSellRoot bk)"
  shows "\<exists>T'. stopSellLoop ep tr bk =
            Some (tr @ map (\<lambda>a. descriptor (oPool bk a))
                         (concat (map snd (takeWhile (\<lambda>x. ep \<le> fst x) lv))),
                  setStopRoot Sell T'
                    ((removeStops (concat (map snd (takeWhile (\<lambda>x. ep \<le> fst x) lv))) bk)
                       \<lparr>fLimit := fLimit bk + length (takeWhile (\<lambda>x. ep \<le> fst x) lv)\<rparr>))
          \<and> levels_of Sell T' = dropWhile (\<lambda>x. ep \<le> fst x) lv \<and> avl T' \<and> bst T'"
  using assms
proof (induction lv arbitrary: bk tr)
  case Nil
  then have "getMax (stopSellRoot bk) = None"
    by (simp add: levels_of_def getMax_inorder)
  then have "stopSellLoop ep tr bk = Some (tr, bk)"
    by (subst stopSellLoop.simps) simp
  then show ?case using Nil setStopRoot_same[of Sell bk]
    by (intro exI[of _ "stopSellRoot bk"]) simp
next
  case (Cons x lv)
  obtain hp q where x: "x = (hp, q)" by (cases x)
  have gm: "getMax (stopSellRoot bk) = Some (hp, q)"
    using Cons.prems(1) x by (auto simp: levels_of_def getMax_inorder rev_eq_Cons_iff)
  show ?case
  proof (cases "ep \<le> hp")
    case False
    then have "stopSellLoop ep tr bk = Some (tr, bk)"
      using gm by (subst stopSellLoop.simps) simp
    then show ?thesis using Cons.prems x False setStopRoot_same[of Sell bk]
      by (intro exI[of _ "stopSellRoot bk"]) simp
  next
    case True
    let ?bk1 = "removeStops q bk"
    from levels_of_removeLimit[OF Cons.prems(3,2), of Sell hp q lv "fLimit bk"] Cons.prems(1) x
    obtain T2 where rl: "removeLimit (stopSellRoot bk) hp (fLimit bk) = Some (T2, Suc (fLimit bk))"
      and l2: "levels_of Sell T2 = lv" and a2: "avl T2" and b2: "bst T2" by auto
    let ?bk2 = "setStopRoot Sell T2 (?bk1\<lparr>fLimit := Suc (fLimit bk)\<rparr>)"
    have unf: "stopSellLoop ep tr bk
               = stopSellLoop ep (tr @ map (\<lambda>a. descriptor (oPool bk a)) q) ?bk2"
      using gm True rl
      by (subst stopSellLoop.simps) (simp add: collectStops_eq setStopRoot_Sell)
    have s2: "stopSellRoot ?bk2 = T2" by simp
    from Cons.IH[of ?bk2 "tr @ map (\<lambda>a. descriptor (oPool bk a)) q"] l2 a2 b2 s2
    obtain T' where
      r: "stopSellLoop ep (tr @ map (\<lambda>a. descriptor (oPool bk a)) q) ?bk2 =
            Some ((tr @ map (\<lambda>a. descriptor (oPool bk a)) q) @ map (\<lambda>a. descriptor (oPool ?bk2 a))
                         (concat (map snd (takeWhile (\<lambda>x. ep \<le> fst x) lv))),
                  setStopRoot Sell T'
                    ((removeStops (concat (map snd (takeWhile (\<lambda>x. ep \<le> fst x) lv))) ?bk2)
                       \<lparr>fLimit := fLimit ?bk2 + length (takeWhile (\<lambda>x. ep \<le> fst x) lv)\<rparr>))"
      and l': "levels_of Sell T' = dropWhile (\<lambda>x. ep \<le> fst x) lv" and a': "avl T'" and b': "bst T'"
      by auto
    have st: "setStopRoot Sell T'
                    ((removeStops (concat (map snd (takeWhile (\<lambda>x. ep \<le> fst x) lv))) ?bk2)
                       \<lparr>fLimit := fLimit ?bk2 + length (takeWhile (\<lambda>x. ep \<le> fst x) lv)\<rparr>)
              = setStopRoot Sell T'
                    ((removeStops (concat (map snd (takeWhile (\<lambda>x. ep \<le> fst x) (x # lv)))) bk)
                       \<lparr>fLimit := fLimit bk + length (takeWhile (\<lambda>x. ep \<le> fst x) (x # lv))\<rparr>)"
      using True x by (simp add: removeStops_commute setStopRoot_twice)
    show ?thesis using unf r l' a' b' True x unfolding st
      by (intro exI[of _ T']) simp
  qed
qed

lemma stopBuyLoop_refines:
  assumes "levels_of Buy (stopBuyRoot bk) = lv" "avl (stopBuyRoot bk)" "bst (stopBuyRoot bk)"
  shows "\<exists>T'. stopBuyLoop ep tr bk =
            Some (tr @ map (\<lambda>a. descriptor (oPool bk a))
                         (concat (map snd (takeWhile (\<lambda>x. fst x \<le> ep) lv))),
                  setStopRoot Buy T'
                    ((removeStops (concat (map snd (takeWhile (\<lambda>x. fst x \<le> ep) lv))) bk)
                       \<lparr>fLimit := fLimit bk + length (takeWhile (\<lambda>x. fst x \<le> ep) lv)\<rparr>))
          \<and> levels_of Buy T' = dropWhile (\<lambda>x. fst x \<le> ep) lv \<and> avl T' \<and> bst T'"
  using assms
proof (induction lv arbitrary: bk tr)
  case Nil
  then have "getMin (stopBuyRoot bk) = None"
    by (simp add: levels_of_def getMin_inorder)
  then have "stopBuyLoop ep tr bk = Some (tr, bk)"
    by (subst stopBuyLoop.simps) simp
  then show ?case using Nil setStopRoot_same[of Buy bk]
    by (intro exI[of _ "stopBuyRoot bk"]) simp
next
  case (Cons x lv)
  obtain hp q where x: "x = (hp, q)" by (cases x)
  have gm: "getMin (stopBuyRoot bk) = Some (hp, q)"
    using Cons.prems(1) x by (auto simp: levels_of_def getMin_inorder)
  show ?case
  proof (cases "hp \<le> ep")
    case False
    then have "stopBuyLoop ep tr bk = Some (tr, bk)"
      using gm by (subst stopBuyLoop.simps) simp
    then show ?thesis using Cons.prems x False setStopRoot_same[of Buy bk]
      by (intro exI[of _ "stopBuyRoot bk"]) simp
  next
    case True
    let ?bk1 = "removeStops q bk"
    from levels_of_removeLimit[OF Cons.prems(3,2), of Buy hp q lv "fLimit bk"] Cons.prems(1) x
    obtain T2 where rl: "removeLimit (stopBuyRoot bk) hp (fLimit bk) = Some (T2, Suc (fLimit bk))"
      and l2: "levels_of Buy T2 = lv" and a2: "avl T2" and b2: "bst T2" by auto
    let ?bk2 = "setStopRoot Buy T2 (?bk1\<lparr>fLimit := Suc (fLimit bk)\<rparr>)"
    have unf: "stopBuyLoop ep tr bk
               = stopBuyLoop ep (tr @ map (\<lambda>a. descriptor (oPool bk a)) q) ?bk2"
      using gm True rl
      by (subst stopBuyLoop.simps) (simp add: collectStops_eq setStopRoot_Buy)
    have s2: "stopBuyRoot ?bk2 = T2" by simp
    from Cons.IH[of ?bk2 "tr @ map (\<lambda>a. descriptor (oPool bk a)) q"] l2 a2 b2 s2
    obtain T' where
      r: "stopBuyLoop ep (tr @ map (\<lambda>a. descriptor (oPool bk a)) q) ?bk2 =
            Some ((tr @ map (\<lambda>a. descriptor (oPool bk a)) q) @ map (\<lambda>a. descriptor (oPool ?bk2 a))
                         (concat (map snd (takeWhile (\<lambda>x. fst x \<le> ep) lv))),
                  setStopRoot Buy T'
                    ((removeStops (concat (map snd (takeWhile (\<lambda>x. fst x \<le> ep) lv))) ?bk2)
                       \<lparr>fLimit := fLimit ?bk2 + length (takeWhile (\<lambda>x. fst x \<le> ep) lv)\<rparr>))"
      and l': "levels_of Buy T' = dropWhile (\<lambda>x. fst x \<le> ep) lv" and a': "avl T'" and b': "bst T'"
      by auto
    have st: "setStopRoot Buy T'
                    ((removeStops (concat (map snd (takeWhile (\<lambda>x. fst x \<le> ep) lv))) ?bk2)
                       \<lparr>fLimit := fLimit ?bk2 + length (takeWhile (\<lambda>x. fst x \<le> ep) lv)\<rparr>)
              = setStopRoot Buy T'
                    ((removeStops (concat (map snd (takeWhile (\<lambda>x. fst x \<le> ep) (x # lv)))) bk)
                       \<lparr>fLimit := fLimit bk + length (takeWhile (\<lambda>x. fst x \<le> ep) (x # lv))\<rparr>)"
      using True x by (simp add: removeStops_commute setStopRoot_twice)
    show ?thesis using unf r l' a' b' True x unfolding st
      by (intro exI[of _ T']) simp
  qed
qed

section \<open>The trigger pass\<close>

text \<open>A scan that stops at the first level failing a test that is monotone along the
  list takes exactly the levels passing the test.\<close>

lemma takeWhile_filter_desc:
  "sorted_wrt (>) (map fst lv) \<Longrightarrow> takeWhile (\<lambda>x. ep \<le> fst x) lv = filter (\<lambda>x. (ep::int) \<le> fst x) lv"
proof (induction lv)
  case Nil
  then show ?case by simp
next
  case (Cons x lv)
  show ?case
  proof (cases "ep \<le> fst x")
    case True
    then show ?thesis using Cons by simp
  next
    case False
    then have "\<forall>y \<in> set lv. \<not> ep \<le> fst y" using Cons.prems by auto
    then have "filter (\<lambda>x. ep \<le> fst x) lv = []" by (simp add: filter_empty_conv)
    then show ?thesis using False by simp
  qed
qed

lemma takeWhile_filter_asc:
  "sorted_wrt (<) (map fst lv) \<Longrightarrow> takeWhile (\<lambda>x. fst x \<le> ep) lv = filter (\<lambda>x. fst x \<le> (ep::int)) lv"
proof (induction lv)
  case Nil
  then show ?case by simp
next
  case (Cons x lv)
  show ?case
  proof (cases "fst x \<le> ep")
    case True
    then show ?thesis using Cons by simp
  next
    case False
    then have "\<forall>y \<in> set lv. \<not> fst y \<le> ep" using Cons.prems by auto
    then have "filter (\<lambda>x. fst x \<le> ep) lv = []" by (simp add: filter_empty_conv)
    then show ?thesis using False by simp
  qed
qed

lemma firedLevels_takeWhile:
  assumes "bst (stopRoot sd bk)"
  shows "firedLevels ep sd bk =
     (if sd = Sell then takeWhile (\<lambda>x. ep \<le> fst x) (levels_of Sell (stopSellRoot bk))
      else takeWhile (\<lambda>x. fst x \<le> ep) (levels_of Buy (stopBuyRoot bk)))"
proof (cases sd)
  case Buy
  then show ?thesis using assms takeWhile_filter_asc[of "inorder (stopBuyRoot bk)" ep]
    by (simp add: firedLevels_def levels_of_def bst_def keys_def)
next
  case Sell
  have "sorted_wrt (>) (map fst (rev (inorder (stopSellRoot bk))))"
    using assms Sell by (simp add: bst_def keys_def sorted_wrt_rev rev_map[symmetric])
  from takeWhile_filter_desc[OF this, of ep] Sell show ?thesis
    by (simp add: firedLevels_def levels_of_def rev_filter)
qed

lemma mset_slots_levels_of: "mset (concat (map snd (levels_of sd t))) = mset (slots t)"
  by (cases sd) (simp_all add: levels_of_def slots_def mset_concat rev_map[symmetric])

lemma set_levels_of [simp]: "set (levels_of sd t) = set (inorder t)"
  by (simp add: levels_of_def)

lemma nonempty_levels_iff: "nonempty_levels t \<longleftrightarrow> [] \<notin> snd ` set (levels_of sd t)"
  by (simp add: nonempty_levels_def)

lemma mset_take_drop_While:
  "mset (concat (map snd (takeWhile P lv))) + mset (concat (map snd (dropWhile P lv)))
     = mset (concat (map snd lv))"
proof -
  have "concat (map snd (takeWhile P lv)) @ concat (map snd (dropWhile P lv)) = concat (map snd lv)"
    by (metis concat_append map_append takeWhile_dropWhile_id)
  then show ?thesis by (metis mset_append)
qed

text \<open>
  The trigger pass returns. It collects the orders of the fired levels, level by level in
  the order of the scan and head to tail within a level, logs its call, and leaves the
  stop tree of the aggressor's side with the levels not fired.
\<close>

lemma checkStopOrders_refines:
  assumes "avl (stopRoot sd bk)" "bst (stopRoot sd bk)"
  shows "\<exists>T'. checkStopOrders ep sd tr bk =
            Some (tr @ map (\<lambda>a. descriptor (oPool bk a)) (concat (map snd (firedLevels ep sd bk))),
                  setStopRoot sd T'
                    ((removeStops (concat (map snd (firedLevels ep sd bk)))
                        (bk\<lparr>stopChecks := stopChecks bk @ [(ep, sd)]\<rparr>))
                       \<lparr>fLimit := fLimit bk + length (firedLevels ep sd bk)\<rparr>))
          \<and> avl T' \<and> bst T' \<and> set (inorder T') \<subseteq> set (inorder (stopRoot sd bk))
          \<and> mset (slots T') + mset (concat (map snd (firedLevels ep sd bk))) = mset (slots (stopRoot sd bk))"
proof -
  let ?bk0 = "bk\<lparr>stopChecks := stopChecks bk @ [(ep, sd)]\<rparr>"
  note fl = firedLevels_takeWhile[OF assms(2), of ep]
  show ?thesis
  proof (cases sd)
    case Sell
    let ?lv = "levels_of Sell (stopSellRoot bk)"
    from stopSellLoop_refines[of ?bk0 ?lv ep tr] assms Sell obtain T' where
      r: "stopSellLoop ep tr ?bk0 =
            Some (tr @ map (\<lambda>a. descriptor (oPool bk a))
                         (concat (map snd (takeWhile (\<lambda>x. ep \<le> fst x) ?lv))),
                  setStopRoot Sell T'
                    ((removeStops (concat (map snd (takeWhile (\<lambda>x. ep \<le> fst x) ?lv))) ?bk0)
                       \<lparr>fLimit := fLimit bk + length (takeWhile (\<lambda>x. ep \<le> fst x) ?lv)\<rparr>))"
      and l': "levels_of Sell T' = dropWhile (\<lambda>x. ep \<le> fst x) ?lv" and a': "avl T'" and b': "bst T'"
      by auto
    have sub: "set (inorder T') \<subseteq> set (inorder (stopSellRoot bk))"
      using l' set_dropWhileD[of _ "\<lambda>x. ep \<le> fst x" ?lv] set_levels_of[of Sell T'] set_levels_of[of Sell "stopSellRoot bk"]
      by auto
    have ms: "mset (slots T') + mset (concat (map snd (firedLevels ep sd bk))) = mset (slots (stopSellRoot bk))"
      using mset_take_drop_While[of "\<lambda>x. ep \<le> fst x" ?lv] l' fl Sell
        mset_slots_levels_of[of Sell T'] mset_slots_levels_of[of Sell "stopSellRoot bk"]
      by (simp add: add.commute)
    show ?thesis
    proof (cases "stopSellRoot bk = Null")
      case True
      then have "checkStopOrders ep sd tr bk = Some (tr, ?bk0)"
        using Sell by (simp add: checkStopOrders_def)
      moreover have "firedLevels ep sd bk = []" using True Sell by (simp add: firedLevels_def)
      moreover have "setStopRoot sd Null (?bk0\<lparr>fLimit := fLimit bk\<rparr>) = ?bk0"
        using True Sell by (simp add: setStopRoot_def)
      ultimately show ?thesis using True Sell
        by (intro exI[of _ Null]) (simp add: bst_def keys_def slots_def)
    next
      case False
      then have "checkStopOrders ep sd tr bk = stopSellLoop ep tr ?bk0"
        using Sell by (simp add: checkStopOrders_def Let_def split: bind_splits option.splits)
      then show ?thesis using r a' b' sub ms fl Sell
        by (intro exI[of _ T']) simp
    qed
  next
    case Buy
    let ?lv = "levels_of Buy (stopBuyRoot bk)"
    from stopBuyLoop_refines[of ?bk0 ?lv ep tr] assms Buy obtain T' where
      r: "stopBuyLoop ep tr ?bk0 =
            Some (tr @ map (\<lambda>a. descriptor (oPool bk a))
                         (concat (map snd (takeWhile (\<lambda>x. fst x \<le> ep) ?lv))),
                  setStopRoot Buy T'
                    ((removeStops (concat (map snd (takeWhile (\<lambda>x. fst x \<le> ep) ?lv))) ?bk0)
                       \<lparr>fLimit := fLimit bk + length (takeWhile (\<lambda>x. fst x \<le> ep) ?lv)\<rparr>))"
      and l': "levels_of Buy T' = dropWhile (\<lambda>x. fst x \<le> ep) ?lv" and a': "avl T'" and b': "bst T'"
      by auto
    have sub: "set (inorder T') \<subseteq> set (inorder (stopBuyRoot bk))"
      using l' set_dropWhileD[of _ "\<lambda>x. fst x \<le> ep" ?lv] set_levels_of[of Buy T'] set_levels_of[of Buy "stopBuyRoot bk"]
      by auto
    have ms: "mset (slots T') + mset (concat (map snd (firedLevels ep sd bk))) = mset (slots (stopBuyRoot bk))"
      using mset_take_drop_While[of "\<lambda>x. fst x \<le> ep" ?lv] l' fl Buy
        mset_slots_levels_of[of Buy T'] mset_slots_levels_of[of Buy "stopBuyRoot bk"]
      by (simp add: add.commute)
    show ?thesis
    proof (cases "stopBuyRoot bk = Null")
      case True
      then have "checkStopOrders ep sd tr bk = Some (tr, ?bk0)"
        using Buy by (simp add: checkStopOrders_def)
      moreover have "firedLevels ep sd bk = []" using True Buy by (simp add: firedLevels_def)
      moreover have "setStopRoot sd Null (?bk0\<lparr>fLimit := fLimit bk\<rparr>) = ?bk0"
        using True Buy by (simp add: setStopRoot_def)
      ultimately show ?thesis using True Buy
        by (intro exI[of _ Null]) (simp add: bst_def keys_def slots_def)
    next
      case False
      then have "checkStopOrders ep sd tr bk = stopBuyLoop ep tr ?bk0"
        using Buy by (simp add: checkStopOrders_def Let_def)
      then show ?thesis using r a' b' sub ms fl Buy
        by (intro exI[of _ T']) simp
    qed
  qed
qed

section \<open>Linking and unlinking an order\<close>

lemma level_split:
  "distinct (map fst xs) \<Longrightarrow> (k, q) \<in> set xs \<Longrightarrow>
     \<exists>l r. xs = l @ (k, q) # r \<and> k \<notin> fst ` set l \<and> k \<notin> fst ` set r"
proof -
  assume d: "distinct (map fst xs)" and m: "(k, q) \<in> set xs"
  from split_list[OF m] obtain l r where x: "xs = l @ (k, q) # r" by blast
  then have "k \<notin> fst ` set l \<and> k \<notin> fst ` set r" using d by auto
  with x show ?thesis by blast
qed

lemma bst_distinct: "bst t \<Longrightarrow> distinct (map fst (inorder t))"
  using sorted_keys_distinct[of "inorder t"] by (simp add: bst_def keys_def)

lemma findLimit_Some_split:
  assumes "bst t" "findLimit t k = Some q"
  shows "\<exists>l r. inorder t = l @ (k, q) # r \<and> k \<notin> fst ` set l \<and> k \<notin> fst ` set r"
proof -
  have "map_of (inorder t) k = Some q" using assms by (simp add: findLimit_map_of)
  then have "(k, q) \<in> set (inorder t)" by (rule map_of_SomeD)
  from level_split[OF bst_distinct[OF assms(1)] this] show ?thesis .
qed

lemma findLimit_split:
  assumes "bst t" "inorder t = l @ (k, q) # r"
  shows "findLimit t k = Some q"
proof -
  have d: "distinct (map fst (l @ (k, q) # r))" using bst_distinct[OF assms(1)] assms(2) by simp
  then have "map_of (l @ (k, q) # r) k = Some q"
    by (auto simp: map_add_Some_iff map_of_eq_None_iff)
  then show ?thesis using assms by (simp add: findLimit_map_of)
qed

lemma findLimit_None: "bst t \<Longrightarrow> findLimit t k = None \<longleftrightarrow> k \<notin> set (keys t)"
  by (simp add: findLimit_map_of map_of_eq_None_iff keys_def)

lemma upd_level_split:
  "k \<notin> fst ` set l \<Longrightarrow> k \<notin> fst ` set r \<Longrightarrow>
     upd_level k f (l @ (k, q) # r) = l @ (k, f q) # r"
  by (simp add: upd_level_id)

lemma del_level_split:
  "k \<notin> fst ` set l \<Longrightarrow> k \<notin> fst ` set r \<Longrightarrow> del_level k (l @ (k, q) # r) = l @ r"
  by (simp add: del_level_id)

lemma ins_level_split:
  assumes "sorted_wrt (<) (map fst xs)" "k \<notin> fst ` set xs"
  shows "\<exists>l r. xs = l @ r \<and> ins_level k xs = l @ (k, []) # r \<and> k \<notin> fst ` set l \<and> k \<notin> fst ` set r"
proof -
  let ?l = "filter (\<lambda>x. fst x < k) xs" and ?r = "filter (\<lambda>x. k < fst x) xs"
  have "xs = ?l @ ?r" using assms
  proof (induction xs)
    case Nil
    then show ?case by simp
  next
    case (Cons x xs)
    show ?case
    proof (cases "fst x < k")
      case True
      then show ?thesis using Cons by auto
    next
      case False
      then have kx: "k < fst x" using Cons.prems(2) by force
      then have "\<forall>y \<in> set xs. k < fst y" using Cons.prems(1) by auto
      then have "filter (\<lambda>x. fst x < k) xs = []" "filter (\<lambda>x. k < fst x) xs = xs"
        by (auto simp: filter_empty_conv filter_id_conv)
      then show ?thesis using kx False by simp
    qed
  qed
  moreover have "k \<notin> fst ` set ?l" "k \<notin> fst ` set ?r" by auto
  ultimately show ?thesis unfolding ins_level_def by blast
qed

lemma tree_ok_Null [simp]: "tree_ok Null"
  by (simp add: tree_ok_def bst_def keys_def nonempty_levels_def)

lemma slots_split: "inorder t = l @ (k, q) # r \<Longrightarrow> slots t = concat (map snd l) @ q @ concat (map snd r)"
  by (simp add: slots_def)

lemma insertL_total:
  assumes "avl T" "bst T"
  shows "\<exists>t L fl. insertL T p fl0 = Some (t, L, fl) \<and> avl t \<and> bst t \<and>
     (if p \<in> set (keys T) then L = Some p \<and> fl = fl0 \<and> inorder t = inorder T
      else if fl0 = 0 then L = None \<and> fl = 0 \<and> inorder t = inorder T
      else L = Some p \<and> fl = fl0 - 1 \<and> inorder t = ins_level p (inorder T))"
proof -
  from insertL_avl[OF assms(1), of p fl0] obtain t L fl where
    i: "insertL T p fl0 = Some (t, L, fl)" and a: "avl t" by blast
  from insertL_inorder[OF assms(2) i] insertL_bst[OF assms(2) i] i a show ?thesis by auto
qed

text \<open>
  \<open>insert\<close> followed by linking an order at the tail of the level returned: the order
  is the last of the FIFO at that price, and a new level costs one free node.
\<close>

lemma insert_link:
  assumes "tree_ok T" "insertL T p fl0 = Some (t, Some k, fl)"
  shows "k = p \<and> tree_ok (appendOrder p a t)
     \<and> mset (slots (appendOrder p a t)) = mset (slots T) + {#a#}
     \<and> inorder (appendOrder p a t)
         = upd_level p (\<lambda>q. q @ [a]) (if p \<in> set (keys T) then inorder T else ins_level p (inorder T))
     \<and> fl = (if p \<in> set (keys T) then fl0 else fl0 - 1) \<and> (p \<in> set (keys T) \<or> 0 < fl0)"
proof -
  have aT: "avl T" and bT: "bst T" and nT: "nonempty_levels T" using assms(1) by (auto simp: tree_ok_def)
  from insertL_total[OF aT bT, of p fl0] assms(2) have at: "avl t" and bt: "bst t"
    and c: "if p \<in> set (keys T) then k = p \<and> fl = fl0 \<and> inorder t = inorder T
            else fl0 \<noteq> 0 \<and> k = p \<and> fl = fl0 - 1 \<and> inorder t = ins_level p (inorder T)"
    by (auto split: if_splits)
  have kp: "k = p" using c by (auto split: if_splits)
  have "\<exists>l q0 r. inorder t = l @ (p, q0) # r \<and> p \<notin> fst ` set l \<and> p \<notin> fst ` set r
          \<and> mset (concat (map snd l) @ q0 @ concat (map snd r)) = mset (slots T)
          \<and> [] \<notin> snd ` set l \<and> [] \<notin> snd ` set r"
  proof (cases "p \<in> set (keys T)")
    case True
    then obtain q0 where "(p, q0) \<in> set (inorder T)" by (auto simp: keys_def)
    from level_split[OF bst_distinct[OF bT] this] obtain l r where
      s: "inorder T = l @ (p, q0) # r" "p \<notin> fst ` set l" "p \<notin> fst ` set r" by blast
    then show ?thesis using c True nT
      by (intro exI[of _ l] exI[of _ q0] exI[of _ r]) (auto simp: slots_def nonempty_levels_def)
  next
    case False
    have "sorted_wrt (<) (map fst (inorder T))" using bT by (simp add: bst_def keys_def)
    from ins_level_split[OF this, of p] False obtain l r where
      s: "inorder T = l @ r" "ins_level p (inorder T) = l @ (p, []) # r"
         "p \<notin> fst ` set l" "p \<notin> fst ` set r" by (auto simp: keys_def)
    then show ?thesis using c False nT
      by (intro exI[of _ l] exI[of _ "[]"] exI[of _ r]) (auto simp: slots_def nonempty_levels_def)
  qed
  then obtain l q0 r where s: "inorder t = l @ (p, q0) # r" "p \<notin> fst ` set l" "p \<notin> fst ` set r"
    and m: "mset (concat (map snd l) @ q0 @ concat (map snd r)) = mset (slots T)"
    and ne: "[] \<notin> snd ` set l" "[] \<notin> snd ` set r" by blast
  have io: "inorder (appendOrder p a t) = l @ (p, q0 @ [a]) # r"
    using s bt by (simp add: inorder_appendOrder upd_level_id)
  have ok: "tree_ok (appendOrder p a t)"
    using at bt io ne by (simp add: tree_ok_def nonempty_levels_def)
  have ms: "mset (slots (appendOrder p a t)) = mset (slots T) + {#a#}"
    using io m by (simp add: slots_def)
  have io2: "inorder (appendOrder p a t)
         = upd_level p (\<lambda>q. q @ [a]) (if p \<in> set (keys T) then inorder T else ins_level p (inorder T))"
    using c bt by (auto simp: inorder_appendOrder split: if_splits)
  show ?thesis using kp ok ms io2 c by (auto split: if_splits)
qed

lemma insert_null:
  assumes "tree_ok T" "insertL T p fl0 = Some (t, None, fl)"
  shows "tree_ok t \<and> inorder t = inorder T \<and> fl = fl0 \<and> fl0 = 0 \<and> p \<notin> set (keys T)"
proof -
  have aT: "avl T" and bT: "bst T" and nT: "nonempty_levels T" using assms(1) by (auto simp: tree_ok_def)
  from insertL_total[OF aT bT, of p fl0] assms(2) show ?thesis using nT
    by (auto simp: tree_ok_def nonempty_levels_def split: if_splits)
qed

text \<open>
  Unlinking an order from its level and removing the level when its head is null.
\<close>

lemma unlink_remove:
  assumes "tree_ok T" "unlink a k T = Some (q', t1)"
    "(if q' = [] then removeLimit t1 k fl0 else Some (t1, fl0)) = Some (t2, fl)"
  shows "tree_ok t2 \<and> mset (slots t2) + {#a#} = mset (slots T)
     \<and> (\<exists>l q r. inorder T = l @ (k, q) # r \<and> k \<notin> fst ` set l \<and> k \<notin> fst ` set r \<and> a \<in> set q
           \<and> q' = remove1 a q
           \<and> inorder t2 = (if q' = [] then l @ r else l @ (k, q') # r)
           \<and> fl = (if q' = [] then Suc fl0 else fl0))"
proof -
  have aT: "avl T" and bT: "bst T" and nT: "nonempty_levels T" using assms(1) by (auto simp: tree_ok_def)
  from assms(2) obtain q where f: "findLimit T k = Some q" and aq: "a \<in> set q"
    and q': "q' = remove1 a q" and t1: "t1 = setFifo k q' T"
    by (auto simp: unlink_def split: option.splits if_splits)
  from findLimit_Some_split[OF bT f] obtain l r where
    s: "inorder T = l @ (k, q) # r" "k \<notin> fst ` set l" "k \<notin> fst ` set r" by blast
  have io1: "inorder t1 = l @ (k, q') # r"
    using s bT t1 by (simp add: inorder_setFifo upd_level_id)
  have a1: "avl t1" and b1: "bst t1" using aT bT t1 by simp_all
  have ne: "[] \<notin> snd ` set l" "[] \<notin> snd ` set r" using nT s by (auto simp: nonempty_levels_def)
  have mq: "mset q' + {#a#} = mset q" using aq q' by simp
  show ?thesis
  proof (cases "q' = []")
    case True
    then have rl: "removeLimit t1 k fl0 = Some (t2, fl)" using assms(3) by simp
    from removeLimit_inorder[OF b1 rl] io1 s have io2: "inorder t2 = l @ r" and fl: "fl = Suc fl0"
      by (auto simp: del_level_id keys_def)
    have "tree_ok t2"
      using removeLimit_avl_Some[OF a1 rl] removeLimit_bst[OF b1 rl] io2 ne
      by (simp add: tree_ok_def nonempty_levels_def)
    moreover have "mset (slots t2) + {#a#} = mset (slots T)"
      using io2 s mq True by (simp add: slots_def)
    ultimately show ?thesis using s aq q' io2 fl True by auto
  next
    case False
    then have e: "t2 = t1" "fl = fl0" using assms(3) by auto
    have "tree_ok t2" using a1 b1 io1 ne False e by (simp add: tree_ok_def nonempty_levels_def)
    moreover have "mset (slots t2) + {#a#} = mset (slots T)"
      using io1 s mq e by (simp add: slots_def)
    ultimately show ?thesis using s aq q' io1 e False by auto
  qed
qed

lemma unlink_total:
  assumes "tree_ok T" "findLimit T k = Some q" "a \<in> set q"
  shows "\<exists>t1 t2 fl. unlink a k T = Some (remove1 a q, t1)
     \<and> (if remove1 a q = [] then removeLimit t1 k fl0 else Some (t1, fl0)) = Some (t2, fl)"
proof -
  have u: "unlink a k T = Some (remove1 a q, setFifo k (remove1 a q) T)"
    using assms(2,3) by (simp add: unlink_def)
  have "avl (setFifo k (remove1 a q) T)" using assms(1) by (simp add: tree_ok_def)
  from removeLimit_avl[OF this, of k fl0] u show ?thesis by auto
qed

section \<open>The invariant of the book through a submit\<close>

lemma trees_ok_setRestingRoot [simp]:
  "trees_ok (setRestingRoot sd t bk) \<longleftrightarrow>
     tree_ok t \<and> tree_ok (restingRoot (opposite sd) bk) \<and> tree_ok (stopBuyRoot bk) \<and> tree_ok (stopSellRoot bk)"
  by (cases sd) (auto simp: trees_ok_def)

lemma trees_ok_setStopRoot [simp]:
  "trees_ok (setStopRoot sd t bk) \<longleftrightarrow>
     tree_ok t \<and> tree_ok (stopRoot (opposite sd) bk) \<and> tree_ok (buyRoot bk) \<and> tree_ok (sellRoot bk)"
  by (cases sd) (auto simp: trees_ok_def)

lemma trees_ok_resting: "trees_ok bk \<Longrightarrow> tree_ok (restingRoot sd bk)"
  by (cases sd) (auto simp: trees_ok_def)

lemma trees_ok_stop: "trees_ok bk \<Longrightarrow> tree_ok (stopRoot sd bk)"
  by (cases sd) (auto simp: trees_ok_def)

lemma trees_ok_cong:
  "buyRoot bk' = buyRoot bk \<Longrightarrow> sellRoot bk' = sellRoot bk \<Longrightarrow> stopBuyRoot bk' = stopBuyRoot bk
   \<Longrightarrow> stopSellRoot bk' = stopSellRoot bk \<Longrightarrow> trees_ok bk' = trees_ok bk"
  by (simp add: trees_ok_def)

lemma trees_ok_avl: "trees_ok bk \<Longrightarrow> trees_avl bk"
  by (simp add: trees_ok_def trees_avl_def tree_ok_def)

lemma mset_all_slots_resting:
  "mset (all_slots bk) = mset (slots (restingRoot sd bk)) + mset (slots (restingRoot (opposite sd) bk))
     + mset (slots (stopBuyRoot bk)) + mset (slots (stopSellRoot bk)) + mset (fOrder bk)"
  by (cases sd) (simp_all add: all_slots_def)

lemma mset_all_slots_stop:
  "mset (all_slots bk) = mset (slots (stopRoot sd bk)) + mset (slots (stopRoot (opposite sd) bk))
     + mset (slots (buyRoot bk)) + mset (slots (sellRoot bk)) + mset (fOrder bk)"
  by (cases sd) (simp_all add: all_slots_def)

lemma stopRoot_setStopRoot [simp]:
  "stopRoot sd (setStopRoot sd T bk) = T"
  "stopRoot (opposite sd) (setStopRoot sd T bk) = stopRoot (opposite sd) bk"
  "stopRoot sd (setStopRoot (opposite sd) T bk) = stopRoot sd bk"
  "restingRoot sd' (setStopRoot sd T bk) = restingRoot sd' bk"
  "stopRoot sd' (setRestingRoot sd T bk) = stopRoot sd' bk"
  by (cases sd; cases sd'; simp)+

lemma stopRoot_fLimit [simp]: "stopRoot sd (bk\<lparr>fLimit := fl\<rparr>) = stopRoot sd bk"
  by (simp add: stopRoot_def)

lemma distinct_mset_cong: "mset xs = mset ys \<Longrightarrow> distinct xs = distinct ys"
  by (rule mset_eq_imp_distinct_iff)

lemma in_set_mset_cong: "mset xs = mset ys \<Longrightarrow> (a \<in> set xs) = (a \<in> set ys)"
  by (metis set_mset_mset)

text \<open>Taking an order node from the arena.\<close>

lemma getOrder_phase:
  assumes "book_inv bk" "getOrder i sd ty q p sp bk = Some (a, bk1)"
  shows "trees_ok bk1 \<and> mset (all_slots bk1) + {#a#} = mset (all_slots bk)
     \<and> distinct (all_slots bk1) \<and> a \<notin> set (all_slots bk1) \<and> fOrder bk = a # fOrder bk1"
proof -
  from assms(2) obtain fr where f: "fOrder bk = a # fr" "fOrder bk1 = fr"
    by (auto simp: getOrder_Some)
  note g = getOrder_trees[OF assms(2)]
  have t: "trees_ok bk1" using g assms(1) by (simp add: trees_ok_def book_inv_def)
  have m: "mset (all_slots bk1) + {#a#} = mset (all_slots bk)"
    using g f by (simp add: all_slots_def)
  have "distinct (all_slots bk)" using assms(1) by (simp add: book_inv_def)
  then have "distinct (a # all_slots bk1)"
    using m by (metis add_mset_add_single distinct_mset_cong mset.simps(2))
  then show ?thesis using t m f by simp
qed

text \<open>The matching loop, with the taker's node in hand.\<close>

lemma matchLoop_phase:
  assumes "trees_ok bk" "a \<notin> set (all_slots bk)"
  shows "\<exists>lp bk' lv' bkS. matchLoop a sd p lastp bk = Some (lp, bk')
     \<and> matchLevels a sd p (makerLevels sd bk) lastp bk = (lv', lp, bkS)
     \<and> makerLevels sd bk' = lv' \<and> trees_ok bk' \<and> mset (all_slots bk') = mset (all_slots bk)
     \<and> restingRoot sd bk' = restingRoot sd bk
     \<and> stopBuyRoot bk' = stopBuyRoot bk \<and> stopSellRoot bk' = stopSellRoot bk
     \<and> oPool bk' = oPool bkS \<and> tradeBuffer bk' = tradeBuffer bkS \<and> orderMap bk' = orderMap bkS
     \<and> stopOrderMap bk' = stopOrderMap bk \<and> generatedIdCounter bk' = generatedIdCounter bk
     \<and> stopChecks bk' = stopChecks bk
     \<and> fLimit bk' = fLimit bk + (length (makerLevels sd bk) - length lv')
     \<and> fOrder bk' = fOrder bkS"
proof -
  let ?T = "restingRoot (opposite sd) bk"
  let ?lv = "makerLevels sd bk"
  have ok: "tree_ok ?T" using trees_ok_resting[OF assms(1)] .
  then have aT: "avl ?T" and bT: "bst ?T" and nT: "nonempty_levels ?T" by (auto simp: tree_ok_def)
  have msl: "mset (concat (map snd ?lv)) = mset (slots ?T)"
    by (simp add: makerLevels_def mset_slots_levels_of)
  have "a \<notin> set (slots ?T)" using assms(2) by (cases sd) (auto simp: all_slots_def)
  then have na: "a \<notin> set (concat (map snd ?lv))" using in_set_mset_cong[OF msl] by simp
  obtain lv' lp bkS where ms: "matchLevels a sd p ?lv lastp bk = (lv', lp, bkS)"
    by (cases "matchLevels a sd p ?lv lastp bk")
  from matchLoop_refines[OF refl aT bT na ms] obtain T' where
    r: "matchLoop a sd p lastp bk =
          Some (lp, setRestingRoot (opposite sd) T' (bkS\<lparr>fLimit := fLimit bk + (length ?lv - length lv')\<rparr>))"
    and l': "levels_of sd T' = lv'" and a': "avl T'" and b': "bst T'" by blast
  let ?bk' = "setRestingRoot (opposite sd) T' (bkS\<lparr>fLimit := fLimit bk + (length ?lv - length lv')\<rparr>)"
  note fr = matchLevels_frame[OF ms]
  have ne': "nonempty_levels T'"
    using matchLevels_nonempty[OF ms] nT l'
    by (simp add: nonempty_levels_iff[of _ sd] makerLevels_def)
  have ok': "tree_ok T'" using a' b' ne' by (simp add: tree_ok_def)
  have own: "restingRoot sd bkS = restingRoot sd bk" using fr by (cases sd) auto
  have t': "trees_ok ?bk'" using ok' fr assms(1) own trees_ok_resting[OF assms(1), of sd]
    by (cases sd) (auto simp: trees_ok_def)
  have msl': "mset (slots T') = mset (concat (map snd lv'))"
    using l' mset_slots_levels_of[of sd T'] by simp
  have "mset (all_slots ?bk') = mset (all_slots bk)"
    using matchLevels_mset[OF ms] msl msl' fr own
    by (cases sd) (simp_all add: all_slots_def ac_simps)
  then show ?thesis using r ms l' t' fr own
    by (intro exI[of _ lp] exI[of _ ?bk'] exI[of _ lv'] exI[of _ bkS])
       (cases sd; simp add: makerLevels_def)
qed

section \<open>A submit keeps the invariant\<close>

lemma removeStops_oPool_static [simp]:
  "side (oPool (removeStops q bk) b) = side (oPool bk b)"
  "otype (oPool (removeStops q bk) b) = otype (oPool bk b)"
  "price (oPool (removeStops q bk) b) = price (oPool bk b)"
  "stopPrice (oPool (removeStops q bk) b) = stopPrice (oPool bk b)"
  by (induction q arbitrary: bk; simp)+

text \<open>The trigger pass, as a step of a submit.\<close>

lemma checkStopOrders_phase:
  assumes "trees_ok bk"
  shows "\<exists>bk'. checkStopOrders ep sd tr bk =
            Some (tr @ map (\<lambda>a. descriptor (oPool bk a)) (concat (map snd (firedLevels ep sd bk))), bk')
     \<and> trees_ok bk' \<and> mset (all_slots bk') = mset (all_slots bk)
     \<and> buyRoot bk' = buyRoot bk \<and> sellRoot bk' = sellRoot bk
     \<and> orderMap bk' = orderMap bk \<and> tradeBuffer bk' = tradeBuffer bk
     \<and> timestampCounter bk' = timestampCounter bk
     \<and> generatedIdCounter bk' = generatedIdCounter bk
     \<and> stopChecks bk' = stopChecks bk @ [(ep, sd)]
     \<and> (\<lambda>b. shares (oPool bk' b)) = (\<lambda>b. shares (oPool bk b))"
proof -
  have ok: "tree_ok (stopRoot sd bk)" using trees_ok_stop[OF assms] .
  then have aT: "avl (stopRoot sd bk)" and bT: "bst (stopRoot sd bk)"
    and nT: "nonempty_levels (stopRoot sd bk)" by (auto simp: tree_ok_def)
  let ?f = "concat (map snd (firedLevels ep sd bk))"
  let ?bk0 = "bk\<lparr>stopChecks := stopChecks bk @ [(ep, sd)]\<rparr>"
  from checkStopOrders_refines[OF aT bT, of ep tr] obtain T' where
    r: "checkStopOrders ep sd tr bk =
            Some (tr @ map (\<lambda>a. descriptor (oPool bk a)) ?f,
                  setStopRoot sd T' ((removeStops ?f ?bk0)\<lparr>fLimit := fLimit bk + length (firedLevels ep sd bk)\<rparr>))"
    and a': "avl T'" and b': "bst T'" and sub: "set (inorder T') \<subseteq> set (inorder (stopRoot sd bk))"
    and ms: "mset (slots T') + mset ?f = mset (slots (stopRoot sd bk))" by blast
  let ?bk' = "setStopRoot sd T' ((removeStops ?f ?bk0)\<lparr>fLimit := fLimit bk + length (firedLevels ep sd bk)\<rparr>)"
  have ok': "tree_ok T'" using a' b' sub nT by (auto simp: tree_ok_def nonempty_levels_def)
  have t': "trees_ok ?bk'" using ok' assms trees_ok_stop[OF assms, of "opposite sd"]
    by (cases sd) (auto simp: trees_ok_def)
  have m': "mset (all_slots ?bk') = mset (all_slots bk)"
    using ms by (cases sd) (simp_all add: all_slots_def ac_simps)
  show ?thesis using r t' m'
    by (intro exI[of _ ?bk']) simp
qed

text \<open>The residual of the taker: it rests, or its node goes back to the arena.\<close>

lemma restResidual_phase:
  assumes "trees_ok bk" "distinct (all_slots bk)" "a \<notin> set (all_slots bk)"
  shows "\<exists>tr' bk'. restResidual i sd ty p a tr bk = Some (tr', bk') \<and> book_inv bk'
     \<and> tradeBuffer bk' = tradeBuffer bk \<and> stopChecks bk' = stopChecks bk
     \<and> generatedIdCounter bk' = generatedIdCounter bk
     \<and> (tr' = tr \<or> tr' = [])
     \<and> (list_all (\<lambda>b. 0 < shares (oPool bk b)) (slots (buyRoot bk) @ slots (sellRoot bk))
           \<longrightarrow> resting_pos bk')"
proof (cases "0 < shares (oPool bk a) \<and> ty = Limit")
  case False
  have m: "mset (all_slots (recycleOrder a bk)) = mset (all_slots bk) + {#a#}"
    by (simp add: all_slots_def)
  have "distinct (all_slots (recycleOrder a bk))"
    using assms(2,3) by (simp add: all_slots_def)
  moreover have "trees_ok (recycleOrder a bk)" using assms(1) by (simp add: trees_ok_def)
  moreover have "list_all (\<lambda>b. 0 < shares (oPool bk b)) (slots (buyRoot bk) @ slots (sellRoot bk))
           \<longrightarrow> resting_pos (recycleOrder a bk)"
    by (auto simp: resting_pos_def list_all_iff)
  ultimately show ?thesis using False
    by (auto simp: restResidual_def book_inv_def)
next
  case True
  let ?T = "restingRoot sd bk"
  have ok: "tree_ok ?T" using trees_ok_resting[OF assms(1)] .
  then have aT: "avl ?T" and bT: "bst ?T" by (auto simp: tree_ok_def)
  from insertL_total[OF aT bT, of p "fLimit bk"] obtain t L fl where
    il: "insertL ?T p (fLimit bk) = Some (t, L, fl)" by blast
  let ?bk4 = "setRestingRoot sd t (bk\<lparr>fLimit := fl\<rparr>)"
  show ?thesis
  proof (cases L)
    case None
    from insert_null[OF ok il[unfolded None]] have tk: "tree_ok t" and io: "inorder t = inorder ?T" by auto
    have sl: "slots t = slots ?T" using io by (simp add: slots_def)
    have t4: "trees_ok ?bk4" using tk assms(1) trees_ok_resting[OF assms(1), of "opposite sd"]
      by (cases sd) (auto simp: trees_ok_def)
    have as: "all_slots ?bk4 = all_slots bk" using sl by (cases sd) (simp_all add: all_slots_def)
    have rp: "list_all (\<lambda>b. 0 < shares (oPool bk b)) (slots (buyRoot bk) @ slots (sellRoot bk))
           \<longrightarrow> resting_pos ?bk4"
      using sl by (cases sd) (auto simp: resting_pos_def)
    have "restResidual i sd ty p a tr bk = Some ([], ?bk4)"
      using True il None by (simp add: restResidual_def)
    then show ?thesis using t4 as assms(2) rp by (simp add: book_inv_def)
  next
    case (Some k)
    from insert_link[OF ok il[unfolded Some], of a] have kp: "k = p"
      and tk: "tree_ok (appendOrder p a t)"
      and ms: "mset (slots (appendOrder p a t)) = mset (slots ?T) + {#a#}" by auto
    let ?bk5 = "setRestingRoot sd (appendOrder p a t) ?bk4"
    let ?bk7 = "(linkTail a p ?bk5)\<lparr>orderMap := (orderMap (linkTail a p ?bk5))(i \<mapsto> a)\<rparr>"
    have r: "restResidual i sd ty p a tr bk = Some (tr, ?bk7)"
      using True il Some kp by (simp add: restResidual_def Let_def)
    have t7: "trees_ok ?bk7" using tk assms(1) trees_ok_resting[OF assms(1), of "opposite sd"]
      by (cases sd) (auto simp: trees_ok_def)
    have m7: "mset (all_slots ?bk7) = mset (all_slots bk) + {#a#}"
      using ms by (cases sd) (simp_all add: all_slots_def)
    have "distinct (a # all_slots bk)" using assms(2,3) by simp
    then have d7: "distinct (all_slots ?bk7)"
      using m7 by (metis add_mset_add_single distinct_mset_cong mset.simps(2))
    have rp: "list_all (\<lambda>b. 0 < shares (oPool bk b)) (slots (buyRoot bk) @ slots (sellRoot bk))
           \<longrightarrow> resting_pos ?bk7"
    proof
      assume h: "list_all (\<lambda>b. 0 < shares (oPool bk b)) (slots (buyRoot bk) @ slots (sellRoot bk))"
      have "set (slots (appendOrder p a t)) = set (slots ?T) \<union> {a}"
        using ms by (metis Un_insert_right set_mset_mset sup_bot.right_neutral union_single_eq_member
            set_mset_union set_mset_add_mset_insert set_mset_empty add_mset_add_single)
      then show "resting_pos ?bk7" using h True
        by (cases sd) (auto simp: resting_pos_def list_all_iff)
    qed
    show ?thesis using r t7 d7 rp by (simp add: book_inv_def)
  qed
qed


lemma armStop_phase:
  assumes "trees_ok bk" "distinct (all_slots bk)" "a \<notin> set (all_slots bk)"
  shows "\<exists>bk'. armStop i sd sp a bk = Some bk' \<and> book_inv bk'
     \<and> tradeBuffer bk' = tradeBuffer bk \<and> stopChecks bk' = stopChecks bk
     \<and> generatedIdCounter bk' = generatedIdCounter bk
     \<and> buyRoot bk' = buyRoot bk \<and> sellRoot bk' = sellRoot bk
     \<and> (\<lambda>b. shares (oPool bk' b)) = (\<lambda>b. shares (oPool bk b))"
proof -
  let ?T = "stopRoot sd bk"
  have ok: "tree_ok ?T" using trees_ok_stop[OF assms(1)] .
  then have aT: "avl ?T" and bT: "bst ?T" by (auto simp: tree_ok_def)
  from insertL_total[OF aT bT, of sp "fLimit bk"] obtain t L fl where
    il: "insertL ?T sp (fLimit bk) = Some (t, L, fl)" by blast
  let ?bk2 = "setStopRoot sd t (bk\<lparr>fLimit := fl\<rparr>)"
  show ?thesis
  proof (cases L)
    case None
    from insert_null[OF ok il[unfolded None]] have tk: "tree_ok t" and io: "inorder t = inorder ?T" by auto
    have sl: "slots t = slots ?T" using io by (simp add: slots_def)
    have t4: "trees_ok ?bk2" using tk assms(1) trees_ok_stop[OF assms(1), of "opposite sd"]
      by (cases sd) (auto simp: trees_ok_def)
    have as: "all_slots ?bk2 = all_slots bk" using sl by (cases sd) (simp_all add: all_slots_def)
    have "armStop i sd sp a bk = Some ?bk2"
      using il None by (simp add: armStop_def)
    then show ?thesis using t4 as assms(2) by (simp add: book_inv_def)
  next
    case (Some k)
    from insert_link[OF ok il[unfolded Some], of a] have kp: "k = sp"
      and tk: "tree_ok (appendOrder sp a t)"
      and ms: "mset (slots (appendOrder sp a t)) = mset (slots ?T) + {#a#}" by auto
    let ?bk3 = "setStopRoot sd (appendOrder sp a t) ?bk2"
    let ?bk5 = "(linkTail a sp ?bk3)\<lparr>stopOrderMap := (stopOrderMap (linkTail a sp ?bk3))(i \<mapsto> a)\<rparr>"
    have r: "armStop i sd sp a bk = Some ?bk5"
      using il Some kp by (simp add: armStop_def Let_def)
    have t7: "trees_ok ?bk5" using tk assms(1) trees_ok_stop[OF assms(1), of "opposite sd"]
      by (cases sd) (auto simp: trees_ok_def)
    have m7: "mset (all_slots ?bk5) = mset (all_slots bk) + {#a#}"
      using ms by (cases sd) (simp_all add: all_slots_def)
    have "distinct (a # all_slots bk)" using assms(2,3) by simp
    then have d7: "distinct (all_slots ?bk5)"
      using m7 by (metis add_mset_add_single distinct_mset_cong mset.simps(2))
    have sh: "(\<lambda>b. shares (oPool ?bk5 b)) = (\<lambda>b. shares (oPool bk b))"
      by (rule ext) simp
    show ?thesis using r t7 d7 sh by (simp add: book_inv_def)
  qed
qed

lemma resting_pos_cong:
  "buyRoot bk' = buyRoot bk \<Longrightarrow> sellRoot bk' = sellRoot bk \<Longrightarrow>
   (\<lambda>b. shares (oPool bk' b)) = (\<lambda>b. shares (oPool bk b)) \<Longrightarrow> resting_pos bk' = resting_pos bk"
  by (simp add: resting_pos_def list_all_iff) (metis)

lemma resting_pos_split:
  "resting_pos bk \<longleftrightarrow> list_all (\<lambda>b. 0 < shares (oPool bk b)) (slots (restingRoot sd bk))
                   \<and> list_all (\<lambda>b. 0 < shares (oPool bk b)) (slots (restingRoot (opposite sd) bk))"
  by (cases sd) (auto simp: resting_pos_def)

lemma list_all_mset_cong: "mset xs = mset ys \<Longrightarrow> list_all P xs = list_all P ys"
  by (metis list_all_iff set_mset_mset)

lemma matchLoop_phase_pos:
  assumes "trees_ok bk" "distinct (all_slots bk)" "a \<notin> set (all_slots bk)" "resting_pos bk"
    "matchLoop a sd p lastp bk = Some (lp, bk')"
  shows "resting_pos bk'"
proof -
  from matchLoop_phase[OF assms(1,3), of sd p lastp] assms(5) obtain lv' bkS where
    ms: "matchLevels a sd p (makerLevels sd bk) lastp bk = (lv', lp, bkS)"
    and ml: "makerLevels sd bk' = lv'" and own: "restingRoot sd bk' = restingRoot sd bk"
    and op: "oPool bk' = oPool bkS" by auto
  let ?lv = "makerLevels sd bk"
  have msl: "mset (concat (map snd ?lv)) = mset (slots (restingRoot (opposite sd) bk))"
    by (simp add: makerLevels_def mset_slots_levels_of)
  have msl': "mset (concat (map snd lv')) = mset (slots (restingRoot (opposite sd) bk'))"
    using ml mset_slots_levels_of[of sd "restingRoot (opposite sd) bk'"] by (auto simp: makerLevels_def)
  have d: "distinct (slots (restingRoot sd bk) @ slots (restingRoot (opposite sd) bk))"
    using assms(2) by (cases sd) (auto simp: all_slots_def)
  have na: "a \<notin> set (slots (restingRoot sd bk))" "a \<notin> set (slots (restingRoot (opposite sd) bk))"
    using assms(3) by (cases sd; auto simp: all_slots_def)+
  have p: "list_all (\<lambda>b. 0 < shares (oPool bk b)) (slots (restingRoot sd bk))"
    "list_all (\<lambda>b. 0 < shares (oPool bk b)) (slots (restingRoot (opposite sd) bk))"
    using assms(4) resting_pos_split[of bk sd] by auto
  have na': "a \<notin> set (concat (map snd ?lv))" using na(2) in_set_mset_cong[OF msl] by simp
  have d': "distinct (concat (map snd ?lv))" using d distinct_mset_cong[OF msl] by simp
  have p': "list_all (\<lambda>b. 0 < shares (oPool bk b)) (concat (map snd ?lv))"
    using p(2) list_all_mset_cong[OF msl] by simp
  have opp: "list_all (\<lambda>b. 0 < shares (oPool bk' b)) (slots (restingRoot (opposite sd) bk'))"
    using matchLevels_pos[OF ms na' d' p'] op list_all_mset_cong[OF msl'] by simp
  have "\<And>b. b \<in> set (slots (restingRoot sd bk)) \<Longrightarrow> oPool bkS b = oPool bk b"
  proof -
    fix b assume b: "b \<in> set (slots (restingRoot sd bk))"
    then have "b \<noteq> a" using na(1) by auto
    moreover have "b \<notin> set (concat (map snd ?lv))"
      using b d in_set_mset_cong[OF msl] by auto
    ultimately show "oPool bkS b = oPool bk b" using matchLevels_other[OF ms] by simp
  qed
  then have ownp: "list_all (\<lambda>b. 0 < shares (oPool bk' b)) (slots (restingRoot sd bk'))"
    using p(1) own op by (simp add: list_all_iff)
  show ?thesis using opp ownp resting_pos_split[of bk' sd] by simp
qed

text \<open>
  \<open>processOrderInternal\<close> up to its last loop returns and keeps the invariant of the
  book, and resting orders keep positive share counts.
\<close>

lemma processBody_inv:
  assumes "book_inv bk"
  shows "\<exists>tr bk'. processBody i sd ty q p sp cs bk = Some (tr, bk') \<and> book_inv bk'
     \<and> (resting_pos bk \<longrightarrow> resting_pos bk')"
proof (cases "getOrder i sd ty q p sp bk")
  case None
  then show ?thesis using assms by (auto simp: processBody_def)
next
  case (Some x)
  obtain a bk1 where x: "x = (a, bk1)" by (cases x)
  note g = Some[unfolded x]
  from getOrder_phase[OF assms g] have t1: "trees_ok bk1" and d1: "distinct (all_slots bk1)"
    and n1: "a \<notin> set (all_slots bk1)" and m1: "mset (all_slots bk1) + {#a#} = mset (all_slots bk)"
    by auto
  note gt = getOrder_trees[OF g]
  have nr: "a \<notin> set (slots (buyRoot bk) @ slots (sellRoot bk))"
    using n1 gt by (auto simp: all_slots_def)
  have p1: "resting_pos bk \<Longrightarrow> resting_pos bk1"
    using g gt nr unfolding resting_pos_def list_all_iff getOrder_Some by auto
  show ?thesis
  proof (cases "ty = Stop \<or> ty = StopLimit")
    case True
    from armStop_phase[OF t1 d1 n1, of i sd sp] obtain bk' where
      ar: "armStop i sd sp a bk1 = Some bk'" and inv: "book_inv bk'"
      and fr: "buyRoot bk' = buyRoot bk1" "sellRoot bk' = sellRoot bk1"
        "(\<lambda>b. shares (oPool bk' b)) = (\<lambda>b. shares (oPool bk1 b))" by blast
    have "processBody i sd ty q p sp cs bk = Some ([], bk')"
      using True g ar by (auto simp: processBody_def)
    then show ?thesis using inv p1 resting_pos_cong[OF fr] by auto
  next
    case False
    from matchLoop_phase[OF t1 n1, of sd p 0] obtain lp bk2 where
      ml: "matchLoop a sd p 0 bk1 = Some (lp, bk2)" and t2: "trees_ok bk2"
      and m2: "mset (all_slots bk2) = mset (all_slots bk1)" by blast
    have d2: "distinct (all_slots bk2)" and n2: "a \<notin> set (all_slots bk2)"
      using d1 n1 distinct_mset_cong[OF m2] in_set_mset_cong[OF m2] by auto
    have p2: "resting_pos bk1 \<Longrightarrow> resting_pos bk2"
      using matchLoop_phase_pos[OF t1 d1 n1 _ ml] .
    obtain tr3 bk3 where
      cso: "(if cs \<and> 0 < lp then checkStopOrders lp sd [] bk2 else Some ([], bk2)) = Some (tr3, bk3)"
      and t3: "trees_ok bk3" and m3: "mset (all_slots bk3) = mset (all_slots bk2)"
      and fr3: "buyRoot bk3 = buyRoot bk2" "sellRoot bk3 = sellRoot bk2"
        "(\<lambda>b. shares (oPool bk3 b)) = (\<lambda>b. shares (oPool bk2 b))"
    proof (cases "cs \<and> 0 < lp")
      case True
      from checkStopOrders_phase[OF t2, of lp sd "[]"] True that show ?thesis by auto
    next
      case False
      then show ?thesis using that[of "[]" bk2] t2 by auto
    qed
    have d3: "distinct (all_slots bk3)" and n3: "a \<notin> set (all_slots bk3)"
      using d2 n2 distinct_mset_cong[OF m3] in_set_mset_cong[OF m3] by auto
    have p3: "resting_pos bk2 \<Longrightarrow> resting_pos bk3" using resting_pos_cong[OF fr3] by simp
    from restResidual_phase[OF t3 d3 n3, of i sd ty p tr3] obtain tr bk' where
      rr: "restResidual i sd ty p a tr3 bk3 = Some (tr, bk')" and inv: "book_inv bk'"
      and p4: "list_all (\<lambda>b. 0 < shares (oPool bk3 b)) (slots (buyRoot bk3) @ slots (sellRoot bk3))
           \<longrightarrow> resting_pos bk'" by blast
    have "processBody i sd ty q p sp cs bk = Some (tr, bk')"
      using False g ml cso rr by (auto simp: processBody_def)
    then show ?thesis using inv p1 p2 p3 p4 by (auto simp: resting_pos_def)
  qed
qed


text \<open>
  The matching path of a submit, step by step: the matching loop computes
  \<open>matchLevels\<close> on the levels of the opposite side, the trigger pass is called when
  \<open>checkStops\<close> holds and \<open>lastExecutedPrice\<close> is positive, and no report is pushed
  after the matching loop.
\<close>

lemma processBody_match:
  assumes "book_inv bk" "ty \<noteq> Stop" "ty \<noteq> StopLimit" "getOrder i sd ty q p sp bk = Some (a, bk1)"
  shows "\<exists>lp bk2 lv' bkS tr bk'.
       matchLoop a sd p 0 bk1 = Some (lp, bk2)
     \<and> matchLevels a sd p (makerLevels sd bk) 0 bk1 = (lv', lp, bkS)
     \<and> makerLevels sd bk2 = lv' \<and> oPool bk2 = oPool bkS
     \<and> processBody i sd ty q p sp cs bk = Some (tr, bk')
     \<and> tradeBuffer bk' = tradeBuffer bkS
     \<and> stopChecks bk' = stopChecks bk @ (if cs \<and> 0 < lp then [(lp, sd)] else [])
     \<and> (if cs \<and> 0 < lp then True else tr = [])
     \<and> generatedIdCounter bk' = generatedIdCounter bk
     \<and> book_inv bk'"
proof -
  note g = assms(4)
  from getOrder_phase[OF assms(1) g] have t1: "trees_ok bk1" and d1: "distinct (all_slots bk1)"
    and n1: "a \<notin> set (all_slots bk1)" by auto
  note gt = getOrder_trees[OF g]
  have lv1: "makerLevels sd bk1 = makerLevels sd bk"
    using gt by (cases sd) (simp_all add: makerLevels_def)
  from matchLoop_phase[OF t1 n1, of sd p 0] obtain lp bk2 lv' bkS where
    ml: "matchLoop a sd p 0 bk1 = Some (lp, bk2)"
    and ms: "matchLevels a sd p (makerLevels sd bk1) 0 bk1 = (lv', lp, bkS)"
    and l2: "makerLevels sd bk2 = lv'" and t2: "trees_ok bk2"
    and m2: "mset (all_slots bk2) = mset (all_slots bk1)"
    and o2: "oPool bk2 = oPool bkS" and tb2: "tradeBuffer bk2 = tradeBuffer bkS"
    and sc2: "stopChecks bk2 = stopChecks bk1" and gc2: "generatedIdCounter bk2 = generatedIdCounter bk1"
    by blast
  have d2: "distinct (all_slots bk2)" and n2: "a \<notin> set (all_slots bk2)"
    using d1 n1 distinct_mset_cong[OF m2] in_set_mset_cong[OF m2] by auto
  obtain tr3 bk3 where
    cso: "(if cs \<and> 0 < lp then checkStopOrders lp sd [] bk2 else Some ([], bk2)) = Some (tr3, bk3)"
    and t3: "trees_ok bk3" and m3: "mset (all_slots bk3) = mset (all_slots bk2)"
    and tb3: "tradeBuffer bk3 = tradeBuffer bk2"
    and sc3: "stopChecks bk3 = stopChecks bk2 @ (if cs \<and> 0 < lp then [(lp, sd)] else [])"
    and gc3: "generatedIdCounter bk3 = generatedIdCounter bk2"
    and tr3: "if cs \<and> 0 < lp then True else tr3 = []"
  proof (cases "cs \<and> 0 < lp")
    case True
    from checkStopOrders_phase[OF t2, of lp sd "[]"] True that show ?thesis by auto
  next
    case False
    then show ?thesis using that[of "[]" bk2] t2 by auto
  qed
  have d3: "distinct (all_slots bk3)" and n3: "a \<notin> set (all_slots bk3)"
    using d2 n2 distinct_mset_cong[OF m3] in_set_mset_cong[OF m3] by auto
  from restResidual_phase[OF t3 d3 n3, of i sd ty p tr3] obtain tr bk' where
    rr: "restResidual i sd ty p a tr3 bk3 = Some (tr, bk')" and inv: "book_inv bk'"
    and tb4: "tradeBuffer bk' = tradeBuffer bk3" and sc4: "stopChecks bk' = stopChecks bk3"
    and gc4: "generatedIdCounter bk' = generatedIdCounter bk3"
    and tr4: "tr = tr3 \<or> tr = []" by blast
  have pb: "processBody i sd ty q p sp cs bk = Some (tr, bk')"
    using assms(2,3) g ml cso rr by (auto simp: processBody_def)
  have tr': "if cs \<and> 0 < lp then True else tr = []" using tr3 tr4 by (auto split: if_splits)
  show ?thesis
    using ml ms[unfolded lv1] l2 o2 pb tb2 tb3 tb4 sc2 sc3 sc4 gc2 gc3 gc4 gt tr' inv
    by (intro exI[of _ lp] exI[of _ bk2] exI[of _ lv'] exI[of _ bkS] exI[of _ tr] exI[of _ bk']) simp
qed

lemma processBody_stop:
  assumes "book_inv bk" "ty = Stop \<or> ty = StopLimit"
  shows "\<exists>bk'. processBody i sd ty q p sp cs bk = Some ([], bk') \<and> book_inv bk'
     \<and> tradeBuffer bk' = tradeBuffer bk \<and> stopChecks bk' = stopChecks bk
     \<and> generatedIdCounter bk' = generatedIdCounter bk"
proof (cases "getOrder i sd ty q p sp bk")
  case None
  then show ?thesis using assms by (auto simp: processBody_def)
next
  case (Some x)
  obtain a bk1 where x: "x = (a, bk1)" by (cases x)
  note g = Some[unfolded x]
  from getOrder_phase[OF assms(1) g] have t1: "trees_ok bk1" and d1: "distinct (all_slots bk1)"
    and n1: "a \<notin> set (all_slots bk1)" by auto
  note gt = getOrder_trees[OF g]
  from armStop_phase[OF t1 d1 n1, of i sd sp] obtain bk' where
    ar: "armStop i sd sp a bk1 = Some bk'" and inv: "book_inv bk'"
    and fr: "tradeBuffer bk' = tradeBuffer bk1" "stopChecks bk' = stopChecks bk1"
      "generatedIdCounter bk' = generatedIdCounter bk1" by blast
  have "processBody i sd ty q p sp cs bk = Some ([], bk')"
    using assms(2) g ar by (auto simp: processBody_def)
  then show ?thesis using inv fr gt by simp
qed

text \<open>A re-entry with \<open>checkStops = false\<close> collects no stops and does not call the
  trigger pass.\<close>

lemma processBody_no_checkStops:
  assumes "book_inv bk"
  shows "\<exists>bk'. processBody i sd ty q p sp False bk = Some ([], bk') \<and> book_inv bk'
     \<and> stopChecks bk' = stopChecks bk \<and> (resting_pos bk \<longrightarrow> resting_pos bk')"
proof -
  from processBody_inv[OF assms, of i sd ty q p sp False] obtain tr bk' where
    pb: "processBody i sd ty q p sp False bk = Some (tr, bk')" and inv: "book_inv bk'"
    and rp: "resting_pos bk \<longrightarrow> resting_pos bk'" by blast
  have "tr = [] \<and> stopChecks bk' = stopChecks bk"
  proof (cases "ty = Stop \<or> ty = StopLimit")
    case True
    from processBody_stop[OF assms True, of i sd q p sp False] pb show ?thesis by auto
  next
    case False
    show ?thesis
    proof (cases "getOrder i sd ty q p sp bk")
      case None
      then show ?thesis using pb False by (auto simp: processBody_def)
    next
      case (Some x)
      obtain a bk1 where x: "x = (a, bk1)" by (cases x)
      from processBody_match[OF assms _ _ Some[unfolded x], of False] False pb
      show ?thesis by auto
    qed
  qed
  then show ?thesis using pb inv rp by auto
qed

lemma resubmitStops_inv:
  "book_inv bk \<Longrightarrow> \<exists>bk'. resubmitStops trs bk = Some bk' \<and> book_inv bk'
     \<and> stopChecks bk' = stopChecks bk \<and> (resting_pos bk \<longrightarrow> resting_pos bk')"
proof (induction trs arbitrary: bk)
  case Nil
  then show ?case by simp
next
  case (Cons ts rest)
  let ?bk1 = "bk\<lparr>generatedIdCounter := generatedIdCounter bk + 1\<rparr>"
  have i1: "book_inv ?bk1" using Cons.prems by (simp add: book_inv_def trees_ok_def all_slots_def)
  have r1: "resting_pos ?bk1 = resting_pos bk" by (simp add: resting_pos_def)
  from processBody_no_checkStops[OF i1, of "generatedIdCounter bk" "ts_side ts" "convertToType ts"
      "ts_shares ts" "limitPrice ts" 0]
  obtain bk2 where pb: "processBody (generatedIdCounter bk) (ts_side ts) (convertToType ts)
      (ts_shares ts) (limitPrice ts) 0 False ?bk1 = Some ([], bk2)" and i2: "book_inv bk2"
    and s2: "stopChecks bk2 = stopChecks ?bk1" and p2: "resting_pos ?bk1 \<longrightarrow> resting_pos bk2"
    by blast
  from Cons.IH[OF i2] obtain bk' where rs: "resubmitStops rest bk2 = Some bk'" and i': "book_inv bk'"
    and s': "stopChecks bk' = stopChecks bk2" and p': "resting_pos bk2 \<longrightarrow> resting_pos bk'" by blast
  have "resubmitStops (ts # rest) bk = Some bk'" using pb rs by (simp add: Let_def)
  then show ?case using i' s' s2 p' p2 r1 by auto
qed

text \<open>A submit returns and keeps the invariant of the book.\<close>

lemma processOrder_inv:
  assumes "book_inv bk"
  shows "\<exists>bk'. processOrder i sd ty q p sp bk = Some bk' \<and> book_inv bk'
     \<and> (resting_pos bk \<longrightarrow> resting_pos bk')"
proof -
  from processBody_inv[OF assms, of i sd ty q p sp True] obtain tr bk1 where
    pb: "processBody i sd ty q p sp True bk = Some (tr, bk1)" and i1: "book_inv bk1"
    and p1: "resting_pos bk \<longrightarrow> resting_pos bk1" by blast
  from resubmitStops_inv[OF i1, of tr] obtain bk' where rs: "resubmitStops tr bk1 = Some bk'"
    and i': "book_inv bk'" and p': "resting_pos bk1 \<longrightarrow> resting_pos bk'" by blast
  have "processOrder i sd ty q p sp bk = Some bk'"
    using pb rs by (simp add: processOrder_def processOrderInternal_def)
  then show ?thesis using i' p1 p' by auto
qed

section \<open>Cancel, modify and runs keep the invariant\<close>

lemma set_of_mset_add:
  assumes "mset xs + {#a#} = mset ys"
  shows "set ys = insert a (set xs)"
proof -
  have "set_mset (mset ys) = set_mset (mset xs + {#a#})" using assms by simp
  then show ?thesis by simp
qed

lemma distinct_of_mset_add:
  assumes "mset xs + {#a#} = mset ys" "distinct ys"
  shows "distinct xs \<and> a \<notin> set xs"
proof -
  have "mset (a # xs) = mset ys" using assms(1) by simp
  then have "distinct (a # xs)" using assms(2) distinct_mset_cong by blast
  then show ?thesis by simp
qed

text \<open>A cancel that returns keeps the invariant of the book.\<close>

lemma cancelOrder_inv:
  assumes "book_inv bk" "cancelOrder i bk = Some (ok, bk')"
  shows "book_inv bk' \<and> (resting_pos bk \<longrightarrow> resting_pos bk')"
proof (cases "orderMap bk i")
  case (Some a)
  let ?sd = "side (oPool bk a)"
  let ?T = "restingRoot ?sd bk"
  from assms(2) Some obtain k q' t1 t2 fl where
    ul: "unlink a k ?T = Some (q', t1)"
    and rl: "(if q' = [] then removeLimit t1 k (fLimit bk) else Some (t1, fLimit bk)) = Some (t2, fl)"
    and bk': "bk' = recycleOrder a ((setRestingRoot ?sd t2 (bk\<lparr>fLimit := fl\<rparr>))
                      \<lparr>orderMap := (orderMap (setRestingRoot ?sd t2 (bk\<lparr>fLimit := fl\<rparr>)))(i := None)\<rparr>)"
    by (auto simp: cancelOrder_def Let_def split: option.splits bind_splits)
  have tk: "trees_ok bk" and d: "distinct (all_slots bk)" using assms(1) by (auto simp: book_inv_def)
  from unlink_remove[OF trees_ok_resting[OF tk] ul rl] have ok2: "tree_ok t2"
    and ms: "mset (slots t2) + {#a#} = mset (slots ?T)" by auto
  have t': "trees_ok bk'" unfolding bk' using ok2 tk trees_ok_resting[OF tk, of "opposite ?sd"]
    by (cases ?sd) (auto simp: trees_ok_def)
  have m': "mset (all_slots bk') = mset (all_slots bk)"
    unfolding bk' using ms by (cases ?sd) (auto simp: all_slots_def)
  have sub: "set (slots t2) \<subseteq> set (slots ?T)" using set_of_mset_add[OF ms] by auto
  have rp: "resting_pos bk \<longrightarrow> resting_pos bk'"
    unfolding bk' using sub by (cases ?sd) (auto simp: resting_pos_def list_all_iff)
  show ?thesis using t' m' d distinct_mset_cong[OF m'] rp by (simp add: book_inv_def)
next
  case None
  show ?thesis
  proof (cases "stopOrderMap bk i")
    case n2: None
    then show ?thesis using assms None by (simp add: cancelOrder_def)
  next
    case (Some a)
    let ?sd = "side (oPool bk a)"
    let ?T = "stopRoot ?sd bk"
    from assms(2) None Some obtain k q' t1 t2 fl where
      ul: "unlink a k ?T = Some (q', t1)"
      and rl: "(if q' = [] then removeLimit t1 k (fLimit bk) else Some (t1, fLimit bk)) = Some (t2, fl)"
      and bk': "bk' = recycleOrder a ((setStopRoot ?sd t2 (bk\<lparr>fLimit := fl\<rparr>))
                        \<lparr>stopOrderMap := (stopOrderMap (setStopRoot ?sd t2 (bk\<lparr>fLimit := fl\<rparr>)))(i := None)\<rparr>)"
      by (auto simp: cancelOrder_def Let_def split: option.splits bind_splits)
    have tk: "trees_ok bk" and d: "distinct (all_slots bk)" using assms(1) by (auto simp: book_inv_def)
    from unlink_remove[OF trees_ok_stop[OF tk] ul rl] have ok2: "tree_ok t2"
      and ms: "mset (slots t2) + {#a#} = mset (slots ?T)" by auto
    have t': "trees_ok bk'" unfolding bk' using ok2 tk trees_ok_stop[OF tk, of "opposite ?sd"]
      by (cases ?sd) (auto simp: trees_ok_def)
    have m': "mset (all_slots bk') = mset (all_slots bk)"
      unfolding bk' using ms by (cases ?sd) (auto simp: all_slots_def)
    have rp: "resting_pos bk \<longrightarrow> resting_pos bk'"
      unfolding bk' by (cases ?sd) (auto simp: resting_pos_def list_all_iff)
    show ?thesis using t' m' d distinct_mset_cong[OF m'] rp by (simp add: book_inv_def)
  qed
qed

text \<open>
  A modify that returns keeps the invariant of the book; with a positive new quantity,
  resting orders keep positive share counts.
\<close>

lemma modifyOrder_inv:
  assumes "book_inv bk" "modifyOrder i nq np bk = Some (ok, bk')"
  shows "book_inv bk' \<and> (0 < nq \<longrightarrow> resting_pos bk \<longrightarrow> resting_pos bk')"
proof (cases "orderMap bk i")
  case None
  then show ?thesis using assms by (simp add: modifyOrder_def)
next
  case (Some a)
  have tk: "trees_ok bk" and d: "distinct (all_slots bk)" using assms(1) by (auto simp: book_inv_def)
  show ?thesis
  proof (cases "np = price (oPool bk a)")
    case True
    then have bk': "bk' = setShares a nq bk" using assms(2) Some by (simp add: modifyOrder_def)
    have "book_inv bk'" unfolding bk' using assms(1)
      by (simp add: book_inv_def trees_ok_def all_slots_def)
    moreover have "0 < nq \<longrightarrow> resting_pos bk \<longrightarrow> resting_pos bk'"
      unfolding bk' by (auto simp: resting_pos_def list_all_iff)
    ultimately show ?thesis by simp
  next
    case False
    let ?sd = "side (oPool bk a)"
    let ?T = "restingRoot ?sd bk"
    from assms(2) Some False obtain k q' t1 t2 fl t3 nl fl' where
      pl: "parentLimit (oPool bk a) = Some k"
      and ul: "unlink a k ?T = Some (q', t1)"
      and rl: "(if q' = [] then removeLimit t1 k (fLimit bk) else Some (t1, fLimit bk)) = Some (t2, fl)"
      and il: "insertL t2 np fl = Some (t3, nl, fl')"
      by (auto simp: modifyOrder_def Let_def split: option.splits bind_splits)
    let ?bk1 = "bk\<lparr>oPool := (oPool bk)(a := (oPool bk a)\<lparr>price := np, shares := nq\<rparr>), fLimit := fl'\<rparr>"
    let ?bk2 = "setRestingRoot ?sd t3 ?bk1"
    have res: "modifyOrder i nq np bk =
            (case nl of None \<Rightarrow> Some (False, ?bk2)
             | Some k' \<Rightarrow> Some (True, linkTail a k' (setRestingRoot ?sd (appendOrder k' a (restingRoot ?sd ?bk2)) ?bk2)))"
      using Some False pl ul rl il by (simp add: modifyOrder_def Let_def)
    from unlink_remove[OF trees_ok_resting[OF tk] ul rl] have ok2: "tree_ok t2"
      and ms: "mset (slots t2) + {#a#} = mset (slots ?T)" by auto
    have dT: "distinct (slots ?T)" using d by (cases ?sd) (auto simp: all_slots_def)
    from distinct_of_mset_add[OF ms dT] have na2: "a \<notin> set (slots t2)" by simp
    have sT: "set (slots ?T) = insert a (set (slots t2))" using set_of_mset_add[OF ms] .
    have naO: "a \<notin> set (slots (restingRoot (opposite ?sd) bk))"
      using d sT by (cases ?sd) (auto simp: all_slots_def)
    show ?thesis
    proof (cases nl)
      case None
      then have bk': "bk' = ?bk2" using res assms(2) by simp
      from insert_null[OF ok2 il[unfolded None]] have ok3: "tree_ok t3" and io: "inorder t3 = inorder t2"
        by auto
      have s3: "slots t3 = slots t2" using io by (simp add: slots_def)
      have t': "trees_ok bk'" unfolding bk' using ok3 tk trees_ok_resting[OF tk, of "opposite ?sd"]
        by (cases ?sd) (auto simp: trees_ok_def)
      have m': "mset (all_slots bk') + {#a#} = mset (all_slots bk)"
        unfolding bk' using ms s3 by (cases ?sd) (auto simp: all_slots_def)
      have d': "distinct (all_slots bk')" using distinct_of_mset_add[OF m' d] by simp
      have rp: "resting_pos bk \<longrightarrow> resting_pos bk'"
        unfolding bk' using s3 sT na2 naO
        by (cases ?sd) (auto simp: resting_pos_def list_all_iff)
      show ?thesis using t' d' rp by (simp add: book_inv_def)
    next
      case (Some k')
      from insert_link[OF ok2 il[unfolded Some], of a] have kp: "k' = np"
        and ok4: "tree_ok (appendOrder np a t3)"
        and ms4: "mset (slots (appendOrder np a t3)) = mset (slots t2) + {#a#}" by auto
      have bk': "bk' = linkTail a np (setRestingRoot ?sd (appendOrder np a t3) ?bk2)"
        using res assms(2) Some kp by simp
      have t': "trees_ok bk'" unfolding bk' using ok4 tk trees_ok_resting[OF tk, of "opposite ?sd"]
        by (cases ?sd) (auto simp: trees_ok_def)
      have m': "mset (all_slots bk') = mset (all_slots bk)"
        unfolding bk' using ms ms4 by (cases ?sd) (auto simp: all_slots_def)
      have s4: "set (slots (appendOrder np a t3)) = set (slots ?T)"
        using ms ms4 by (metis set_mset_mset)
      have rp: "0 < nq \<longrightarrow> resting_pos bk \<longrightarrow> resting_pos bk'"
        unfolding bk' using s4
        by (cases ?sd) (auto simp: resting_pos_def list_all_iff)
      show ?thesis using t' m' d distinct_mset_cong[OF m'] rp by (simp add: book_inv_def)
    qed
  qed
qed

lemma book_inv_newBook: "book_inv (newBook n)"
  by (simp add: book_inv_def trees_ok_def all_slots_def newBook_def slots_def)


lemma act_inv:
  assumes "book_inv bk" "act x bk = Some bk'"
  shows "book_inv bk' \<and> (positive_modify x \<longrightarrow> resting_pos bk \<longrightarrow> resting_pos bk')"
proof (cases x)
  case (Submit i sd ty q p sp)
  from processOrder_inv[OF assms(1), of i sd ty q p sp] assms(2) Submit show ?thesis by auto
next
  case (Cancel i)
  then obtain ok where "cancelOrder i bk = Some (ok, bk')" using assms(2) by auto
  from cancelOrder_inv[OF assms(1) this] Cancel show ?thesis by simp
next
  case (Modify i q p)
  then obtain ok where "modifyOrder i q p bk = Some (ok, bk')" using assms(2) by auto
  from modifyOrder_inv[OF assms(1) this] Modify show ?thesis by simp
qed

lemma run_inv:
  "book_inv bk \<Longrightarrow> run xs bk = Some bk' \<Longrightarrow>
     book_inv bk' \<and> (list_all positive_modify xs \<longrightarrow> resting_pos bk \<longrightarrow> resting_pos bk')"
proof (induction xs arbitrary: bk)
  case Nil
  then show ?case by simp
next
  case (Cons x xs)
  from Cons.prems(2) obtain bk1 where a: "act x bk = Some bk1" and r: "run xs bk1 = Some bk'"
    by (auto split: bind_splits)
  from act_inv[OF Cons.prems(1) a] Cons.IH[OF _ r] show ?case by auto
qed


section \<open>Arming a stop\<close>

lemma stopRoot_getOrder:
  "getOrder i s t q p sp bk = Some (a, bk1) \<Longrightarrow> stopRoot sd bk1 = stopRoot sd bk"
  by (cases sd) (auto simp: getOrder_def stopRoot_def split: list.splits)

text \<open>
  Arming a stop when its level exists or a \<open>Limit\<close> node is free: the order is the last
  of the FIFO at its stop price and is entered in the stop index.
\<close>

lemma armStop_link:
  assumes "tree_ok (stopRoot sd bk)" "sp \<in> set (keys (stopRoot sd bk)) \<or> 0 < fLimit bk"
  shows "\<exists>bk'. armStop i sd sp a bk = Some bk'
     \<and> stopOrderMap bk' = (stopOrderMap bk)(i \<mapsto> a)
     \<and> inorder (stopRoot sd bk')
         = upd_level sp (\<lambda>q. q @ [a])
             (if sp \<in> set (keys (stopRoot sd bk)) then inorder (stopRoot sd bk)
              else ins_level sp (inorder (stopRoot sd bk)))
     \<and> stopRoot (opposite sd) bk' = stopRoot (opposite sd) bk
     \<and> oPool bk' = (oPool bk)(a := (oPool bk a)\<lparr>parentLimit := Some sp\<rparr>)
     \<and> buyRoot bk' = buyRoot bk \<and> sellRoot bk' = sellRoot bk \<and> orderMap bk' = orderMap bk
     \<and> tradeBuffer bk' = tradeBuffer bk \<and> fOrder bk' = fOrder bk"
proof -
  let ?T = "stopRoot sd bk"
  have aT: "avl ?T" and bT: "bst ?T" using assms(1) by (auto simp: tree_ok_def)
  from insertL_total[OF aT bT, of sp "fLimit bk"] assms(2) obtain t fl where
    il: "insertL ?T sp (fLimit bk) = Some (t, Some sp, fl)" by (auto split: if_splits)
  from insert_link[OF assms(1) il, of a] have
    io: "inorder (appendOrder sp a t)
         = upd_level sp (\<lambda>q. q @ [a]) (if sp \<in> set (keys ?T) then inorder ?T else ins_level sp (inorder ?T))"
    by simp
  let ?bk2 = "setStopRoot sd t (bk\<lparr>fLimit := fl\<rparr>)"
  let ?bk3 = "setStopRoot sd (appendOrder sp a t) ?bk2"
  let ?bk5 = "(linkTail a sp ?bk3)\<lparr>stopOrderMap := (stopOrderMap (linkTail a sp ?bk3))(i \<mapsto> a)\<rparr>"
  have r: "armStop i sd sp a bk = Some ?bk5" using il by (simp add: armStop_def Let_def)
  have e: "stopRoot sd ?bk5 = appendOrder sp a t" "stopRoot (opposite sd) ?bk5 = stopRoot (opposite sd) bk"
    by (cases sd; simp add: stopRoot_def setStopRoot_def linkTail_def opposite_def)+
  have o: "oPool ?bk5 = (oPool bk)(a := (oPool bk a)\<lparr>parentLimit := Some sp\<rparr>)"
    by (cases sd) (simp_all add: setStopRoot_def linkTail_def)
  show ?thesis using r e io o by simp
qed


section \<open>Reports are only appended\<close>

lemma processBody_trades:
  assumes "book_inv bk" "processBody i sd ty q p sp cs bk = Some (tr, bk')"
  shows "\<exists>new. tradeBuffer bk' = tradeBuffer bk @ new"
proof (cases "ty = Stop \<or> ty = StopLimit")
  case True
  from processBody_stop[OF assms(1) True, of i sd q p sp cs] assms(2) show ?thesis by auto
next
  case False
  show ?thesis
  proof (cases "getOrder i sd ty q p sp bk")
    case None
    then have "bk' = bk" using assms(2) False by (auto simp: processBody_def)
    then show ?thesis by simp
  next
    case (Some x)
    obtain a bk1 where x: "x = (a, bk1)" by (cases x)
    have tb1: "tradeBuffer bk1 = tradeBuffer bk" using Some x by (auto simp: getOrder_Some)
    from processBody_match[OF assms(1) _ _ Some[unfolded x], of cs] False assms(2)
    obtain lv' lp bkS where ms: "matchLevels a sd p (makerLevels sd bk) 0 bk1 = (lv', lp, bkS)"
      and tb: "tradeBuffer bk' = tradeBuffer bkS" by auto
    from matchLevels_trades[OF ms] tb tb1 show ?thesis by auto
  qed
qed

lemma resubmitStops_trades:
  "book_inv bk \<Longrightarrow> resubmitStops trs bk = Some bk' \<Longrightarrow> \<exists>new. tradeBuffer bk' = tradeBuffer bk @ new"
proof (induction trs arbitrary: bk)
  case Nil
  then show ?case by simp
next
  case (Cons ts rest)
  let ?bk1 = "bk\<lparr>generatedIdCounter := generatedIdCounter bk + 1\<rparr>"
  have i1: "book_inv ?bk1" using Cons.prems(1) by (simp add: book_inv_def trees_ok_def all_slots_def)
  from Cons.prems(2) obtain tr bk2 where
    pb: "processBody (generatedIdCounter bk) (ts_side ts) (convertToType ts) (ts_shares ts)
           (limitPrice ts) 0 False ?bk1 = Some (tr, bk2)"
    and rs: "resubmitStops rest bk2 = Some bk'"
    by (auto simp: Let_def split: bind_splits)
  from processBody_inv[OF i1, of "generatedIdCounter bk" "ts_side ts" "convertToType ts"
      "ts_shares ts" "limitPrice ts" 0 False] pb have i2: "book_inv bk2" by auto
  from processBody_trades[OF i1 pb] obtain n1 where "tradeBuffer bk2 = tradeBuffer bk @ n1" by auto
  moreover from Cons.IH[OF i2 rs] obtain n2 where "tradeBuffer bk' = tradeBuffer bk2 @ n2" by auto
  ultimately show ?case by simp
qed

section \<open>Linking an order and unlinking it again\<close>

lemma link_unlink:
  assumes "tree_ok T" "insertL T p fl0 = Some (t, Some k, fl)" "a \<notin> set (slots T)"
  shows "\<exists>q' t1 t2. unlink a p (appendOrder p a t) = Some (q', t1)
     \<and> (if q' = [] then removeLimit t1 p fl else Some (t1, fl)) = Some (t2, fl0)
     \<and> inorder t2 = inorder T"
proof -
  let ?T1 = "appendOrder p a t"
  have bT: "bst T" and nT: "nonempty_levels T" using assms(1) by (auto simp: tree_ok_def)
  from insert_link[OF assms(1,2), of a] have ok1: "tree_ok ?T1"
    and io: "inorder ?T1 = upd_level p (\<lambda>q. q @ [a]) (if p \<in> set (keys T) then inorder T else ins_level p (inorder T))"
    and fl: "fl = (if p \<in> set (keys T) then fl0 else fl0 - 1)" and pos: "p \<in> set (keys T) \<or> 0 < fl0"
    by auto
  have b1: "bst ?T1" and a1: "avl ?T1" using ok1 by (auto simp: tree_ok_def)
  show ?thesis
  proof (cases "p \<in> set (keys T)")
    case True
    then obtain q0 where "(p, q0) \<in> set (inorder T)" by (auto simp: keys_def)
    from level_split[OF bst_distinct[OF bT] this] obtain l r where
      s: "inorder T = l @ (p, q0) # r" "p \<notin> fst ` set l" "p \<notin> fst ` set r" by blast
    have q0: "q0 \<noteq> []" using nT s(1) by (auto simp: nonempty_levels_def)
    have na: "a \<notin> set q0" using assms(3) slots_split[OF s(1)] by simp
    have io1: "inorder ?T1 = l @ (p, q0 @ [a]) # r" using io True s by (simp add: upd_level_id)
    have f: "findLimit ?T1 p = Some (q0 @ [a])" using findLimit_split[OF b1 io1] .
    have rm: "remove1 a (q0 @ [a]) = q0" using na by (simp add: remove1_append)
    have u: "unlink a p ?T1 = Some (q0, setFifo p q0 ?T1)" using f rm by (simp add: unlink_def)
    have "inorder (setFifo p q0 ?T1) = inorder T"
      using inorder_setFifo[OF b1, of p q0] io1 s by (simp add: upd_level_id)
    then show ?thesis using u q0 fl True by simp
  next
    case False
    then have nk: "p \<notin> fst ` set (inorder T)" by (simp add: keys_def)
    have srt: "sorted_wrt (<) (map fst (inorder T))" using bT by (simp add: bst_def keys_def)
    from ins_level_split[OF srt nk] obtain l r where
      s: "inorder T = l @ r" "ins_level p (inorder T) = l @ (p, []) # r"
        "p \<notin> fst ` set l" "p \<notin> fst ` set r" by blast
    have io1: "inorder ?T1 = l @ (p, [a]) # r" using io False s by (simp add: upd_level_id)
    have f: "findLimit ?T1 p = Some [a]" using findLimit_split[OF b1 io1] .
    let ?t1 = "setFifo p [] ?T1"
    have u: "unlink a p ?T1 = Some ([], ?t1)" using f by (simp add: unlink_def)
    have bt1: "bst ?t1" using b1 by simp
    have at1: "avl ?t1" using a1 by simp
    have iot1: "inorder ?t1 = l @ (p, []) # r"
      using inorder_setFifo[OF b1, of p "[]"] io1 s by (simp add: upd_level_id)
    from removeLimit_avl[OF at1, of p fl] obtain t2 fl2 where
      rl: "removeLimit ?t1 p fl = Some (t2, fl2)" by blast
    from removeLimit_inorder[OF bt1 rl] iot1 s have "inorder t2 = inorder T" and "fl2 = Suc fl"
      by (auto simp: del_level_id keys_def)
    moreover have "Suc fl = fl0" using fl False pos by simp
    ultimately show ?thesis using u rl by simp
  qed
qed


section \<open>A submit that rests without a trade\<close>

lemma levels_of_inj: "levels_of sd t = levels_of sd t' \<Longrightarrow> inorder t = inorder t'"
  by (auto simp: levels_of_def split: if_splits)

text \<open>
  A limit order with a fresh id that rests without a trade: the book differs from the
  one before by the order linked at the tail of the level of its price.
\<close>

lemma submit_rests_untraded:
  assumes "book_inv bk" "orderMap bk i = None"
    "processOrder i sd Limit q p sp bk = Some bk1"
    "tradeBuffer bk1 = tradeBuffer bk" "orderMap bk1 i \<noteq> None"
  shows "\<exists>a fr t fl. fOrder bk = a # fr
     \<and> a \<notin> set (slots (restingRoot sd bk))
     \<and> insertL (restingRoot sd bk) p (fLimit bk) = Some (t, Some p, fl)
     \<and> restingRoot sd bk1 = appendOrder p a t
     \<and> inorder (restingRoot (opposite sd) bk1) = inorder (restingRoot (opposite sd) bk)
     \<and> fLimit bk1 = fl \<and> orderMap bk1 = (orderMap bk)(i \<mapsto> a)
     \<and> stopOrderMap bk1 = stopOrderMap bk \<and> fOrder bk1 = fr
     \<and> stopBuyRoot bk1 = stopBuyRoot bk \<and> stopSellRoot bk1 = stopSellRoot bk
     \<and> parentLimit (oPool bk1 a) = Some p \<and> side (oPool bk1 a) = sd
     \<and> oPool bk1 = (oPool bk)(a := \<lparr>oid = i, side = sd, otype = Limit, shares = q, price = p,
                                      stopPrice = sp, parentLimit = Some p\<rparr>)"
proof -
  have tk: "trees_ok bk" using assms(1) by (simp add: book_inv_def)
  obtain a fr where f: "fOrder bk = a # fr"
  proof (cases "fOrder bk")
    case Nil
    then have "getOrder i sd Limit q p sp bk = None" by (simp add: getOrder_def)
    then have "processOrder i sd Limit q p sp bk = Some bk"
      by (simp add: processOrder_def processOrderInternal_def processBody_def)
    then show ?thesis using assms(2,3,5) by simp
  next
    case (Cons a fr)
    then show ?thesis using that by simp
  qed
  let ?o = "\<lparr>oid = i, side = sd, otype = Limit, shares = q, price = p, stopPrice = sp, parentLimit = None\<rparr>"
  let ?bk0 = "bk\<lparr>fOrder := fr, oPool := (oPool bk)(a := ?o)\<rparr>"
  have g: "getOrder i sd Limit q p sp bk = Some (a, ?bk0)" using f by (simp add: getOrder_def)
  from getOrder_phase[OF assms(1) g] have t0: "trees_ok ?bk0" and n0: "a \<notin> set (all_slots ?bk0)"
    by auto
  have mk: "makerLevels sd ?bk0 = makerLevels sd bk" by (cases sd) (simp_all add: makerLevels_def)
  have rr0: "restingRoot sd ?bk0 = restingRoot sd bk" by (cases sd) simp_all
  from matchLoop_phase[OF t0 n0, of sd p 0] obtain lp bk2 lv' bkS where
    ml: "matchLoop a sd p 0 ?bk0 = Some (lp, bk2)"
    and ms: "matchLevels a sd p (makerLevels sd ?bk0) 0 ?bk0 = (lv', lp, bkS)"
    and l2: "makerLevels sd bk2 = lv'" and t2: "trees_ok bk2"
    and own: "restingRoot sd bk2 = restingRoot sd ?bk0"
    and sb: "stopBuyRoot bk2 = stopBuyRoot ?bk0" "stopSellRoot bk2 = stopSellRoot ?bk0"
    and o2: "oPool bk2 = oPool bkS" and om2: "orderMap bk2 = orderMap bkS"
    and so2: "stopOrderMap bk2 = stopOrderMap ?bk0"
    and fl2: "fLimit bk2 = fLimit ?bk0 + (length (makerLevels sd ?bk0) - length lv')"
    and fo2: "fOrder bk2 = fOrder bkS" by blast
  from processBody_match[OF assms(1) _ _ g, of True] ms mk obtain tr bk' where
    pb: "processBody i sd Limit q p sp True bk = Some (tr, bk')"
    and tbx: "tradeBuffer bk' = tradeBuffer bkS" and inv': "book_inv bk'" by auto
  have rs: "resubmitStops tr bk' = Some bk1"
    using assms(3) pb by (simp add: processOrder_def processOrderInternal_def)
  from resubmitStops_trades[OF inv' rs] obtain more where
    m1: "tradeBuffer bk1 = tradeBuffer bk' @ more" by auto
  from matchLevels_trades[OF ms] obtain new where
    m2: "tradeBuffer bkS = tradeBuffer ?bk0 @ new" by auto
  have "tradeBuffer bkS = tradeBuffer ?bk0" using m1 m2 tbx assms(4) by simp
  moreover have "[] \<notin> snd ` set (makerLevels sd ?bk0)"
    using trees_ok_resting[OF t0, of "opposite sd"] nonempty_levels_iff[of _ sd]
    by (simp add: tree_ok_def makerLevels_def)
  ultimately have e: "lv' = makerLevels sd ?bk0" "lp = 0" "bkS = ?bk0"
    using matchLevels_no_trade[OF ms] by auto
  have pb2: "processBody i sd Limit q p sp True bk = restResidual i sd Limit p a [] bk2"
    using g ml e(2) by (simp add: processBody_def)
  have oa: "oPool bk2 a = ?o" using o2 e(3) by simp
  have ok2: "tree_ok (restingRoot sd bk2)" using trees_ok_resting[OF t2] .
  then have a2: "avl (restingRoot sd bk2)" and b2: "bst (restingRoot sd bk2)" by (auto simp: tree_ok_def)
  from insertL_total[OF a2 b2, of p "fLimit bk2"] obtain t L fl where
    il: "insertL (restingRoot sd bk2) p (fLimit bk2) = Some (t, L, fl)" by blast
  have omi: "orderMap bk2 i = None" using om2 e(3) assms(2) by simp
  have qpos: "0 < q"
  proof (rule ccontr)
    assume "\<not> 0 < q"
    then have "restResidual i sd Limit p a [] bk2 = Some ([], recycleOrder a bk2)"
      using oa by (simp add: restResidual_def)
    then have "bk1 = recycleOrder a bk2" using pb pb2 rs by auto
    then show False using omi assms(5) by simp
  qed
  obtain k where L: "L = Some k"
  proof (cases L)
    case None
    then have "restResidual i sd Limit p a [] bk2 = Some ([], setRestingRoot sd t (bk2\<lparr>fLimit := fl\<rparr>))"
      using oa qpos il by (simp add: restResidual_def)
    then have "bk1 = setRestingRoot sd t (bk2\<lparr>fLimit := fl\<rparr>)" using pb pb2 rs by auto
    then show ?thesis using omi assms(5) by simp
  next
    case (Some k)
    then show ?thesis using that by simp
  qed
  from insert_link[OF ok2 il[unfolded L], of a] have kp: "k = p" by simp
  let ?bk4 = "setRestingRoot sd t (bk2\<lparr>fLimit := fl\<rparr>)"
  let ?bk5 = "setRestingRoot sd (appendOrder p a t) ?bk4"
  let ?bk6 = "linkTail a p ?bk5"
  let ?bk7 = "?bk6\<lparr>orderMap := (orderMap ?bk6)(i \<mapsto> a)\<rparr>"
  have "restResidual i sd Limit p a [] bk2 = Some ([], ?bk7)"
    using oa qpos il L kp by (simp add: restResidual_def Let_def)
  then have b1: "bk1 = ?bk7" using pb pb2 rs by auto
  have fl2': "fLimit bk2 = fLimit bk" using fl2 e(1) by simp
  have own': "restingRoot sd bk2 = restingRoot sd bk" using own rr0 by simp
  have na: "a \<notin> set (slots (restingRoot sd bk))"
    using n0 by (cases sd) (auto simp: all_slots_def)
  have r1: "restingRoot sd bk1 = appendOrder p a t" unfolding b1 by (cases sd) simp_all
  have op1: "restingRoot (opposite sd) bk1 = restingRoot (opposite sd) bk2"
    unfolding b1 by (cases sd) simp_all
  have lo: "levels_of sd (restingRoot (opposite sd) bk2) = levels_of sd (restingRoot (opposite sd) bk)"
    using l2 e(1) mk by (simp add: makerLevels_def)
  have r2: "inorder (restingRoot (opposite sd) bk1) = inorder (restingRoot (opposite sd) bk)"
    using levels_of_inj[OF lo] op1 by simp
  have r3: "fLimit bk1 = fl" "orderMap bk1 = (orderMap bk)(i \<mapsto> a)" "stopOrderMap bk1 = stopOrderMap bk"
    "fOrder bk1 = fr" "stopBuyRoot bk1 = stopBuyRoot bk" "stopSellRoot bk1 = stopSellRoot bk"
    "parentLimit (oPool bk1 a) = Some p" "side (oPool bk1 a) = sd"
    unfolding b1 using om2 so2 fo2 sb oa e(3) by simp_all
  have r5: "oPool bk1 = (oPool bk)(a := \<lparr>oid = i, side = sd, otype = Limit, shares = q, price = p,
                                      stopPrice = sp, parentLimit = Some p\<rparr>)"
    unfolding b1 using o2 e(3) by (auto simp: fun_eq_iff)
  have il': "insertL (restingRoot sd bk) p (fLimit bk) = Some (t, Some p, fl)"
    using il L kp own' fl2' by simp
  show ?thesis using f na il' r1 r2 r3 r5
    by (intro exI[of _ a] exI[of _ fr] exI[of _ t] exI[of _ fl]) simp
qed

lemma book_inv_run: "run xs (newBook n) = Some bk \<Longrightarrow> book_inv bk"
  using run_inv[OF book_inv_newBook, of xs n bk] by simp


section \<open>The reports of a submit\<close>

lemma matchLevels_keys:
  "matchLevels taker sd p lv lastp bk = (lv', lp', bk') \<Longrightarrow> fst ` set lv' \<subseteq> fst ` set lv"
proof (induction taker sd p lv lastp bk rule: matchLevels.induct)
  case (1 taker sd p lastp bk)
  then show ?case by simp
next
  case (2 taker sd p bp q lv lastp bk)
  show ?case
  proof (cases "0 < shares (oPool bk taker) \<and> crosses sd p bp")
    case False
    then have "lv' = (bp, q) # lv" using "2.prems" by auto
    then show ?thesis by simp
  next
    case True
    obtain q' lp1 bk1 where mm: "matchMakers taker bp q lastp bk = (q', lp1, bk1)"
      by (cases "matchMakers taker bp q lastp bk")
    show ?thesis
    proof (cases "q' = []")
      case e: True
      have r: "matchLevels taker sd p lv lp1 bk1 = (lv', lp', bk')"
        using "2.prems" True mm e by simp
      from "2.IH"[OF True mm[symmetric] refl e r] show ?thesis by auto
    next
      case False
      then have "lv' = (bp, q') # lv" using True mm "2.prems" by auto
      then show ?thesis by simp
    qed
  qed
qed

lemma fst_queueOf: "fst ` set (queueOf lv) = set (concat (map snd lv))"
  by (induction lv) (auto simp: queueOf_def image_Un image_image)

lemma taker_not_maker:
  assumes "book_inv bk" "getOrder i sd ty q p sp bk = Some (a, bk1)"
  shows "a \<notin> set (concat (map snd (makerLevels sd bk)))"
proof -
  have "distinct (all_slots bk)" using assms(1) by (simp add: book_inv_def)
  moreover have "a \<in> set (fOrder bk)" using assms(2) by (auto simp: getOrder_Some)
  ultimately have "a \<notin> set (slots (restingRoot (opposite sd) bk))"
    by (cases sd) (auto simp: all_slots_def)
  then show ?thesis
    using in_set_mset_cong[OF mset_slots_levels_of[of sd "restingRoot (opposite sd) bk"], of a]
    by (simp add: makerLevels_def)
qed

text \<open>
  The matching path of a submit, in terms of the reports it pushes: they are fills of
  the first resting orders of the opposite side in price-time priority, one report for
  each, at the price of the maker's level; and the trigger pass is called when
  \<open>checkStops\<close> holds and the last of them has a positive price.
\<close>

lemma processBody_reports:
  assumes "book_inv bk" "ty \<noteq> Stop" "ty \<noteq> StopLimit"
  shows "\<exists>tr bk1. processBody i sd ty q p sp cs bk = Some (tr, bk1) \<and> book_inv bk1
     \<and> map (\<lambda>t. (makerId t, tprice t)) (newTrades bk bk1)
         = map (\<lambda>(a, bp). (oid (oPool bk a), bp)) (take (length (newTrades bk bk1)) (makerQueue sd bk))
     \<and> list_all (\<lambda>t. takerId t = i) (newTrades bk bk1)
     \<and> stopChecks bk1 = stopChecks bk @
          (if cs \<and> newTrades bk bk1 \<noteq> [] \<and> 0 < tprice (last (newTrades bk bk1))
           then [(tprice (last (newTrades bk bk1)), sd)] else [])"
proof (cases "getOrder i sd ty q p sp bk")
  case None
  then have "processBody i sd ty q p sp cs bk = Some ([], bk)"
    using assms(2,3) by (simp add: processBody_def)
  then show ?thesis using assms(1) by (simp add: newTrades_def)
next
  case (Some x)
  obtain a bk0 where x: "x = (a, bk0)" by (cases x)
  note g = Some[unfolded x]
  have tb0: "tradeBuffer bk0 = tradeBuffer bk" and o0: "\<And>b. b \<noteq> a \<Longrightarrow> oPool bk0 b = oPool bk b"
    and oa: "oid (oPool bk0 a) = i" using g by (auto simp: getOrder_Some)
  from processBody_match[OF assms g, of cs] obtain lp lv' bkS tr bk1 where
    ms: "matchLevels a sd p (makerLevels sd bk) 0 bk0 = (lv', lp, bkS)"
    and pb: "processBody i sd ty q p sp cs bk = Some (tr, bk1)"
    and tb: "tradeBuffer bk1 = tradeBuffer bkS"
    and sc: "stopChecks bk1 = stopChecks bk @ (if cs \<and> 0 < lp then [(lp, sd)] else [])"
    and inv: "book_inv bk1" by blast
  from matchLevels_trades[OF ms] obtain new where
    n1: "tradeBuffer bkS = tradeBuffer bk0 @ new"
    and n2: "map (\<lambda>t. (makerId t, tprice t)) new
           = map (\<lambda>(b, bp). (oid (oPool bk0 b), bp)) (take (length new) (queueOf (makerLevels sd bk)))"
    and n3: "list_all (\<lambda>t. takerId t = oid (oPool bk0 a)) new"
    and n4: "lp = (if new = [] then 0 else tprice (last new))" by blast
  have nt: "newTrades bk bk1 = new" using tb n1 tb0 by (simp add: newTrades_def)
  have na: "a \<notin> set (concat (map snd (makerLevels sd bk)))" using taker_not_maker[OF assms(1) g] .
  have "map (\<lambda>(b, bp). (oid (oPool bk0 b), bp)) (take (length new) (queueOf (makerLevels sd bk)))
      = map (\<lambda>(b, bp). (oid (oPool bk b), bp)) (take (length new) (queueOf (makerLevels sd bk)))"
  proof (rule map_cong[OF refl])
    fix y assume "y \<in> set (take (length new) (queueOf (makerLevels sd bk)))"
    then have "y \<in> set (queueOf (makerLevels sd bk))" by (rule in_set_takeD)
    then have "fst y \<in> set (concat (map snd (makerLevels sd bk)))"
      using fst_queueOf[of "makerLevels sd bk"] by (metis imageI)
    then have "fst y \<noteq> a" using na by auto
    then show "(case y of (b, bp) \<Rightarrow> (oid (oPool bk0 b), bp)) = (case y of (b, bp) \<Rightarrow> (oid (oPool bk b), bp))"
      using o0 by (cases y) simp
  qed
  then have m: "map (\<lambda>t. (makerId t, tprice t)) new
        = map (\<lambda>(b, bp). (oid (oPool bk b), bp)) (take (length new) (makerQueue sd bk))"
    using n2 by (simp add: makerQueue_def)
  have s: "stopChecks bk1 = stopChecks bk @
          (if cs \<and> new \<noteq> [] \<and> 0 < tprice (last new) then [(tprice (last new), sd)] else [])"
    using sc n4 by simp
  show ?thesis using pb inv m n3 oa s nt
    by (intro exI[of _ tr] exI[of _ bk1]) simp
qed

lemma makerLevels_sorted:
  assumes "book_inv bk"
  shows "sorted_wrt (\<lambda>x y. if sd = Buy then fst x < fst y else fst y < fst x) (makerLevels sd bk)"
proof -
  have "bst (restingRoot (opposite sd) bk)"
    using assms trees_ok_resting[of bk "opposite sd"] by (simp add: book_inv_def tree_ok_def)
  then have s: "sorted_wrt (\<lambda>x y. fst x < fst y) (inorder (restingRoot (opposite sd) bk))"
    by (simp add: bst_def keys_def sorted_wrt_map)
  show ?thesis
  proof (cases sd)
    case Buy
    then show ?thesis using s by (simp add: makerLevels_def levels_of_def)
  next
    case Sell
    then show ?thesis using s by (simp add: makerLevels_def levels_of_def sorted_wrt_rev)
  qed
qed

section \<open>The order of the trigger pass\<close>

lemma firedLevels_farthest_first:
  assumes "bst (stopRoot sd bk)"
  shows "sorted_wrt (\<lambda>x y. \<bar>fst y - ep\<bar> < \<bar>fst x - ep\<bar>) (firedLevels ep sd bk)"
proof (cases sd)
  case Buy
  have s: "sorted_wrt (\<lambda>x y. fst x < fst y) (inorder (stopBuyRoot bk))"
    using assms Buy by (simp add: bst_def keys_def sorted_wrt_map)
  have "sorted_wrt (\<lambda>x y. fst x < fst y) (filter (\<lambda>x. fst x \<le> ep) (inorder (stopBuyRoot bk)))"
    using s by (rule sorted_wrt_filter)
  then have "sorted_wrt (\<lambda>x y. \<bar>fst y - ep\<bar> < \<bar>fst x - ep\<bar>)
               (filter (\<lambda>x. fst x \<le> ep) (inorder (stopBuyRoot bk)))"
    by (rule sorted_wrt_mono_rel[rotated]) auto
  then show ?thesis using Buy by (simp add: firedLevels_def)
next
  case Sell
  have s: "sorted_wrt (\<lambda>x y. fst x < fst y) (inorder (stopSellRoot bk))"
    using assms Sell by (simp add: bst_def keys_def sorted_wrt_map)
  have "sorted_wrt (\<lambda>x y. fst x < fst y) (filter (\<lambda>x. ep \<le> fst x) (inorder (stopSellRoot bk)))"
    using s by (rule sorted_wrt_filter)
  then have "sorted_wrt (\<lambda>x y. fst y < fst x) (rev (filter (\<lambda>x. ep \<le> fst x) (inorder (stopSellRoot bk))))"
    by (simp add: sorted_wrt_rev)
  then have "sorted_wrt (\<lambda>x y. \<bar>fst y - ep\<bar> < \<bar>fst x - ep\<bar>)
               (rev (filter (\<lambda>x. ep \<le> fst x) (inorder (stopSellRoot bk))))"
    by (rule sorted_wrt_mono_rel[rotated]) auto
  then show ?thesis using Sell by (simp add: firedLevels_def)
qed

section \<open>The matching loop against the matching of the specification\<close>

lemma fillReport_simp [simp]: "fillReport tid bk (a, n, bp) = (tid, oid (oPool bk a), n, bp)"
  by (simp add: fillReport_def)

lemma fillReport_cong:
  "(\<And>a. oid (oPool bk' a) = oid (oPool bk a)) \<Longrightarrow> fillReport tid bk' = fillReport tid bk"
  by (simp add: fillReport_def fun_eq_iff)

lemma spec_fills_zero [simp]: "spec_fills sd p 0 xs = []"
  by (cases xs) auto

lemma spec_rest_zero [simp]: "spec_rest sd p 0 xs = xs"
  by (cases xs) auto

lemma entries_Cons [simp]:
  "entries bk ((bp, q) # lv) = map (\<lambda>a. (a, shares (oPool bk a), bp)) q @ entries bk lv"
  by (simp add: entries_def comp_def)

lemma entries_Nil [simp]: "entries bk [] = []"
  by (simp add: entries_def)

lemma entries_cong:
  "(\<And>a. a \<in> set (concat (map snd lv)) \<Longrightarrow> shares (oPool bk' a) = shares (oPool bk a)) \<Longrightarrow>
     entries bk' lv = entries bk lv"
  by (induction lv) auto

lemma fill_shares:
  "t \<noteq> m \<Longrightarrow>
     shares (oPool (fill t m bp bk) t)
       = shares (oPool bk t) - min (shares (oPool bk t)) (shares (oPool bk m))
   \<and> shares (oPool (fill t m bp bk) m)
       = shares (oPool bk m) - min (shares (oPool bk t)) (shares (oPool bk m))"
  by (simp add: fill_oPool Let_def)

lemma fill_tradeBuffer:
  "tradeBuffer (fill t m bp bk) = tradeBuffer bk @
     [\<lparr>takerId = oid (oPool bk t), makerId = oid (oPool bk m),
       qty = min (shares (oPool bk t)) (shares (oPool bk m)), tprice = bp,
       timestamp = timestampCounter bk\<rparr>]"
  by (simp add: fill_def Let_def pushTrade_def setShares_def)

lemma word_sub_min_zero: "(s :: 32 word) - min r s = 0 \<longleftrightarrow> s \<le> r"
  by (auto simp: min_def)

lemma newTrades_append:
  "tradeBuffer bk1 = tradeBuffer bk @ xs \<Longrightarrow> tradeBuffer bk2 = tradeBuffer bk1 @ ys \<Longrightarrow>
     newTrades bk bk2 = xs @ ys \<and> newTrades bk bk1 = xs \<and> newTrades bk1 bk2 = ys"
  by (simp add: newTrades_def)


lemma matchMakers_spec:
  assumes "matchMakers taker bp q lastp bk = (q', lp', bk')" "crosses sd p bp"
    "taker \<notin> set q" "distinct q"
  shows "\<exists>F. map reportFields (newTrades bk bk')
              = map (fillReport (oid (oPool bk taker)) bk) F
     \<and> (\<forall>xs. spec_fills sd p (shares (oPool bk taker)) (map (\<lambda>a. (a, shares (oPool bk a), bp)) q @ xs)
             = F @ (if q' = [] then spec_fills sd p (shares (oPool bk' taker)) xs else []))
     \<and> (\<forall>xs. spec_rest sd p (shares (oPool bk taker)) (map (\<lambda>a. (a, shares (oPool bk a), bp)) q @ xs)
             = (if q' = [] then spec_rest sd p (shares (oPool bk' taker)) xs
                else map (\<lambda>a. (a, shares (oPool bk' a), bp)) q' @ xs))"
  using assms
proof (induction taker bp q lastp bk arbitrary: q' lp' bk' rule: matchMakers.induct)
  case (1 taker bp lastp bk)
  then have "q' = []" "bk' = bk" by auto
  then show ?case by (intro exI[of _ "[]"]) (simp add: newTrades_def)
next
  case (2 taker bp maker rest lastp bk)
  let ?r = "shares (oPool bk taker)" and ?s = "shares (oPool bk maker)"
  have tm: "taker \<noteq> maker" and tr: "taker \<notin> set rest" and mr: "maker \<notin> set rest"
    and dr: "distinct rest" using "2.prems"(3,4) by auto
  show ?case
  proof (cases "0 < ?r")
    case False
    then have "q' = maker # rest" "bk' = bk" and r0: "?r = 0"
      using "2.prems"(1) by (auto simp: word_gt_0)
    then show ?thesis by (intro exI[of _ "[]"]) (simp add: newTrades_def)
  next
    case True
    let ?bk3 = "fill taker maker bp bk"
    let ?t = "\<lparr>takerId = oid (oPool bk taker), makerId = oid (oPool bk maker),
               qty = min ?r ?s, tprice = bp, timestamp = timestampCounter bk\<rparr>"
    have rn: "?r \<noteq> 0" using True by (simp add: word_gt_0)
    have sh3: "shares (oPool ?bk3 taker) = ?r - min ?r ?s" "shares (oPool ?bk3 maker) = ?s - min ?r ?s"
      using fill_shares[OF tm, of bp bk] by auto
    have tb3: "tradeBuffer ?bk3 = tradeBuffer bk @ [?t]" by (rule fill_tradeBuffer)
    have oth3: "\<And>a. a \<in> set rest \<Longrightarrow> shares (oPool ?bk3 a) = shares (oPool bk a)"
      using tr mr fill_other[of _ taker maker bp bk] by (metis)
    show ?thesis
    proof (cases "shares (oPool ?bk3 maker) = 0")
      case z: True
      let ?bk4 = "removeMaker maker ?bk3"
      have le: "?s \<le> ?r" using z sh3(2) word_sub_min_zero by metis
      then have mn: "min ?r ?s = ?s" by (simp add: min_def)
      have rec: "matchMakers taker bp rest bp ?bk4 = (q', lp', bk')"
        using "2.prems"(1) True z by (simp add: Let_def)
      from "2.IH"[OF True refl z rec "2.prems"(2) tr dr] obtain F' where
        f1: "map reportFields (newTrades ?bk4 bk')
              = map (fillReport (oid (oPool ?bk4 taker)) ?bk4) F'"
        and f2: "\<And>xs. spec_fills sd p (shares (oPool ?bk4 taker))
                     (map (\<lambda>a. (a, shares (oPool ?bk4 a), bp)) rest @ xs)
             = F' @ (if q' = [] then spec_fills sd p (shares (oPool bk' taker)) xs else [])"
        and f3: "\<And>xs. spec_rest sd p (shares (oPool ?bk4 taker))
                     (map (\<lambda>a. (a, shares (oPool ?bk4 a), bp)) rest @ xs)
             = (if q' = [] then spec_rest sd p (shares (oPool bk' taker)) xs
                else map (\<lambda>a. (a, shares (oPool bk' a), bp)) q' @ xs)" by blast
      have o4: "\<And>a. oid (oPool ?bk4 a) = oid (oPool bk a)" by simp
      have s4t: "shares (oPool ?bk4 taker) = ?r - ?s" using sh3(1) mn tm by simp
      have e4: "map (\<lambda>a. (a, shares (oPool ?bk4 a), bp)) rest = map (\<lambda>a. (a, shares (oPool bk a), bp)) rest"
        using oth3 mr by (intro map_cong[OF refl]) auto
      have tb4: "tradeBuffer ?bk4 = tradeBuffer bk @ [?t]" using tb3 by simp
      from matchMakers_trades[OF rec] obtain new where
        nw: "tradeBuffer bk' = tradeBuffer ?bk4 @ new" by blast
      have nt: "newTrades bk bk' = ?t # newTrades ?bk4 bk'"
        using newTrades_append[OF tb4 nw] by simp
      let ?F = "(maker, ?s, bp) # F'"
      have g1: "map reportFields (newTrades bk bk')
              = map (fillReport (oid (oPool bk taker)) bk) ?F"
        using nt f1 fillReport_cong[of ?bk4 bk, OF o4] o4 mn by (simp add: reportFields_def)
      have g2: "\<And>xs. spec_fills sd p ?r (map (\<lambda>a. (a, shares (oPool bk a), bp)) (maker # rest) @ xs)
             = ?F @ (if q' = [] then spec_fills sd p (shares (oPool bk' taker)) xs else [])"
        using f2[unfolded e4 s4t] mn rn "2.prems"(2) by simp
      have g3: "\<And>xs. spec_rest sd p ?r (map (\<lambda>a. (a, shares (oPool bk a), bp)) (maker # rest) @ xs)
             = (if q' = [] then spec_rest sd p (shares (oPool bk' taker)) xs
                else map (\<lambda>a. (a, shares (oPool bk' a), bp)) q' @ xs)"
        using f3[unfolded e4 s4t] le rn "2.prems"(2) by simp
      show ?thesis using g1 g2 g3 by (intro exI[of _ ?F]) blast
    next
      case False
      then have res: "q' = maker # rest" "bk' = ?bk3"
        using "2.prems"(1) True by (auto simp: Let_def)
      have nle: "\<not> ?s \<le> ?r" using False sh3(2) word_sub_min_zero by metis
      then have mn: "min ?r ?s = ?r" by (auto simp: min_def)
      have nt: "newTrades bk bk' = [?t]" using tb3 res by (simp add: newTrades_def)
      have e3: "map (\<lambda>a. (a, shares (oPool ?bk3 a), bp)) rest = map (\<lambda>a. (a, shares (oPool bk a), bp)) rest"
        using oth3 by (intro map_cong[OF refl]) auto
      let ?F = "[(maker, ?r, bp)]"
      have g1: "map reportFields (newTrades bk bk')
              = map (fillReport (oid (oPool bk taker)) bk) ?F"
        using nt mn by (simp add: reportFields_def)
      have g2: "\<And>xs. spec_fills sd p ?r (map (\<lambda>a. (a, shares (oPool bk a), bp)) (maker # rest) @ xs)
             = ?F @ (if q' = [] then spec_fills sd p (shares (oPool bk' taker)) xs else [])"
        using res mn rn "2.prems"(2) by simp
      have g3: "\<And>xs. spec_rest sd p ?r (map (\<lambda>a. (a, shares (oPool bk a), bp)) (maker # rest) @ xs)
             = (if q' = [] then spec_rest sd p (shares (oPool bk' taker)) xs
                else map (\<lambda>a. (a, shares (oPool bk' a), bp)) q' @ xs)"
        using res e3 sh3(2) mn nle rn "2.prems"(2) by simp
      show ?thesis using g1 g2 g3 by (intro exI[of _ ?F]) blast
    qed
  qed
qed


lemma matchLevels_spec:
  assumes "matchLevels taker sd p lv lastp bk = (lv', lp', bk')"
    "taker \<notin> set (concat (map snd lv))" "distinct (concat (map snd lv))" "[] \<notin> snd ` set lv"
  shows "map reportFields (newTrades bk bk')
           = map (fillReport (oid (oPool bk taker)) bk)
               (spec_fills sd p (shares (oPool bk taker)) (entries bk lv))
     \<and> entries bk' lv' = spec_rest sd p (shares (oPool bk taker)) (entries bk lv)"
  using assms
proof (induction taker sd p lv lastp bk rule: matchLevels.induct)
  case (1 taker sd p lastp bk)
  then have "lv' = []" "bk' = bk" by auto
  then show ?case by (simp add: newTrades_def)
next
  case (2 taker sd p bp q lv lastp bk)
  let ?r = "shares (oPool bk taker)"
  let ?E = "map (\<lambda>a. (a, shares (oPool bk a), bp)) q"
  have tq: "taker \<notin> set q" and tl: "taker \<notin> set (concat (map snd lv))"
    and dq: "distinct q" and dl: "distinct (concat (map snd lv))"
    and dj: "set q \<inter> set (concat (map snd lv)) = {}"
    and qn: "q \<noteq> []" and nl: "[] \<notin> snd ` set lv"
    using "2.prems"(2,3,4) by auto
  obtain a0 q0 where q: "q = a0 # q0" using qn by (cases q) auto
  show ?case
  proof (cases "0 < ?r \<and> crosses sd p bp")
    case False
    then have res: "lv' = (bp, q) # lv" "bk' = bk" using "2.prems"(1) by auto
    have c: "?r = 0 \<or> \<not> crosses sd p bp" using False by (auto simp: word_gt_0)
    show ?thesis using res c q by (auto simp: newTrades_def)
  next
    case True
    then have cr: "crosses sd p bp" by simp
    obtain q' lp1 bk1 where mm: "matchMakers taker bp q lastp bk = (q', lp1, bk1)"
      by (cases "matchMakers taker bp q lastp bk")
    from matchMakers_spec[OF mm cr tq dq] obtain F where
      g1: "map reportFields (newTrades bk bk1)
              = map (fillReport (oid (oPool bk taker)) bk) F"
      and g2: "\<And>xs. spec_fills sd p ?r (?E @ xs)
             = F @ (if q' = [] then spec_fills sd p (shares (oPool bk1 taker)) xs else [])"
      and g3: "\<And>xs. spec_rest sd p ?r (?E @ xs)
             = (if q' = [] then spec_rest sd p (shares (oPool bk1 taker)) xs
                else map (\<lambda>a. (a, shares (oPool bk1 a), bp)) q' @ xs)" by blast
    have e1: "entries bk1 lv = entries bk lv"
    proof (rule entries_cong)
      fix a assume "a \<in> set (concat (map snd lv))"
      then have "a \<noteq> taker" "a \<notin> set q" using tl dj by auto
      from matchMakers_other[OF mm this] show "shares (oPool bk1 a) = shares (oPool bk a)" by simp
    qed
    have o1: "\<And>a. oid (oPool bk1 a) = oid (oPool bk a)" using matchMakers_static[OF mm] by simp
    from matchMakers_trades[OF mm] obtain n1 where n1: "tradeBuffer bk1 = tradeBuffer bk @ n1" by blast
    show ?thesis
    proof (cases "q' = []")
      case e: True
      have rec: "matchLevels taker sd p lv lp1 bk1 = (lv', lp', bk')"
        using "2.prems"(1) True mm e by simp
      from "2.IH"[OF True mm[symmetric] refl e rec tl dl nl] have
        h1: "map reportFields (newTrades bk1 bk')
           = map (fillReport (oid (oPool bk1 taker)) bk1)
               (spec_fills sd p (shares (oPool bk1 taker)) (entries bk1 lv))"
        and h2: "entries bk' lv' = spec_rest sd p (shares (oPool bk1 taker)) (entries bk1 lv)" by auto
      from matchLevels_trades[OF rec] obtain n2 where n2: "tradeBuffer bk' = tradeBuffer bk1 @ n2" by blast
      have nt: "newTrades bk bk' = newTrades bk bk1 @ newTrades bk1 bk'"
        using newTrades_append[OF n1 n2] by simp
      have "map reportFields (newTrades bk bk')
           = map (fillReport (oid (oPool bk taker)) bk)
               (F @ spec_fills sd p (shares (oPool bk1 taker)) (entries bk lv))"
        using nt g1 h1 o1 e1 fillReport_cong[of bk1 bk, OF o1] by simp
      then show ?thesis using g2[of "entries bk lv"] g3[of "entries bk lv"] h2 e e1 by simp
    next
      case False
      then have res: "lv' = (bp, q') # lv" "bk' = bk1" using "2.prems"(1) True mm by auto
      show ?thesis using res g1 g2[of "entries bk lv"] g3[of "entries bk lv"] False e1 by simp
    qed
  qed
qed

lemma spec_fills_slots: "fst ` set (spec_fills sd p r xs) \<subseteq> fst ` set xs"
proof (induction xs arbitrary: r)
  case Nil
  then show ?case by simp
next
  case (Cons x xs)
  obtain a s bp where x: "x = (a, s, bp)" by (cases x)
  show ?case using Cons[of "r - min r s"] x by auto
qed

lemma fst_entries: "fst ` set (entries bk lv) = set (concat (map snd lv))"
proof -
  have "map fst (entries bk lv) = map fst (queueOf lv)"
    by (simp add: entries_def case_prod_unfold comp_def)
  then have "fst ` set (entries bk lv) = fst ` set (queueOf lv)" by (metis set_map)
  then show ?thesis using fst_queueOf[of lv] by simp
qed

lemma restResidual_opposite:
  assumes "restResidual i sd ty p a tr bk = Some (tr', bk')"
  shows "restingRoot (opposite sd) bk' = restingRoot (opposite sd) bk
     \<and> shares (oPool bk' b) = shares (oPool bk b)"
  using assms unfolding restResidual_def
  by (cases sd) (auto simp: Let_def split: if_splits bind_splits option.splits)

lemma processBody_opposite:
  assumes "book_inv bk" "ty \<noteq> Stop" "ty \<noteq> StopLimit" "getOrder i sd ty q p sp bk = Some (a, bk0)"
    "matchLoop a sd p 0 bk0 = Some (lp, bk2)" "processBody i sd ty q p sp cs bk = Some (tr, bk1)"
  shows "makerLevels sd bk1 = makerLevels sd bk2 \<and> shares (oPool bk1 b) = shares (oPool bk2 b)"
proof -
  from getOrder_phase[OF assms(1,4)] have t0: "trees_ok bk0" and n0: "a \<notin> set (all_slots bk0)" by auto
  from matchLoop_phase[OF t0 n0, of sd p 0] assms(5) have t2: "trees_ok bk2" by auto
  from assms(6) obtain tr3 bk3 where
    cso: "(if cs \<and> 0 < lp then checkStopOrders lp sd [] bk2 else Some ([], bk2)) = Some (tr3, bk3)"
    and rr: "restResidual i sd ty p a tr3 bk3 = Some (tr, bk1)"
    using assms(2,3,4,5) by (auto simp: processBody_def split: bind_splits)
  have c: "buyRoot bk3 = buyRoot bk2 \<and> sellRoot bk3 = sellRoot bk2
      \<and> (\<lambda>b. shares (oPool bk3 b)) = (\<lambda>b. shares (oPool bk2 b))"
  proof (cases "cs \<and> 0 < lp")
    case True
    from checkStopOrders_phase[OF t2, of lp sd "[]"] cso True show ?thesis by auto
  next
    case False
    then show ?thesis using cso by auto
  qed
  then have "restingRoot (opposite sd) bk3 = restingRoot (opposite sd) bk2"
    and s3: "shares (oPool bk3 b) = shares (oPool bk2 b)"
    by (cases sd; simp; metis)+
  then show ?thesis using restResidual_opposite[OF rr, of b] by (simp add: makerLevels_def)
qed

text \<open>
  The matching path of a submit against the specification's matching: the reports are
  the fills of \<open>spec_fills\<close> on the queue of the opposite side, and the queue it leaves is
  that of \<open>spec_rest\<close>.
\<close>

lemma processBody_fills:
  assumes "book_inv bk" "ty \<noteq> Stop" "ty \<noteq> StopLimit" "getOrder i sd ty q p sp bk = Some (a, bk0)"
  shows "\<exists>tr bk1. processBody i sd ty q p sp cs bk = Some (tr, bk1)
     \<and> map reportFields (newTrades bk bk1)
         = map (fillReport i bk) (spec_fills sd p q (sharesQueue sd bk))
     \<and> sharesQueue sd bk1 = spec_rest sd p q (sharesQueue sd bk)"
proof -
  note g = assms(4)
  have tb0: "tradeBuffer bk0 = tradeBuffer bk" and o0: "\<And>b. b \<noteq> a \<Longrightarrow> oPool bk0 b = oPool bk b"
    and oa: "oid (oPool bk0 a) = i" "shares (oPool bk0 a) = q" using g by (auto simp: getOrder_Some)
  from processBody_match[OF assms, of cs] obtain lp bk2 lv' bkS tr bk1 where
    ml: "matchLoop a sd p 0 bk0 = Some (lp, bk2)"
    and ms: "matchLevels a sd p (makerLevels sd bk) 0 bk0 = (lv', lp, bkS)"
    and l2: "makerLevels sd bk2 = lv'" and o2: "oPool bk2 = oPool bkS"
    and pb: "processBody i sd ty q p sp cs bk = Some (tr, bk1)"
    and tb: "tradeBuffer bk1 = tradeBuffer bkS" by blast
  let ?lv = "makerLevels sd bk"
  have na: "a \<notin> set (concat (map snd ?lv))" using taker_not_maker[OF assms(1) g] .
  have ok: "tree_ok (restingRoot (opposite sd) bk)"
    using assms(1) trees_ok_resting[of bk "opposite sd"] by (simp add: book_inv_def)
  have ne: "[] \<notin> snd ` set ?lv"
    using ok nonempty_levels_iff[of "restingRoot (opposite sd) bk" sd] by (simp add: tree_ok_def makerLevels_def)
  have "distinct (all_slots bk)" using assms(1) by (simp add: book_inv_def)
  then have "distinct (slots (restingRoot (opposite sd) bk))" by (cases sd) (auto simp: all_slots_def)
  then have di: "distinct (concat (map snd ?lv))"
    using distinct_mset_cong[OF mset_slots_levels_of[of sd "restingRoot (opposite sd) bk"]]
    by (simp add: makerLevels_def)
  from matchLevels_spec[OF ms na di ne] have
    s1: "map reportFields (newTrades bk0 bkS)
           = map (fillReport (oid (oPool bk0 a)) bk0)
               (spec_fills sd p (shares (oPool bk0 a)) (entries bk0 ?lv))"
    and s2: "entries bkS lv' = spec_rest sd p (shares (oPool bk0 a)) (entries bk0 ?lv)" by auto
  have e0: "entries bk0 ?lv = entries bk ?lv"
    using na o0 by (intro entries_cong) (metis)
  have nt: "newTrades bk bk1 = newTrades bk0 bkS" using tb tb0 by (simp add: newTrades_def)
  have mc: "map (fillReport i bk0) (spec_fills sd p q (entries bk ?lv))
          = map (fillReport i bk) (spec_fills sd p q (entries bk ?lv))"
  proof (rule map_cong[OF refl])
    fix y assume y: "y \<in> set (spec_fills sd p q (entries bk ?lv))"
    then have "fst y \<in> fst ` set (entries bk ?lv)" using spec_fills_slots[of sd p q "entries bk ?lv"] by auto
    then have "fst y \<noteq> a" using na fst_entries[of bk ?lv] by auto
    then show "fillReport i bk0 y = fillReport i bk y"
      using o0 by (simp add: fillReport_def)
  qed
  have r1: "map reportFields (newTrades bk bk1)
         = map (fillReport i bk) (spec_fills sd p q (sharesQueue sd bk))"
    using s1 nt oa e0 mc by (simp add: sharesQueue_def)
  from processBody_opposite[OF assms ml pb] have
    m1: "makerLevels sd bk1 = makerLevels sd bk2" and sh: "\<And>b. shares (oPool bk1 b) = shares (oPool bk2 b)"
    by auto
  have "entries bk1 lv' = entries bkS lv'" using sh o2 by (intro entries_cong) simp
  then have r2: "sharesQueue sd bk1 = spec_rest sd p q (sharesQueue sd bk)"
    using s2 m1 l2 oa e0 by (simp add: sharesQueue_def)
  show ?thesis using pb r1 r2 by blast
qed

section \<open>Balance of the trees at the level of pointers\<close>

text \<open>
  The tree functions on addressed nodes compute, on prices, heights and links, what the
  tree functions on levels compute; so they keep the balance.
\<close>

lemma h_shape [simp]: "h (shape t) = h_p t"
  by (cases t) auto

lemma th_shape [simp]: "th (shape t) = th_p t"
  by (induction t) auto

lemma avl_shape [simp]: "avl (shape t) = avl_p t"
  by (induction t) auto

lemma shape_Null_iff [simp]: "shape t = Null \<longleftrightarrow> t = PNull"
  by (cases t) auto

lemma shape_up [simp]: "shape (up_p t) = up (shape t)"
  by (cases t) auto

lemma getBal_shape [simp]: "getBal (shape t) = getBal_p t"
  by (cases t) auto

lemma left_shape [simp]: "left (shape t) = shape (left_p t)"
  by (cases t) auto

lemma right_shape [simp]: "right (shape t) = shape (right_p t)"
  by (cases t) auto

lemma lprice_shape [simp]: "lprice (shape t) = price_p t"
  by (cases t) auto

lemma setLeft_shape [simp]: "setLeft (shape l') (shape t) = shape (setLeft_p l' t)"
  by (cases t) auto

lemma setRight_shape [simp]: "setRight (shape r') (shape t) = shape (setRight_p r' t)"
  by (cases t) auto

lemma rotR_shape: "rotR (shape t) = map_option shape (rotR_p t)"
proof (cases t)
  case PNull
  then show ?thesis by simp
next
  case (PNode l a p ht r)
  then show ?thesis by (cases l) auto
qed

lemma rotL_shape: "rotL (shape t) = map_option shape (rotL_p t)"
proof (cases t)
  case PNull
  then show ?thesis by simp
next
  case (PNode l a p ht r)
  then show ?thesis by (cases r) auto
qed

lemma bind_rot_shape:
  "(map_option shape X \<bind> (\<lambda>l'. rotR (setLeft l' (shape n))))
     = map_option shape (X \<bind> (\<lambda>l'. rotR_p (setLeft_p l' n)))"
  "(map_option shape X \<bind> (\<lambda>r'. rotL (setRight r' (shape n))))
     = map_option shape (X \<bind> (\<lambda>r'. rotL_p (setRight_p r' n)))"
  by (cases X; simp add: rotL_shape rotR_shape)+

lemma insertBalance_shape: "insertBalance (shape n) p = map_option shape (insertBalance_p n p)"
  unfolding insertBalance_def insertBalance_p_def Let_def
  by (simp add: rotR_shape rotL_shape bind_rot_shape shape_up[symmetric] del: shape_up
        split: option.splits)

lemma removeBalance_shape: "removeBalance (shape n) = map_option shape (removeBalance_p n)"
  unfolding removeBalance_def removeBalance_p_def Let_def
  by (simp add: rotR_shape rotL_shape bind_rot_shape shape_up[symmetric] del: shape_up)


lemma getMin_shape: "getMin (shape t) = map_option (\<lambda>(a, p). (p, [])) (getMin_p t)"
  by (induction t) auto

lemma insert_p_shape:
  "insert_p t p hp = Some (t', tg, hp') \<Longrightarrow>
     \<exists>tg' fl'. insertL (shape t) p (if freeLimit hp = None then 0 else 1) = Some (shape t', tg', fl')"
proof (induction t arbitrary: t' tg hp')
  case PNull
  then show ?case by (auto simp: getLimit_p_def getLimit_def split: option.splits)
next
  case (PNode l a np ht r)
  let ?fl = "if freeLimit hp = None then 0 else (1::nat)"
  show ?case
  proof (cases "p < np")
    case True
    from PNode.prems True obtain l' tg1 hp1 where
      i: "insert_p l p hp = Some (l', tg1, hp1)"
      and b: "insertBalance_p (PNode l' a np ht r) p = Some t'"
      by (auto split: bind_splits)
    from PNode.IH(1)[OF i] obtain tg' fl' where
      j: "insertL (shape l) p ?fl = Some (shape l', tg', fl')" by blast
    have "insertBalance (Node (shape l') np [] ht (shape r)) p = Some (shape t')"
      using insertBalance_shape[of "PNode l' a np ht r" p] b by simp
    then show ?thesis using True j by simp
  next
    case False
    show ?thesis
    proof (cases "p > np")
      case gt: True
      from PNode.prems False gt obtain r' tg1 hp1 where
        i: "insert_p r p hp = Some (r', tg1, hp1)"
        and b: "insertBalance_p (PNode l a np ht r') p = Some t'"
        by (auto split: bind_splits)
      from PNode.IH(2)[OF i] obtain tg' fl' where
        j: "insertL (shape r) p ?fl = Some (shape r', tg', fl')" by blast
      have "insertBalance (Node (shape l) np [] ht (shape r')) p = Some (shape t')"
        using insertBalance_shape[of "PNode l a np ht r'" p] b by simp
      then show ?thesis using False gt j by simp
    next
      case eq: False
      then show ?thesis using False PNode.prems by auto
    qed
  qed
qed

lemma insert_p_avl: "avl_p t \<Longrightarrow> insert_p t p hp = Some (t', tg, hp') \<Longrightarrow> avl_p t'"
  using insert_p_shape[of t p hp t' tg hp'] insertL_avl_Some[of "shape t" p _ "shape t'"]
  by auto

lemma removeLimit_p_shape:
  "removeLimit_p t p hp = Some (t', hp') \<Longrightarrow> \<exists>fl'. removeLimit (shape t) p fl = Some (shape t', fl')"
proof (induction t arbitrary: p hp t' hp' fl)
  case PNull
  then show ?case by auto
next
  case (PNode l a np ht r)
  show ?case
  proof (cases "p < np")
    case True
    from PNode.prems True obtain l' hp1 where
      i: "removeLimit_p l p hp = Some (l', hp1)"
      and b: "removeBalance_p (PNode l' a np ht r) = Some t'"
      by (auto split: bind_splits)
    from PNode.IH(1)[OF i, of fl] obtain fl' where
      j: "removeLimit (shape l) p fl = Some (shape l', fl')" by blast
    have "removeBalance (Node (shape l') np [] ht (shape r)) = Some (shape t')"
      using removeBalance_shape[of "PNode l' a np ht r"] b by simp
    then show ?thesis using True j by simp
  next
    case nlt: False
    show ?thesis
    proof (cases "p > np")
      case True
      from PNode.prems nlt True obtain r' hp1 where
        i: "removeLimit_p r p hp = Some (r', hp1)"
        and b: "removeBalance_p (PNode l a np ht r') = Some t'"
        by (auto split: bind_splits)
      from PNode.IH(2)[OF i, of fl] obtain fl' where
        j: "removeLimit (shape r) p fl = Some (shape r', fl')" by blast
      have "removeBalance (Node (shape l) np [] ht (shape r')) = Some (shape t')"
        using removeBalance_shape[of "PNode l a np ht r'"] b by simp
      then show ?thesis using nlt True j by simp
    next
      case ngt: False
      show ?thesis
      proof (cases "l = PNull \<or> r = PNull")
        case True
        then show ?thesis using nlt ngt PNode.prems by auto
      next
        case two: False
        from PNode.prems nlt ngt two obtain sa sp os r' hp1 where
          g: "getMin_p r = Some (sa, sp)"
          and i: "removeLimit_p r sp
                     (hp\<lparr>limits := (limits hp)(a := (limits hp a)\<lparr>l_price := sp,
                               l_head := l_head (limits hp sa), l_tail := l_tail (limits hp sa)\<rparr>),
                         orders := os\<rparr>) = Some (r', hp1)"
          and b: "removeBalance_p (PNode l a sp ht r') = Some t'"
          by (auto split: bind_splits option.splits)
        from PNode.IH(2)[OF i, of fl] obtain fl' where
          j: "removeLimit (shape r) sp fl = Some (shape r', fl')" by blast
        have gm: "getMin (shape r) = Some (sp, [])" using g by (simp add: getMin_shape)
        have "removeBalance (Node (shape l) sp [] ht (shape r')) = Some (shape t')"
          using removeBalance_shape[of "PNode l a sp ht r'"] b by simp
        then show ?thesis using nlt ngt two gm j by simp
      qed
    qed
  qed
qed

lemma removeLimit_p_avl: "avl_p t \<Longrightarrow> removeLimit_p t p hp = Some (t', hp') \<Longrightarrow> avl_p t'"
  using removeLimit_p_shape[of t p hp t' hp' 0] removeLimit_avl_Some[of "shape t" p 0 "shape t'"]
  by auto

lemma roots_simps [simp]:
  "roots (setHead l v hp) = roots hp" "roots (setTail l v hp) = roots hp"
  "roots (setNext a v hp) = roots hp" "roots (setPrev a v hp) = roots hp"
  "roots (setParent a v hp) = roots hp" "roots (setShares_p a w hp) = roots hp"
  "roots (recycleOrder_p a hp) = roots hp" "roots (recycleLimit_p l hp) = roots hp"
  "roots (pushTrade_p t m n bp hp) = roots hp" "roots (fill_p t m bp hp) = roots hp"
  "roots (popMaker l m hp) = roots hp"
  "roots (hp\<lparr>orders := os\<rparr>) = roots hp" "roots (hp\<lparr>limits := ls\<rparr>) = roots hp"
  "roots (hp\<lparr>p_orderMap := om\<rparr>) = roots hp" "roots (hp\<lparr>p_stopOrderMap := om\<rparr>) = roots hp"
  "roots (hp\<lparr>p_generatedIdCounter := g\<rparr>) = roots hp"
  "roots (hp\<lparr>freeLimit := fl\<rparr>) = roots hp" "roots (hp\<lparr>freeOrder := fo\<rparr>) = roots hp"
  by (simp_all add: roots_def setHead_def setTail_def setNext_def setPrev_def setParent_def
      setShares_p_def recycleOrder_p_def recycleLimit_p_def pushTrade_p_def fill_p_def popMaker_def
      Let_def split: option.splits)

lemma roots_setRoot [simp]:
  "roots (hp\<lparr>p_buyRoot := t\<rparr>) = (t, p_sellRoot hp, p_stopBuyRoot hp, p_stopSellRoot hp)"
  "roots (hp\<lparr>p_sellRoot := t\<rparr>) = (p_buyRoot hp, t, p_stopBuyRoot hp, p_stopSellRoot hp)"
  "roots (hp\<lparr>p_stopBuyRoot := t\<rparr>) = (p_buyRoot hp, p_sellRoot hp, t, p_stopSellRoot hp)"
  "roots (hp\<lparr>p_stopSellRoot := t\<rparr>) = (p_buyRoot hp, p_sellRoot hp, p_stopBuyRoot hp, t)"
  by (simp_all add: roots_def)

lemma trees_avl_p_roots:
  "trees_avl_p hp = (case roots hp of (a, b, c, d) \<Rightarrow> avl_p a \<and> avl_p b \<and> avl_p c \<and> avl_p d)"
  by (simp add: trees_avl_p_def roots_def)

lemma roots_cong: "roots hp' = roots hp \<Longrightarrow> trees_avl_p hp' = trees_avl_p hp"
  by (simp add: trees_avl_p_roots)

lemma roots_eqD:
  "roots hp' = roots hp \<Longrightarrow> p_buyRoot hp' = p_buyRoot hp \<and> p_sellRoot hp' = p_sellRoot hp
     \<and> p_stopBuyRoot hp' = p_stopBuyRoot hp \<and> p_stopSellRoot hp' = p_stopSellRoot hp"
  by (simp add: roots_def)

lemma getOrder_p_roots: "getOrder_p i s t q p sp hp = Some (a, hp') \<Longrightarrow> roots hp' = roots hp"
  by (auto simp: getOrder_p_def roots_def split: option.splits)

lemma getLimit_p_roots: "getLimit_p p hp = Some (l, hp') \<Longrightarrow> roots hp' = roots hp"
  by (auto simp: getLimit_p_def roots_def split: option.splits)

lemma insert_p_roots: "insert_p t p hp = Some (t', tg, hp') \<Longrightarrow> roots hp' = roots hp"
proof (induction t arbitrary: t' tg hp')
  case PNull
  then show ?case using getLimit_p_roots by (auto split: option.splits)
next
  case (PNode l a np ht r)
  then show ?case by (auto split: if_splits bind_splits)
qed

lemma removeLimit_p_roots: "removeLimit_p t p hp = Some (t', hp') \<Longrightarrow> roots hp' = roots hp"
proof (induction t arbitrary: p hp t' hp')
  case PNull
  then show ?case by auto
next
  case (PNode l a np ht r)
  show ?case
  proof (cases "p < np")
    case True
    then show ?thesis using PNode.prems PNode.IH(1) by (auto split: bind_splits)
  next
    case nlt: False
    show ?thesis
    proof (cases "p > np")
      case True
      then show ?thesis using nlt PNode.prems PNode.IH(2) by (auto split: bind_splits)
    next
      case ngt: False
      show ?thesis
      proof (cases "l = PNull \<or> r = PNull")
        case True
        then show ?thesis using nlt ngt PNode.prems by auto
      next
        case two: False
        from PNode.prems nlt ngt two obtain sa sp os r' where
          i: "removeLimit_p r sp
                     (hp\<lparr>limits := (limits hp)(a := (limits hp a)\<lparr>l_price := sp,
                               l_head := l_head (limits hp sa), l_tail := l_tail (limits hp sa)\<rparr>),
                         orders := os\<rparr>) = Some (r', hp')"
          by (auto split: bind_splits option.splits)
        from PNode.IH(2)[OF i] show ?thesis by simp
      qed
    qed
  qed
qed

lemma trees_avl_p_upd:
  "trees_avl_p hp \<Longrightarrow> roots hp' = roots hp \<Longrightarrow> avl_p t \<Longrightarrow> trees_avl_p (hp'\<lparr>p_buyRoot := t\<rparr>)"
  "trees_avl_p hp \<Longrightarrow> roots hp' = roots hp \<Longrightarrow> avl_p t \<Longrightarrow> trees_avl_p (hp'\<lparr>p_sellRoot := t\<rparr>)"
  "trees_avl_p hp \<Longrightarrow> roots hp' = roots hp \<Longrightarrow> avl_p t \<Longrightarrow> trees_avl_p (hp'\<lparr>p_stopBuyRoot := t\<rparr>)"
  "trees_avl_p hp \<Longrightarrow> roots hp' = roots hp \<Longrightarrow> avl_p t \<Longrightarrow> trees_avl_p (hp'\<lparr>p_stopSellRoot := t\<rparr>)"
  by (auto simp: trees_avl_p_def roots_def)

lemma trees_avl_p_setResting:
  "trees_avl_p hp \<Longrightarrow> roots hp' = roots hp \<Longrightarrow> avl_p t \<Longrightarrow> trees_avl_p (setRestingRoot_p sd t hp')"
  by (simp add: setRestingRoot_p_def trees_avl_p_upd)

lemma trees_avl_p_setStop:
  "trees_avl_p hp \<Longrightarrow> roots hp' = roots hp \<Longrightarrow> avl_p t \<Longrightarrow> trees_avl_p (setStopRoot_p sd t hp')"
  by (simp add: setStopRoot_p_def trees_avl_p_upd)

lemma trees_avl_pD:
  "trees_avl_p hp \<Longrightarrow> avl_p (p_buyRoot hp) \<and> avl_p (p_sellRoot hp)
      \<and> avl_p (p_stopBuyRoot hp) \<and> avl_p (p_stopSellRoot hp)
      \<and> avl_p (restingRoot_p sd hp) \<and> avl_p (stopRoot_p sd hp)"
  by (simp add: trees_avl_p_def restingRoot_p_def stopRoot_p_def)

lemma remove_resting_avl:
  assumes "trees_avl_p hp" "removeLimit_p (restingRoot_p sd hp) p hp = Some (t, hp')"
  shows "trees_avl_p (setRestingRoot_p sd t hp')"
  using assms trees_avl_pD[OF assms(1), of sd] removeLimit_p_avl[OF _ assms(2)]
    removeLimit_p_roots[OF assms(2)] trees_avl_p_setResting by blast

lemma remove_stop_avl:
  assumes "trees_avl_p hp" "removeLimit_p (stopRoot_p sd hp) p hp = Some (t, hp')"
  shows "trees_avl_p (setStopRoot_p sd t hp')"
  using assms trees_avl_pD[OF assms(1), of sd] removeLimit_p_avl[OF _ assms(2)]
    removeLimit_p_roots[OF assms(2)] trees_avl_p_setStop by blast

lemma insert_resting_avl:
  assumes "trees_avl_p hp" "insert_p (restingRoot_p sd hp) p hp = Some (t, tg, hp')"
  shows "trees_avl_p (setRestingRoot_p sd t hp')"
  using assms trees_avl_pD[OF assms(1), of sd] insert_p_avl[OF _ assms(2)]
    insert_p_roots[OF assms(2)] trees_avl_p_setResting by blast

lemma insert_stop_avl:
  assumes "trees_avl_p hp" "insert_p (stopRoot_p sd hp) p hp = Some (t, tg, hp')"
  shows "trees_avl_p (setStopRoot_p sd t hp')"
  using assms trees_avl_pD[OF assms(1), of sd] insert_p_avl[OF _ assms(2)]
    insert_p_roots[OF assms(2)] trees_avl_p_setStop by blast

lemma matchMakers_p_roots:
  "matchMakers_p taker best bp maker lastp hp = Some (lp', hp') \<Longrightarrow> roots hp' = roots hp"
proof (induction taker best bp maker lastp hp "(lp', hp')"
    rule: matchMakers_p.raw_induct[rotated 1, consumes 1])
  case (1 matchMakers_p taker best bp maker lastp hp)
  show ?case
  proof (cases maker)
    case None
    then show ?thesis using 1(2) by simp
  next
    case (Some m)
    show ?thesis
    proof (cases "o_shares (orders hp taker) > 0")
      case False
      then show ?thesis using 1(2) Some by simp
    next
      case pos: True
      show ?thesis
      proof (cases "o_shares (orders (fill_p taker m bp hp) m) = 0")
        case False
        then show ?thesis using 1(2) Some pos by auto
      next
        case True
        have "matchMakers_p taker best bp
                 (l_head (limits (popMaker best m (fill_p taker m bp hp)) best)) bp
                 (popMaker best m (fill_p taker m bp hp)) = Some (lp', hp')"
          using 1(2) Some pos True by simp
        from 1(1)[OF this] show ?thesis by simp
      qed
    qed
  qed
qed

lemma matchLoop_p_avl:
  "matchLoop_p taker sd p lastp hp = Some (lp', hp') \<Longrightarrow> trees_avl_p hp \<Longrightarrow> trees_avl_p hp'"
proof (induction taker sd p lastp hp "(lp', hp')"
    rule: matchLoop_p.raw_induct[rotated 1, consumes 1])
  case (1 matchLoop_p taker sd p lastp hp)
  note eq = 1(2) and inv = 1(3)
  show ?case
  proof (cases "o_shares (orders hp taker) > 0")
    case False
    then show ?thesis using eq inv by simp
  next
    case pos: True
    show ?thesis
    proof (cases "if sd = Buy then getMin_p (p_sellRoot hp) else getMax_p (p_buyRoot hp)")
      case None
      then show ?thesis using eq inv pos by simp
    next
      case (Some bb)
      obtain best bp where bb: "bb = (best, bp)" by (cases bb)
      show ?thesis
      proof (cases "(sd = Buy \<and> p < bp) \<or> (sd = Sell \<and> p > bp)")
        case True
        then show ?thesis using eq inv pos Some bb by simp
      next
        case False
        from eq pos Some bb False obtain lp1 hp1 hp2 where
          mm: "matchMakers_p taker best bp (l_head (limits hp best)) lastp hp = Some (lp1, hp1)"
          and rm: "(if l_head (limits hp1 best) = None then
                              (if sd = Buy then
                                 do { (t, hp') \<leftarrow> removeLimit_p (p_sellRoot hp1) bp hp1;
                                      Some (hp'\<lparr>p_sellRoot := t\<rparr>) }
                               else
                                 do { (t, hp') \<leftarrow> removeLimit_p (p_buyRoot hp1) bp hp1;
                                      Some (hp'\<lparr>p_buyRoot := t\<rparr>) })
                            else Some hp1) = Some hp2"
          and rec: "matchLoop_p taker sd p lp1 hp2 = Some (lp', hp')"
          by (auto split: bind_splits)
        have i1: "trees_avl_p hp1"
          using roots_cong[OF matchMakers_p_roots[OF mm]] inv by simp
        have "trees_avl_p hp2"
        proof (cases "l_head (limits hp1 best) = None")
          case False
          then show ?thesis using rm i1 by (auto split: if_splits)
        next
          case True
          show ?thesis
          proof (cases "sd = Buy")
            case True
            from rm \<open>l_head (limits hp1 best) = None\<close> True obtain t h' where
              r: "removeLimit_p (p_sellRoot hp1) bp hp1 = Some (t, h')"
              and e: "hp2 = h'\<lparr>p_sellRoot := t\<rparr>"
              by (auto split: bind_splits)
            show ?thesis
              using remove_resting_avl[OF i1, of Sell bp t h'] r e
              by (simp add: restingRoot_p_def setRestingRoot_p_def)
          next
            case False
            from rm \<open>l_head (limits hp1 best) = None\<close> False obtain t h' where
              r: "removeLimit_p (p_buyRoot hp1) bp hp1 = Some (t, h')"
              and e: "hp2 = h'\<lparr>p_buyRoot := t\<rparr>"
              by (auto split: bind_splits)
            show ?thesis
              using remove_resting_avl[OF i1, of Buy bp t h'] r e
              by (simp add: restingRoot_p_def setRestingRoot_p_def)
          qed
        qed
        from 1(1)[OF rec this] show ?thesis .
      qed
    qed
  qed
qed

lemma collectStops_p_roots:
  "collectStops_p s tr hp = Some (tr', hp') \<Longrightarrow> roots hp' = roots hp"
proof (induction s tr hp "(tr', hp')" rule: collectStops_p.raw_induct[rotated 1, consumes 1])
  case (1 collectStops_p s tr hp)
  show ?case
  proof (cases s)
    case None
    then show ?thesis using 1(2) by simp
  next
    case (Some a)
    have "collectStops_p (o_next (orders hp a)) (tr @ [descriptor_p (orders hp a)])
            (recycleOrder_p a (hp\<lparr>p_stopOrderMap := (p_stopOrderMap hp)(o_id (orders hp a) := None)\<rparr>))
          = Some (tr', hp')"
      using 1(2) Some by simp
    from 1(1)[OF this] show ?thesis by simp
  qed
qed

lemma stopSellLoop_p_avl:
  "stopSellLoop_p ep tr hp = Some (tr', hp') \<Longrightarrow> trees_avl_p hp \<Longrightarrow> trees_avl_p hp'"
proof (induction ep tr hp "(tr', hp')" rule: stopSellLoop_p.raw_induct[rotated 1, consumes 1])
  case (1 stopSellLoop_p ep tr hp)
  note eq = 1(2) and inv = 1(3)
  show ?case
  proof (cases "getMax_p (p_stopSellRoot hp)")
    case None
    then show ?thesis using eq inv by simp
  next
    case (Some hh)
    obtain highest highp where hh: "hh = (highest, highp)" by (cases hh)
    show ?thesis
    proof (cases "ep \<le> highp")
      case False
      then show ?thesis using eq inv Some hh by simp
    next
      case True
      from eq Some hh True obtain tr1 hp1 t hp2 where
        cs: "collectStops_p (l_head (limits hp highest)) tr hp = Some (tr1, hp1)"
        and rm: "removeLimit_p (p_stopSellRoot hp1) highp hp1 = Some (t, hp2)"
        and rec: "stopSellLoop_p ep tr1 (hp2\<lparr>p_stopSellRoot := t\<rparr>) = Some (tr', hp')"
        by (auto split: bind_splits)
      have i1: "trees_avl_p hp1"
        using roots_cong[OF collectStops_p_roots[OF cs]] inv by simp
      have "trees_avl_p (hp2\<lparr>p_stopSellRoot := t\<rparr>)"
        using remove_stop_avl[OF i1, of Sell highp t hp2] rm
        by (simp add: stopRoot_p_def setStopRoot_p_def)
      from 1(1)[OF rec this] show ?thesis .
    qed
  qed
qed

lemma stopBuyLoop_p_avl:
  "stopBuyLoop_p ep tr hp = Some (tr', hp') \<Longrightarrow> trees_avl_p hp \<Longrightarrow> trees_avl_p hp'"
proof (induction ep tr hp "(tr', hp')" rule: stopBuyLoop_p.raw_induct[rotated 1, consumes 1])
  case (1 stopBuyLoop_p ep tr hp)
  note eq = 1(2) and inv = 1(3)
  show ?case
  proof (cases "getMin_p (p_stopBuyRoot hp)")
    case None
    then show ?thesis using eq inv by simp
  next
    case (Some hh)
    obtain lowest lowp where hh: "hh = (lowest, lowp)" by (cases hh)
    show ?thesis
    proof (cases "ep \<ge> lowp")
      case False
      then show ?thesis using eq inv Some hh by simp
    next
      case True
      from eq Some hh True obtain tr1 hp1 t hp2 where
        cs: "collectStops_p (l_head (limits hp lowest)) tr hp = Some (tr1, hp1)"
        and rm: "removeLimit_p (p_stopBuyRoot hp1) lowp hp1 = Some (t, hp2)"
        and rec: "stopBuyLoop_p ep tr1 (hp2\<lparr>p_stopBuyRoot := t\<rparr>) = Some (tr', hp')"
        by (auto split: bind_splits)
      have i1: "trees_avl_p hp1"
        using roots_cong[OF collectStops_p_roots[OF cs]] inv by simp
      have "trees_avl_p (hp2\<lparr>p_stopBuyRoot := t\<rparr>)"
        using remove_stop_avl[OF i1, of Buy lowp t hp2] rm
        by (simp add: stopRoot_p_def setStopRoot_p_def)
      from 1(1)[OF rec this] show ?thesis .
    qed
  qed
qed

lemma checkStopOrders_p_avl:
  assumes "checkStopOrders_p ep sd tr hp = Some (tr', hp')" "trees_avl_p hp"
  shows "trees_avl_p hp'"
proof -
  from assms(1) obtain tr1 hp1 where
    a: "(if sd = Sell \<and> p_stopSellRoot hp \<noteq> PNull
             then stopSellLoop_p ep tr hp else Some (tr, hp)) = Some (tr1, hp1)"
    and b: "(if sd = Buy \<and> p_stopBuyRoot hp1 \<noteq> PNull
          then stopBuyLoop_p ep tr1 hp1 else Some (tr1, hp1)) = Some (tr', hp')"
    unfolding checkStopOrders_p_def by (auto split: bind_splits)
  have "trees_avl_p hp1"
    using a assms(2) stopSellLoop_p_avl by (auto split: if_splits)
  then show ?thesis
    using b stopBuyLoop_p_avl by (auto split: if_splits)
qed

lemma link_p_roots: "link_p a L hp = Some hp' \<Longrightarrow> roots hp' = roots hp"
  unfolding link_p_def by (auto simp: Let_def split: bind_splits option.splits)

lemma unlink_p_roots: "unlink_p a L hp = Some hp' \<Longrightarrow> roots hp' = roots hp"
  unfolding unlink_p_def by (auto simp: Let_def split: bind_splits option.splits)

lemma armStop_p_avl:
  assumes "armStop_p i sd sp a hp = Some hp'" "trees_avl_p hp"
  shows "trees_avl_p hp'"
proof -
  from assms(1) obtain t L hp2 where
    i: "insert_p (stopRoot_p sd hp) sp hp = Some (t, L, hp2)"
    and r: "(case L of None \<Rightarrow> Some (setStopRoot_p sd t hp2)
             | Some l \<Rightarrow> do { hp4 \<leftarrow> link_p a l (setStopRoot_p sd t hp2);
                    Some (hp4\<lparr>p_stopOrderMap := (p_stopOrderMap hp4)(i \<mapsto> a)\<rparr>) }) = Some hp'"
    unfolding armStop_p_def by (auto simp: Let_def split: bind_splits)
  have i3: "trees_avl_p (setStopRoot_p sd t hp2)" by (rule insert_stop_avl[OF assms(2) i])
  show ?thesis
  proof (cases L)
    case None
    then show ?thesis using r i3 by simp
  next
    case (Some l)
    from r Some obtain hp4 where
      l: "link_p a l (setStopRoot_p sd t hp2) = Some hp4"
      and e: "hp' = hp4\<lparr>p_stopOrderMap := (p_stopOrderMap hp4)(i \<mapsto> a)\<rparr>"
      by (auto split: bind_splits)
    show ?thesis using roots_cong[OF link_p_roots[OF l]] i3 e roots_cong[of hp' hp4] by simp
  qed
qed

lemma restResidual_p_avl:
  assumes "restResidual_p i sd ty p a ts hp = Some (ts', hp')" "trees_avl_p hp"
  shows "trees_avl_p hp'"
proof (cases "o_shares (orders hp a) > 0 \<and> ty = Limit")
  case False
  then have "hp' = recycleOrder_p a hp" using assms(1) unfolding restResidual_p_def by auto
  then show ?thesis using assms(2) roots_cong[of hp' hp] by simp
next
  case True
  from assms(1) True obtain t L hp4 where
    i: "insert_p (restingRoot_p sd hp) p hp = Some (t, L, hp4)"
    and r: "(case L of None \<Rightarrow> Some ([], setRestingRoot_p sd t hp4)
              | Some l \<Rightarrow>
                  do { hp6 \<leftarrow> link_p a l (setRestingRoot_p sd t hp4);
                       Some (ts, hp6\<lparr>p_orderMap := (p_orderMap hp6)(i \<mapsto> a)\<rparr>) }) = Some (ts', hp')"
    unfolding restResidual_p_def by (auto simp: Let_def split: bind_splits)
  have i3: "trees_avl_p (setRestingRoot_p sd t hp4)" by (rule insert_resting_avl[OF assms(2) i])
  show ?thesis
  proof (cases L)
    case None
    then show ?thesis using r i3 by simp
  next
    case (Some l)
    from r Some obtain hp6 where
      l: "link_p a l (setRestingRoot_p sd t hp4) = Some hp6"
      and e: "hp' = hp6\<lparr>p_orderMap := (p_orderMap hp6)(i \<mapsto> a)\<rparr>"
      by (auto split: bind_splits)
    show ?thesis using roots_cong[OF link_p_roots[OF l]] i3 e roots_cong[of hp' hp6] by simp
  qed
qed

lemma processBody_p_avl:
  assumes "processBody_p i sd ty q p sp cs hp = Some (ts, hp')" "trees_avl_p hp"
  shows "trees_avl_p hp'"
proof (cases "getOrder_p i sd ty q p sp hp")
  case None
  then show ?thesis using assms unfolding processBody_p_def by (auto split: if_splits)
next
  case (Some r)
  obtain a hp1 where r: "r = (a, hp1)" by (cases r)
  have i1: "trees_avl_p hp1"
    using roots_cong[OF getOrder_p_roots, of i sd ty q p sp hp a hp1] Some r assms(2) by simp
  show ?thesis
  proof (cases "ty = Stop \<or> ty = StopLimit")
    case True
    then have "armStop_p i sd sp a hp1 = Some hp'"
      using assms(1) Some r unfolding processBody_p_def by (auto split: bind_splits)
    from armStop_p_avl[OF this i1] show ?thesis .
  next
    case False
    from assms(1) Some r False obtain lp hp2 ts3 hp3 where
      m: "matchLoop_p a sd p 0 hp1 = Some (lp, hp2)"
      and c: "(if cs \<and> lp > 0 then checkStopOrders_p lp sd [] hp2 else Some ([], hp2)) = Some (ts3, hp3)"
      and rr: "restResidual_p i sd ty p a ts3 hp3 = Some (ts, hp')"
      unfolding processBody_p_def by (auto split: bind_splits)
    have i2: "trees_avl_p hp2" by (rule matchLoop_p_avl[OF m i1])
    have i3: "trees_avl_p hp3"
      using c i2 checkStopOrders_p_avl by (auto split: if_splits)
    from restResidual_p_avl[OF rr i3] show ?thesis .
  qed
qed

lemma resubmitStops_p_avl:
  "resubmitStops_p ts hp = Some hp' \<Longrightarrow> trees_avl_p hp \<Longrightarrow> trees_avl_p hp'"
proof (induction ts arbitrary: hp)
  case Nil
  then show ?case by simp
next
  case (Cons x xs)
  from Cons.prems(1) obtain tr hp2 where
    b: "processBody_p (p_generatedIdCounter hp) (ts_side x) (convertToType x) (ts_shares x)
            (limitPrice x) 0 False (hp\<lparr>p_generatedIdCounter := p_generatedIdCounter hp + 1\<rparr>)
          = Some (tr, hp2)"
    and r: "resubmitStops_p xs hp2 = Some hp'"
    by (auto simp: Let_def split: bind_splits)
  have "trees_avl_p (hp\<lparr>p_generatedIdCounter := p_generatedIdCounter hp + 1\<rparr>)"
    using Cons.prems(2) roots_cong[of "hp\<lparr>p_generatedIdCounter := p_generatedIdCounter hp + 1\<rparr>" hp]
    by simp
  from Cons.IH[OF r processBody_p_avl[OF b this]] show ?case .
qed

lemma processOrder_p_avl:
  assumes "processOrder_p i sd ty q p sp hp = Some hp'" "trees_avl_p hp"
  shows "trees_avl_p hp'"
proof -
  from assms(1) obtain ts hp1 where
    b: "processBody_p i sd ty q p sp True hp = Some (ts, hp1)"
    and r: "resubmitStops_p ts hp1 = Some hp'"
    unfolding processOrder_p_def processOrderInternal_p_def by (auto split: bind_splits)
  from resubmitStops_p_avl[OF r processBody_p_avl[OF b assms(2)]] show ?thesis .
qed

lemma cancelOrder_p_avl:
  assumes "cancelOrder_p i hp = Some (b, hp')" "trees_avl_p hp"
  shows "trees_avl_p hp'"
proof (cases "p_orderMap hp i")
  case (Some a)
  from assms(1) Some obtain hp1 l hp2 where
    u: "unlink_p a (o_parentLimit (orders hp a)) hp = Some hp1"
    and r: "(if l_head (limits hp1 l) = None then
               do { (t, hp') \<leftarrow> removeLimit_p (restingRoot_p (o_side (orders hp1 a)) hp1)
                                  (l_price (limits hp1 l)) hp1;
                    Some (setRestingRoot_p (o_side (orders hp1 a)) t hp') }
             else Some hp1) = Some hp2"
    and e: "hp' = recycleOrder_p a (hp2\<lparr>p_orderMap := (p_orderMap hp2)(i := None)\<rparr>)"
    unfolding cancelOrder_p_def by (auto simp: Let_def split: bind_splits)
  have i1: "trees_avl_p hp1" using roots_cong[OF unlink_p_roots[OF u]] assms(2) by simp
  have "trees_avl_p hp2"
    using r i1 remove_resting_avl[OF i1] by (auto split: if_splits bind_splits)
  then show ?thesis
    using e roots_cong[of hp' hp2] by simp
next
  case None
  show ?thesis
  proof (cases "p_stopOrderMap hp i")
    case N2: None
    then show ?thesis using assms None unfolding cancelOrder_p_def by simp
  next
    case (Some a)
    from assms(1) None Some obtain hp1 l hp2 where
      u: "unlink_p a (o_parentLimit (orders hp a)) hp = Some hp1"
      and r: "(if l_head (limits hp1 l) = None then
                 do { (t, hp') \<leftarrow> removeLimit_p (stopRoot_p (o_side (orders hp1 a)) hp1)
                                    (l_price (limits hp1 l)) hp1;
                      Some (setStopRoot_p (o_side (orders hp1 a)) t hp') }
               else Some hp1) = Some hp2"
      and e: "hp' = recycleOrder_p a (hp2\<lparr>p_stopOrderMap := (p_stopOrderMap hp2)(i := None)\<rparr>)"
      unfolding cancelOrder_p_def by (auto simp: Let_def split: bind_splits)
    have i1: "trees_avl_p hp1" using roots_cong[OF unlink_p_roots[OF u]] assms(2) by simp
    have "trees_avl_p hp2"
      using r i1 remove_stop_avl[OF i1] by (auto split: if_splits bind_splits)
    then show ?thesis
      using e roots_cong[of hp' hp2] by simp
  qed
qed

lemma modifyOrder_p_avl:
  assumes "modifyOrder_p i nq np hp = Some (b, hp')" "trees_avl_p hp"
  shows "trees_avl_p hp'"
proof (cases "p_orderMap hp i")
  case None
  then show ?thesis using assms unfolding modifyOrder_p_def by simp
next
  case (Some a)
  show ?thesis
  proof (cases "np = o_price (orders hp a)")
    case True
    then have "hp' = setShares_p a nq hp" using assms(1) Some unfolding modifyOrder_p_def by simp
    then show ?thesis using assms(2) roots_cong[of hp' hp] by simp
  next
    case False
    define sd where "sd = o_side (orders hp a)"
    from assms(1) Some False obtain hp1 l hp2 t nl hp4 where
      u: "unlink_p a (o_parentLimit (orders hp a)) hp = Some hp1"
      and r: "(if l_head (limits hp1 l) = None then
                 do { (t, hp') \<leftarrow> removeLimit_p (restingRoot_p sd hp1) (l_price (limits hp1 l)) hp1;
                      Some (setRestingRoot_p sd t hp') }
               else Some hp1) = Some hp2"
      and ins: "insert_p (restingRoot_p sd (hp2\<lparr>orders := (orders hp2)(a := (orders hp2 a)\<lparr>o_price := np,
                                  o_shares := nq, o_prev := None, o_next := None\<rparr>)\<rparr>)) np
                  (hp2\<lparr>orders := (orders hp2)(a := (orders hp2 a)\<lparr>o_price := np,
                                  o_shares := nq, o_prev := None, o_next := None\<rparr>)\<rparr>) = Some (t, nl, hp4)"
      and fin: "(case nl of None \<Rightarrow> Some (False, setRestingRoot_p sd t hp4)
                 | Some n \<Rightarrow> do { hp6 \<leftarrow> link_p a n (setRestingRoot_p sd t hp4); Some (True, hp6) })
                = Some (b, hp')"
      unfolding modifyOrder_p_def sd_def
      by (simp add: Let_def bind_eq_Some_conv split del: if_split) blast
    let ?hp3 = "hp2\<lparr>orders := (orders hp2)(a := (orders hp2 a)\<lparr>o_price := np,
                                  o_shares := nq, o_prev := None, o_next := None\<rparr>)\<rparr>"
    have i1: "trees_avl_p hp1" using roots_cong[OF unlink_p_roots[OF u]] assms(2) by simp
    have i2: "trees_avl_p hp2"
      using r i1 remove_resting_avl[OF i1] by (auto split: if_splits bind_splits)
    have i3: "trees_avl_p ?hp3" using i2 roots_cong[of ?hp3 hp2] by simp
    have i5: "trees_avl_p (setRestingRoot_p sd t hp4)" by (rule insert_resting_avl[OF i3 ins])
    show ?thesis
    proof (cases nl)
      case None
      then show ?thesis using fin i5 by simp
    next
      case (Some n)
      then obtain hp6 where l: "link_p a n (setRestingRoot_p sd t hp4) = Some hp6" and e: "hp' = hp6"
        using fin by (auto split: bind_splits)
      show ?thesis using roots_cong[OF link_p_roots[OF l]] i5 e by simp
    qed
  qed
qed

lemma act_p_avl: "act_p x hp = Some hp' \<Longrightarrow> trees_avl_p hp \<Longrightarrow> trees_avl_p hp'"
proof (cases x)
  case (Submit i sd ty q p sp)
  then show "act_p x hp = Some hp' \<Longrightarrow> trees_avl_p hp \<Longrightarrow> trees_avl_p hp'"
    using processOrder_p_avl by simp
next
  case (Cancel i)
  then show "act_p x hp = Some hp' \<Longrightarrow> trees_avl_p hp \<Longrightarrow> trees_avl_p hp'"
    using cancelOrder_p_avl by auto
next
  case (Modify i q p)
  then show "act_p x hp = Some hp' \<Longrightarrow> trees_avl_p hp \<Longrightarrow> trees_avl_p hp'"
    using modifyOrder_p_avl by auto
qed

lemma run_p_avl: "run_p xs hp = Some hp' \<Longrightarrow> trees_avl_p hp \<Longrightarrow> trees_avl_p hp'"
proof (induction xs arbitrary: hp)
  case Nil
  then show ?case by simp
next
  case (Cons x xs)
  from Cons.prems(1) obtain hp1 where a: "act_p x hp = Some hp1" and r: "run_p xs hp1 = Some hp'"
    by (auto split: bind_splits)
  from Cons.IH[OF r act_p_avl[OF a Cons.prems(2)]] show ?case .
qed

lemma trees_avl_p_newBook: "trees_avl_p (newBook_p n)"
  by (simp add: trees_avl_p_def newBook_p_def)

text \<open>
  A run that the source does not survive: its last submit links an order behind the
  tail of a level whose head is set and whose tail is null.
\<close>

lemma null_tail_run_fails:
  "map_option (\<lambda>hp. (p_sellRoot hp, l_head (limits hp 0), l_tail (limits hp 0)))
     (run_p (butlast null_tail_run) (newBook_p 5)) = Some (PNode PNull 0 200 1 PNull, Some 2, None)
   \<and> run_p null_tail_run (newBook_p 5) = None"
  by code_simp

section \<open>Scenario 4: the sell stop stays armed\<close>

text \<open>
  Claim C1, as the code has it. In scenario 4 exactly one trade (taker 3, maker 1,
  4 shares at price 90) is emitted. The trigger pass runs once, for price 90 and a buy
  aggressor; it scans the stop-buy tree only, which is empty, so the sell stop 2 does not
  fire and stays armed at stop price 95. At the end one stop is armed, one order rests,
  and order 1 rests with 6 shares at price 90.
\<close>

theorem scenario4_outcome:
  "map_option
     (\<lambda>bk. (tradeBuffer bk, stopChecks bk, getStopOrderCount bk, getOrderCount bk,
            inorder (buyRoot bk), inorder (sellRoot bk),
            inorder (stopBuyRoot bk), inorder (stopSellRoot bk),
            orderMap bk 1, stopOrderMap bk 2,
            oid (oPool bk 0), shares (oPool bk 0), price (oPool bk 0),
            oid (oPool bk 1), otype (oPool bk 1), stopPrice (oPool bk 1))) scenario4
   = Some ([\<lparr>takerId = 3, makerId = 1, qty = 4, tprice = 90, timestamp = 0\<rparr>],
           [(90, Buy)], 1, 1,
           [], [(90, [0])], [], [(95, [1])],
           Some 0, Some 1,
           1, 6, 90,
           2, Stop, 95)"
  by (simp add: scenario4_def engine_defs getStopOrderCount_def getOrderCount_def)

text \<open>The claim as stated fails: the scenario does not end with a stop count of 0.\<close>

theorem scenario4_stop_count_counterexample:
  "map_option getStopOrderCount scenario4 \<noteq> Some 0"
  by (simp add: scenario4_def engine_defs getStopOrderCount_def)

section \<open>Level-pool exhaustion in modifyOrder\<close>

text \<open>
  Claim C6 at a concrete input. With the only \<open>Limit\<close> node in use by level 100, which
  holds orders 1 and 2, \<open>modifyOrder(1, 5, 101)\<close> gets a null level from the arena and
  returns false, but the book has changed: order 1 (slot 0) has left the FIFO of level
  100 and is in no FIFO, while it is still in the index, with price 101.
\<close>

theorem modify_exhaustion_changes_book:
  "map_option (\<lambda>bk. (inorder (buyRoot bk), orderMap bk 1, price (oPool bk 0), fLimit bk))
     before_exhausted_modify = Some ([(100, [0, 1])], Some 0, 100, 0)
   \<and> map_option (\<lambda>(ok, bk). (ok, inorder (buyRoot bk), orderMap bk 1, price (oPool bk 0),
                                tradeBuffer bk))
       exhausted_modify = Some (False, [(100, [1])], Some 0, 101, [])"
  by (simp add: before_exhausted_modify_def exhausted_modify_def engine_defs)

section \<open>Balance of the four trees\<close>

text \<open>
  Claim C8. After every public operation (submit, cancel, modify) of a run from a fresh
  engine, in each of the four trees every node records \<open>1 + max\<close> of the heights of
  its subtrees and has a balance factor of \<open>-1\<close>, \<open>0\<close> or \<open>1\<close>. The run is taken at the
  level of pointers, where it has a state after each operation that returns, whatever
  the arguments and whatever the book it finds, also after a modify that was dropped for
  exhaustion; \<open>run_p\<close> is \<open>None\<close> only where an operation of the source dereferences a null
  pointer or does not return, as the last submit of \<open>null_tail_run\<close> does.
\<close>

theorem trees_avl_reachable:
  "run_p xs (newBook_p n) = Some hp \<Longrightarrow> trees_avl_p hp"
  using run_p_avl[of xs "newBook_p n" hp] trees_avl_p_newBook by simp

theorem trees_avl_reachable_witness:
  "map_option roots (run_p rotating_run (newBook_p 50)) =
     Some (PNode (PNode PNull 8 60 1 PNull) 7 80 2 (PNode PNull 5 85 1 PNull),
           PNode (PNode PNull 1 120 2 (PNode PNull 4 123 1 PNull)) 3 126 3
             (PNode PNull 2 130 1 PNull),
           PNode PNull 9 140 1 PNull, PNode PNull 0 75 1 PNull)
   \<and> trees_avl_p (the (run_p rotating_run (newBook_p 50)))"
proof -
  have r: "map_option roots (run_p rotating_run (newBook_p 50)) =
     Some (PNode (PNode PNull 8 60 1 PNull) 7 80 2 (PNode PNull 5 85 1 PNull),
           PNode (PNode PNull 1 120 2 (PNode PNull 4 123 1 PNull)) 3 126 3
             (PNode PNull 2 130 1 PNull),
           PNode PNull 9 140 1 PNull, PNode PNull 0 75 1 PNull)"
    by code_simp
  then obtain hp where s: "run_p rotating_run (newBook_p 50) = Some hp" by auto
  from trees_avl_reachable[OF s] s r show ?thesis by simp
qed

section \<open>Share counts of resting orders\<close>




section \<open>Orders with a quantity of zero\<close>

text \<open>
  Claim C10. A market or limit order submitted with \<open>qty = 0\<close> returns the state it was
  given, but for the fields written into the free order node it took and gave back: no
  report is pushed, the four trees, the two indices and both free lists are the same.
  A stop or stop-limit order with \<open>qty = 0\<close>, submitted to a consistent book with a free
  order node \<open>a\<close> and a level at its stop price or a free \<open>Limit\<close> node, is armed at
  the tail of the FIFO at its stop price and entered in the stop index, with 0 shares.
\<close>

theorem zero_qty_submit:
  assumes "ty = Market \<or> ty = Limit" "sty = Stop \<or> sty = StopLimit"
    "book_inv bk" "fOrder bk = a # fr" "sp \<in> set (keys (stopRoot sd bk)) \<or> 0 < fLimit bk"
  shows "processOrder i sd ty 0 p sp0 bk0 =
           Some (case fOrder bk0 of [] \<Rightarrow> bk0
                 | b # fr0 \<Rightarrow> bk0\<lparr>oPool := (oPool bk0)(b := \<lparr>oid = i, side = sd, otype = ty,
                       shares = 0, price = p, stopPrice = sp0, parentLimit = None\<rparr>)\<rparr>)
       \<and> (\<exists>bk'. processOrder i sd sty 0 p sp bk = Some bk'
             \<and> stopOrderMap bk' = (stopOrderMap bk)(i \<mapsto> a)
             \<and> inorder (stopRoot sd bk')
                 = upd_level sp (\<lambda>q. q @ [a])
                     (if sp \<in> set (keys (stopRoot sd bk)) then inorder (stopRoot sd bk)
                      else ins_level sp (inorder (stopRoot sd bk)))
             \<and> oPool bk' a = \<lparr>oid = i, side = sd, otype = sty, shares = 0, price = p,
                               stopPrice = sp, parentLimit = Some sp\<rparr>
             \<and> fOrder bk' = fr \<and> tradeBuffer bk' = tradeBuffer bk)"
proof
  have ns: "ty \<noteq> Stop" "ty \<noteq> StopLimit" using assms(1) by auto
  show "processOrder i sd ty 0 p sp0 bk0 =
           Some (case fOrder bk0 of [] \<Rightarrow> bk0
                 | b # fr0 \<Rightarrow> bk0\<lparr>oPool := (oPool bk0)(b := \<lparr>oid = i, side = sd, otype = ty,
                       shares = 0, price = p, stopPrice = sp0, parentLimit = None\<rparr>)\<rparr>)"
  proof (cases "fOrder bk0")
    case Nil
    then have "getOrder i sd ty 0 p sp0 bk0 = None" by (simp add: getOrder_def)
    then show ?thesis using ns Nil
      by (simp add: processOrder_def processOrderInternal_def processBody_def)
  next
    case (Cons b fr0)
    let ?o = "\<lparr>oid = i, side = sd, otype = ty, shares = 0, price = p, stopPrice = sp0, parentLimit = None\<rparr>"
    let ?bk1 = "bk0\<lparr>fOrder := fr0, oPool := (oPool bk0)(b := ?o)\<rparr>"
    have g: "getOrder i sd ty 0 p sp0 bk0 = Some (b, ?bk1)" using Cons by (simp add: getOrder_def)
    have m: "matchLoop b sd p 0 ?bk1 = Some (0, ?bk1)" by (rule matchLoop_no_shares) simp
    have rr: "restResidual i sd ty p b [] ?bk1 = Some ([], recycleOrder b ?bk1)"
      by (simp add: restResidual_def)
    have eq: "recycleOrder b ?bk1 = bk0\<lparr>oPool := (oPool bk0)(b := ?o)\<rparr>"
      using Cons by (simp add: recycleOrder_def)
    show ?thesis using ns g m rr eq Cons
      by (simp add: processOrder_def processOrderInternal_def processBody_def)
  qed
next
  let ?o = "\<lparr>oid = i, side = sd, otype = sty, shares = 0, price = p, stopPrice = sp, parentLimit = None\<rparr>"
  let ?bk1 = "bk\<lparr>fOrder := fr, oPool := (oPool bk)(a := ?o)\<rparr>"
  have g: "getOrder i sd sty 0 p sp bk = Some (a, ?bk1)" using assms(4) by (simp add: getOrder_def)
  have sr: "stopRoot sd ?bk1 = stopRoot sd bk" using stopRoot_getOrder[OF g] .
  have ok: "tree_ok (stopRoot sd ?bk1)"
    using trees_ok_stop[of bk sd] assms(3) sr by (simp add: book_inv_def)
  have c: "sp \<in> set (keys (stopRoot sd ?bk1)) \<or> 0 < fLimit ?bk1" using assms(5) sr by simp
  from armStop_link[OF ok c, of i a] obtain bk' where
    ar: "armStop i sd sp a ?bk1 = Some bk'"
    and r: "stopOrderMap bk' = (stopOrderMap ?bk1)(i \<mapsto> a)"
      "inorder (stopRoot sd bk')
         = upd_level sp (\<lambda>q. q @ [a])
             (if sp \<in> set (keys (stopRoot sd ?bk1)) then inorder (stopRoot sd ?bk1)
              else ins_level sp (inorder (stopRoot sd ?bk1)))"
      "oPool bk' = (oPool ?bk1)(a := (oPool ?bk1 a)\<lparr>parentLimit := Some sp\<rparr>)"
      "tradeBuffer bk' = tradeBuffer ?bk1" "fOrder bk' = fOrder ?bk1" by blast
  have "processOrder i sd sty 0 p sp bk = Some bk'"
    using assms(2) g ar by (auto simp: processOrder_def processOrderInternal_def processBody_def)
  then show "\<exists>bk'. processOrder i sd sty 0 p sp bk = Some bk'
             \<and> stopOrderMap bk' = (stopOrderMap bk)(i \<mapsto> a)
             \<and> inorder (stopRoot sd bk')
                 = upd_level sp (\<lambda>q. q @ [a])
                     (if sp \<in> set (keys (stopRoot sd bk)) then inorder (stopRoot sd bk)
                      else ins_level sp (inorder (stopRoot sd bk)))
             \<and> oPool bk' a = \<lparr>oid = i, side = sd, otype = sty, shares = 0, price = p,
                               stopPrice = sp, parentLimit = Some sp\<rparr>
             \<and> fOrder bk' = fr \<and> tradeBuffer bk' = tradeBuffer bk"
    using r sr by (intro exI[of _ bk']) simp
qed

theorem zero_qty_submit_witness:
  "processOrder 7 Sell Limit 0 100 0 (newBook 20) =
           Some (case fOrder (newBook 20) of [] \<Rightarrow> newBook 20
                 | b # fr0 \<Rightarrow> (newBook 20)\<lparr>oPool := (oPool (newBook 20))(b := \<lparr>oid = 7, side = Sell,
                       otype = Limit, shares = 0, price = 100, stopPrice = 0, parentLimit = None\<rparr>)\<rparr>)
       \<and> (\<exists>bk'. processOrder 7 Sell Stop 0 100 95 (newBook 20) = Some bk'
             \<and> stopOrderMap bk' = (stopOrderMap (newBook 20))(7 \<mapsto> 0)
             \<and> inorder (stopRoot Sell bk') = [(95, [0])]
             \<and> oPool bk' 0 = \<lparr>oid = 7, side = Sell, otype = Stop, shares = 0, price = 100,
                               stopPrice = 95, parentLimit = Some 95\<rparr>
             \<and> fOrder bk' = [1..<20] \<and> tradeBuffer bk' = tradeBuffer (newBook 20))"
proof -
  have h: "book_inv (newBook 20)" by (rule book_inv_newBook)
  have f: "fOrder (newBook 20) = 0 # [1..<20]" by (simp add: newBook_def upt_rec)
  have l: "95 \<in> set (keys (stopRoot Sell (newBook 20))) \<or> 0 < fLimit (newBook 20)"
    by (simp add: newBook_def)
  have e: "upd_level 95 (\<lambda>q. q @ [0])
             (if 95 \<in> set (keys (stopRoot Sell (newBook 20))) then inorder (stopRoot Sell (newBook 20))
              else ins_level 95 (inorder (stopRoot Sell (newBook 20)))) = [(95, [0])]"
    by (simp add: newBook_def stopRoot_def keys_def ins_level_def)
  from zero_qty_submit[where ty = Limit and sty = Stop and bk = "newBook 20" and a = 0
      and fr = "[1..<20]" and sp = 95 and sd = Sell and i = 7 and p = 100 and ?sp0.0 = 0
      and ?bk0.0 = "newBook 20", OF _ _ h f l]
  show ?thesis unfolding e by simp
qed

section \<open>Insert, then cancel\<close>

text \<open>
  Claim C9, as the code has it. On a consistent book, a limit order with an id that is
  not in the index of resting orders, which rests without a report being pushed, can be
  cancelled at once: the cancel returns true, and the four trees have the levels and
  FIFOs they had before the submit, in the same order, the two indices have the same
  contents, both free lists are as they were, and every order node holds what it held
  before, but for the free node that the order took and gave back, which keeps the
  fields of the order.
\<close>

theorem insert_then_cancel:
  assumes "book_inv bk" "orderMap bk i = None"
    "processOrder i sd Limit q p sp bk = Some bk1"
    "tradeBuffer bk1 = tradeBuffer bk" "orderMap bk1 i \<noteq> None"
  shows "\<exists>bk2. cancelOrder i bk1 = Some (True, bk2)
     \<and> inorder (buyRoot bk2) = inorder (buyRoot bk) \<and> inorder (sellRoot bk2) = inorder (sellRoot bk)
     \<and> inorder (stopBuyRoot bk2) = inorder (stopBuyRoot bk)
     \<and> inorder (stopSellRoot bk2) = inorder (stopSellRoot bk)
     \<and> orderMap bk2 = orderMap bk \<and> stopOrderMap bk2 = stopOrderMap bk
     \<and> fOrder bk2 = fOrder bk \<and> fLimit bk2 = fLimit bk
     \<and> oPool bk2 = (oPool bk)(hd (fOrder bk) := \<lparr>oid = i, side = sd, otype = Limit, shares = q,
                              price = p, stopPrice = sp, parentLimit = None\<rparr>)
     \<and> tradeBuffer bk2 = tradeBuffer bk"
proof -
  from submit_rests_untraded[OF assms] obtain a fr t fl where
    f: "fOrder bk = a # fr" and na: "a \<notin> set (slots (restingRoot sd bk))"
    and il: "insertL (restingRoot sd bk) p (fLimit bk) = Some (t, Some p, fl)"
    and r1: "restingRoot sd bk1 = appendOrder p a t"
    and r2: "inorder (restingRoot (opposite sd) bk1) = inorder (restingRoot (opposite sd) bk)"
    and r3: "fLimit bk1 = fl" "orderMap bk1 = (orderMap bk)(i \<mapsto> a)" "stopOrderMap bk1 = stopOrderMap bk"
      "fOrder bk1 = fr" "stopBuyRoot bk1 = stopBuyRoot bk" "stopSellRoot bk1 = stopSellRoot bk"
    and r4: "parentLimit (oPool bk1 a) = Some p" "side (oPool bk1 a) = sd"
    and r5: "oPool bk1 = (oPool bk)(a := \<lparr>oid = i, side = sd, otype = Limit, shares = q, price = p,
                                      stopPrice = sp, parentLimit = Some p\<rparr>)" by blast
  have ok: "tree_ok (restingRoot sd bk)" using assms(1) trees_ok_resting by (simp add: book_inv_def)
  from link_unlink[OF ok il na] obtain q' t1 t2 where
    u: "unlink a p (appendOrder p a t) = Some (q', t1)"
    and rl: "(if q' = [] then removeLimit t1 p fl else Some (t1, fl)) = Some (t2, fLimit bk)"
    and io: "inorder t2 = inorder (restingRoot sd bk)" by blast
  let ?bkA = "setRestingRoot sd t2 (bk1\<lparr>fLimit := fLimit bk\<rparr>)"
  let ?bk2 = "recycleOrder a (?bkA\<lparr>orderMap := (orderMap ?bkA)(i := None)\<rparr>)"
  have c: "cancelOrder i bk1 = Some (True, ?bk2)"
  proof (cases "q' = []")
    case True
    then have "removeLimit t1 p fl = Some (t2, fLimit bk)" using rl by simp
    then show ?thesis using r3(1,2) r4 r1 u True by (simp add: cancelOrder_def Let_def)
  next
    case False
    then have "t1 = t2" "fl = fLimit bk" using rl by simp_all
    then show ?thesis using r3(1,2) r4 r1 u False by (simp add: cancelOrder_def Let_def)
  qed
  have x1: "inorder (restingRoot sd ?bk2) = inorder (restingRoot sd bk)"
    using io by (cases sd) simp_all
  have x2: "inorder (restingRoot (opposite sd) ?bk2) = inorder (restingRoot (opposite sd) bk)"
    using r2 by (cases sd) simp_all
  have x3: "orderMap ?bk2 = orderMap bk" using r3(2) assms(2) by (auto simp: fun_upd_idem)
  have x4: "stopOrderMap ?bk2 = stopOrderMap bk" "fOrder ?bk2 = fOrder bk" "fLimit ?bk2 = fLimit bk"
    "stopBuyRoot ?bk2 = stopBuyRoot bk" "stopSellRoot ?bk2 = stopSellRoot bk"
    using r3 f by simp_all
  have x5: "inorder (buyRoot ?bk2) = inorder (buyRoot bk) \<and> inorder (sellRoot ?bk2) = inorder (sellRoot bk)"
    using x1 x2 by (cases sd) simp_all
  have x6: "oPool ?bk2 = (oPool bk)(hd (fOrder bk) := \<lparr>oid = i, side = sd, otype = Limit, shares = q,
                              price = p, stopPrice = sp, parentLimit = None\<rparr>)"
    using r5 f by (auto simp: fun_eq_iff)
  have x7: "tradeBuffer ?bk2 = tradeBuffer bk" using assms(4) by simp
  show ?thesis using c x3 x4 x5 x6 x7 by (intro exI[of _ ?bk2]) simp
qed

theorem insert_then_cancel_witness:
  "\<exists>bk bk1 bk2. resting_book = Some bk \<and> book_inv bk \<and> orderMap bk 3 = None
     \<and> processOrder 3 Buy Limit 4 100 0 bk = Some bk1
     \<and> tradeBuffer bk1 = tradeBuffer bk \<and> orderMap bk1 3 = Some 2
     \<and> inorder (buyRoot bk) = [(100, [0])] \<and> inorder (buyRoot bk1) = [(100, [0, 2])]
     \<and> cancelOrder 3 bk1 = Some (True, bk2)
     \<and> inorder (buyRoot bk2) = inorder (buyRoot bk) \<and> inorder (sellRoot bk2) = inorder (sellRoot bk)
     \<and> inorder (stopBuyRoot bk2) = inorder (stopBuyRoot bk)
     \<and> inorder (stopSellRoot bk2) = inorder (stopSellRoot bk)
     \<and> orderMap bk2 = orderMap bk \<and> stopOrderMap bk2 = stopOrderMap bk
     \<and> fOrder bk2 = fOrder bk \<and> fLimit bk2 = fLimit bk
     \<and> oPool bk2 = (oPool bk)(hd (fOrder bk) := \<lparr>oid = 3, side = Buy, otype = Limit, shares = 4,
                              price = 100, stopPrice = 0, parentLimit = None\<rparr>)
     \<and> tradeBuffer bk2 = tradeBuffer bk"
proof -
  have e: "do { bk \<leftarrow> resting_book; bk1 \<leftarrow> processOrder 3 Buy Limit 4 100 0 bk;
                Some (orderMap bk 3, tradeBuffer bk1 = tradeBuffer bk, orderMap bk1 3,
                      inorder (buyRoot bk), inorder (buyRoot bk1)) }
           = Some (None, True, Some 2, [(100, [0])], [(100, [0, 2])])"
    by (simp add: resting_book_def engine_defs)
  then obtain bk bk1 where b: "resting_book = Some bk"
    and p: "processOrder 3 Buy Limit 4 100 0 bk = Some bk1"
    and h: "orderMap bk 3 = None" "tradeBuffer bk1 = tradeBuffer bk" "orderMap bk1 3 = Some 2"
      "inorder (buyRoot bk) = [(100, [0])]" "inorder (buyRoot bk1) = [(100, [0, 2])]"
    by (auto split: bind_splits)
  have inv: "book_inv bk" using book_inv_run[OF b[unfolded resting_book_def]] .
  have ne: "orderMap bk1 3 \<noteq> None" using h(3) by simp
  from insert_then_cancel[OF inv h(1) p h(2) ne] obtain bk2 where
    "cancelOrder 3 bk1 = Some (True, bk2)"
    "inorder (buyRoot bk2) = inorder (buyRoot bk)" "inorder (sellRoot bk2) = inorder (sellRoot bk)"
    "inorder (stopBuyRoot bk2) = inorder (stopBuyRoot bk)"
    "inorder (stopSellRoot bk2) = inorder (stopSellRoot bk)"
    "orderMap bk2 = orderMap bk" "stopOrderMap bk2 = stopOrderMap bk"
    "fOrder bk2 = fOrder bk" "fLimit bk2 = fLimit bk"
    "oPool bk2 = (oPool bk)(hd (fOrder bk) := \<lparr>oid = 3, side = Buy, otype = Limit, shares = 4,
                              price = 100, stopPrice = 0, parentLimit = None\<rparr>)"
    "tradeBuffer bk2 = tradeBuffer bk" by blast
  then show ?thesis using b inv p h
    by (intro exI[of _ bk] exI[of _ bk1] exI[of _ bk2]) simp
qed

text \<open>
  The claim as stated fails for an id that is already in the index. Order 1 rests at 100;
  a second limit order with the id 1 rests at 99 without a trade and takes the entry of
  the index; the cancel of id 1 returns true, removes the second order and erases the
  entry: the first order still rests at 100, but the index, which held it before the
  submit, is empty.
\<close>

theorem reused_id_counterexample:
  "do { bk \<leftarrow> processOrder 1 Buy Limit 5 100 0 (newBook 20);
        bk1 \<leftarrow> processOrder 1 Buy Limit 4 99 0 bk;
        (ok, bk2) \<leftarrow> cancelOrder 1 bk1;
        Some (tradeBuffer bk1 = tradeBuffer bk, orderMap bk1 1, ok,
              inorder (buyRoot bk), inorder (buyRoot bk2), orderMap bk 1, orderMap bk2 1) }
   = Some (True, Some 1, True, [(100, [0])], [(100, [0])], Some 0, None)"
  by (simp add: engine_defs)

section \<open>Price-time priority\<close>

text \<open>
  Claim C2. On a consistent book, the matching of a market or limit order returns. When
  the arena has no free order node the order is dropped: no report is pushed and the
  queue is as before. Otherwise the reports pushed are exactly the fills of \<open>spec_fills\<close>
  on \<open>sharesQueue\<close>, and the queue left is that of \<open>spec_rest\<close>. \<open>sharesQueue\<close> lists the
  resting orders of the opposite side with their shares, level by level, best price
  first (ascending prices of the resting sells for a buy, descending prices of the
  resting buys for a sell), and within a level from the head of the FIFO to its tail.
  So the taker trades with the first order of the queue, for the smaller of the two
  share counts and at the price of the maker's level, goes on to the next order only
  once the one before is exhausted and gone from the book, and stops when it has no
  shares left, no order is left, or its price does not cross the level of the next
  order. Each report names the taker, the id of its maker, the quantity and the price
  of the maker's level.
\<close>

theorem price_time_priority:
  assumes "book_inv bk" "ty = Market \<or> ty = Limit"
  shows "\<exists>tr bk1. processBody i sd ty q p sp cs bk = Some (tr, bk1)
     \<and> map reportFields (newTrades bk bk1)
         = (if fOrder bk = [] then []
            else map (fillReport i bk) (spec_fills sd p q (sharesQueue sd bk)))
     \<and> sharesQueue sd bk1
         = (if fOrder bk = [] then sharesQueue sd bk else spec_rest sd p q (sharesQueue sd bk))
     \<and> sorted_wrt (\<lambda>x y. if sd = Buy then fst x < fst y else fst y < fst x) (makerLevels sd bk)"
proof -
  have ns: "ty \<noteq> Stop" "ty \<noteq> StopLimit" using assms(2) by auto
  note srt = makerLevels_sorted[OF assms(1), of sd]
  show ?thesis
  proof (cases "getOrder i sd ty q p sp bk")
    case None
    then have f: "fOrder bk = []" by (simp add: getOrder_None)
    have "processBody i sd ty q p sp cs bk = Some ([], bk)"
      using None ns by (simp add: processBody_def)
    then show ?thesis using f srt by (simp add: newTrades_def)
  next
    case (Some x)
    obtain a bk0 where x: "x = (a, bk0)" by (cases x)
    have f: "fOrder bk \<noteq> []" using Some x by (auto simp: getOrder_Some)
    from processBody_fills[OF assms(1) ns Some[unfolded x], of cs] f srt show ?thesis by auto
  qed
qed

theorem price_time_priority_witness:
  "\<exists>bk tr bk1. three_asks_book = Some bk
     \<and> processBody 4 Buy Limit 12 95 0 True bk = Some (tr, bk1)
     \<and> makerLevels Buy bk = [(85, [2]), (90, [0, 1])]
     \<and> sharesQueue Buy bk = [(2, 5, 85), (0, 5, 90), (1, 5, 90)]
     \<and> spec_fills Buy 95 12 (sharesQueue Buy bk) = [(2, 5, 85), (0, 5, 90), (1, 2, 90)]
     \<and> spec_rest Buy 95 12 (sharesQueue Buy bk) = [(1, 3, 90)]
     \<and> map reportFields (newTrades bk bk1) = [(4, 3, 5, 85), (4, 1, 5, 90), (4, 2, 2, 90)]
     \<and> sharesQueue Buy bk1 = [(1, 3, 90)]"
proof -
  have e: "map_option (\<lambda>bk. (fOrder bk = [], makerLevels Buy bk, sharesQueue Buy bk,
                             map (fillReport 4 bk) [(2, 5, 85), (0, 5, 90), (1, 2, 90)]))
             three_asks_book
           = Some (False, [(85, [2]), (90, [0, 1])], [(2, 5, 85), (0, 5, 90), (1, 5, 90)],
                   [(4, 3, 5, 85), (4, 1, 5, 90), (4, 2, 2, 90)])"
    by (simp add: three_asks_book_def engine_defs sharesQueue_def entries_def queueOf_def
        makerLevels_def levels_of_def)
  then obtain bk where b: "three_asks_book = Some bk"
    and h: "fOrder bk \<noteq> []" "makerLevels Buy bk = [(85, [2]), (90, [0, 1])]"
      "sharesQueue Buy bk = [(2, 5, 85), (0, 5, 90), (1, 5, 90)]"
      "map (fillReport 4 bk) [(2, 5, 85), (0, 5, 90), (1, 2, 90)]
         = [(4, 3, 5, 85), (4, 1, 5, 90), (4, 2, 2, 90)]"
    by auto
  have sf: "spec_fills Buy 95 12 (sharesQueue Buy bk) = [(2, 5, 85), (0, 5, 90), (1, 2, 90)]"
    and sr: "spec_rest Buy 95 12 (sharesQueue Buy bk) = [(1, 3, 90)]"
    unfolding h(3) by (simp_all add: crosses_def)
  have inv: "book_inv bk" using book_inv_run[OF b[unfolded three_asks_book_def]] .
  from price_time_priority[OF inv, of Limit 4 Buy 12 95 0 True] h(1) obtain tr bk1 where
    "processBody 4 Buy Limit 12 95 0 True bk = Some (tr, bk1)"
    "map reportFields (newTrades bk bk1) = map (fillReport 4 bk) (spec_fills Buy 95 12 (sharesQueue Buy bk))"
    "sharesQueue Buy bk1 = spec_rest Buy 95 12 (sharesQueue Buy bk)" by auto
  then show ?thesis using b h sf sr by (intro exI[of _ bk] exI[of _ tr] exI[of _ bk1]) simp
qed

section \<open>When the trigger pass runs\<close>

text \<open>
  Claim C4, as the code has it. On a consistent book, a top-level submit of a market or
  limit order returns, and it calls the trigger pass exactly once, with the price of the
  last report of its matching and the side of the order, when the matching pushed a
  report and the price of the last one is positive; otherwise it does not call it. The
  re-entries for the triggered stops do not call it.
\<close>

theorem trigger_pass_once:
  assumes "book_inv bk" "ty = Market \<or> ty = Limit"
  shows "\<exists>tr bk1 bk'. processBody i sd ty q p sp True bk = Some (tr, bk1)
     \<and> resubmitStops tr bk1 = Some bk' \<and> processOrder i sd ty q p sp bk = Some bk'
     \<and> stopChecks bk' = stopChecks bk @
          (if newTrades bk bk1 \<noteq> [] \<and> 0 < tprice (last (newTrades bk bk1))
           then [(tprice (last (newTrades bk bk1)), sd)] else [])"
proof -
  have ns: "ty \<noteq> Stop" "ty \<noteq> StopLimit" using assms(2) by auto
  from processBody_reports[OF assms(1) ns, of i sd q p sp True] obtain tr bk1 where
    pb: "processBody i sd ty q p sp True bk = Some (tr, bk1)" and inv: "book_inv bk1"
    and sc: "stopChecks bk1 = stopChecks bk @
          (if True \<and> newTrades bk bk1 \<noteq> [] \<and> 0 < tprice (last (newTrades bk bk1))
           then [(tprice (last (newTrades bk bk1)), sd)] else [])" by blast
  from resubmitStops_inv[OF inv, of tr] obtain bk' where
    rs: "resubmitStops tr bk1 = Some bk'" and s': "stopChecks bk' = stopChecks bk1" by blast
  have "processOrder i sd ty q p sp bk = Some bk'"
    using pb rs by (simp add: processOrder_def processOrderInternal_def)
  then show ?thesis using pb rs s' sc by (intro exI[of _ tr] exI[of _ bk1] exI[of _ bk']) simp
qed

theorem trigger_pass_once_witness:
  "\<exists>bk tr bk1 bk'. three_asks_book = Some bk
     \<and> processBody 4 Buy Limit 12 95 0 True bk = Some (tr, bk1)
     \<and> resubmitStops tr bk1 = Some bk' \<and> processOrder 4 Buy Limit 12 95 0 bk = Some bk'
     \<and> map tprice (newTrades bk bk1) = [85, 90, 90]
     \<and> stopChecks bk = [] \<and> stopChecks bk' = [(90, Buy)]"
proof -
  have e: "do { bk \<leftarrow> three_asks_book; (tr, bk1) \<leftarrow> processBody 4 Buy Limit 12 95 0 True bk;
                Some (map tprice (newTrades bk bk1), stopChecks bk) }
           = Some ([85, 90, 90], [])"
    by (simp add: three_asks_book_def engine_defs newTrades_def)
  then obtain bk tr bk1 where b: "three_asks_book = Some bk"
    and p: "processBody 4 Buy Limit 12 95 0 True bk = Some (tr, bk1)"
    and h: "map tprice (newTrades bk bk1) = [85, 90, 90]" "stopChecks bk = []"
    by (auto split: bind_splits)
  have inv: "book_inv bk" using book_inv_run[OF b[unfolded three_asks_book_def]] .
  have ne: "newTrades bk bk1 \<noteq> []" using h(1) by auto
  have "map tprice (newTrades bk bk1) \<noteq> []" using ne by simp
  then have "last (map tprice (newTrades bk bk1)) = tprice (last (newTrades bk bk1))"
    using ne by (simp add: last_map)
  then have l: "tprice (last (newTrades bk bk1)) = 90" using h(1) by simp
  from trigger_pass_once[OF inv, of Limit 4 Buy 12 95 0] p obtain bk' where
    "resubmitStops tr bk1 = Some bk'" "processOrder 4 Buy Limit 12 95 0 bk = Some bk'"
    "stopChecks bk' = stopChecks bk @
          (if newTrades bk bk1 \<noteq> [] \<and> 0 < tprice (last (newTrades bk bk1))
           then [(tprice (last (newTrades bk bk1)), Buy)] else [])" by auto
  then show ?thesis using b p h ne l
    by (intro exI[of _ bk] exI[of _ tr] exI[of _ bk1] exI[of _ bk']) simp
qed

text \<open>
  The claim as stated fails for a last price of zero: a buy limit order at price 0
  trades 4 shares with the sell order resting at price 0, the trigger pass is not
  called, and the buy stop with stop price 0 stays armed.
\<close>

theorem zero_price_counterexample:
  "map_option (\<lambda>bk. (map (\<lambda>t. (takerId t, makerId t, qty t, tprice t)) (tradeBuffer bk),
                     stopChecks bk, inorder (stopBuyRoot bk)))
     (run zero_price_run (newBook 20)) = Some ([(3, 1, 4, 0)], [], [(0, [1])])"
  by (simp add: zero_price_run_def engine_defs)

section \<open>Market orders and the cross test\<close>

text \<open>
  Claim C5, as the code has it. On a consistent book, the matching loop of a buy market
  order with the price \<open>INT64_MAX\<close> (no price of a level is above it), and that of a sell
  market order with the price 0 when no resting buy level has a negative price, returns
  with the opposite tree empty or the taker's shares at zero.
\<close>

theorem market_sweep:
  assumes "book_inv bk" "getOrder i sd Market q p sp bk = Some (a, bk1)"
    "(sd = Buy \<and> p = INT64_MAX \<and> list_all (\<lambda>k. k \<le> INT64_MAX) (keys (sellRoot bk)))
     \<or> (sd = Sell \<and> p = 0 \<and> list_all (\<lambda>k. 0 \<le> k) (keys (buyRoot bk)))"
  shows "\<exists>lp bk2. matchLoop a sd p 0 bk1 = Some (lp, bk2)
     \<and> (restingRoot (opposite sd) bk2 = Null \<or> shares (oPool bk2 a) = 0)"
proof -
  from getOrder_phase[OF assms(1,2)] have t1: "trees_ok bk1" and n1: "a \<notin> set (all_slots bk1)"
    by auto
  have mk: "makerLevels sd bk1 = makerLevels sd bk"
    using getOrder_trees[OF assms(2)] by (cases sd) (simp_all add: makerLevels_def)
  from matchLoop_phase[OF t1 n1, of sd p 0] obtain lp bk2 lv' bkS where
    ml: "matchLoop a sd p 0 bk1 = Some (lp, bk2)"
    and ms: "matchLevels a sd p (makerLevels sd bk1) 0 bk1 = (lv', lp, bkS)"
    and l2: "makerLevels sd bk2 = lv'" and o2: "oPool bk2 = oPool bkS" by blast
  have na: "a \<notin> set (concat (map snd (makerLevels sd bk1)))"
    using taker_not_maker[OF assms(1,2)] mk by simp
  have cr: "\<forall>k \<in> fst ` set (makerLevels sd bk). crosses sd p k"
    using assms(3)
    by (fastforce simp: makerLevels_def keys_def crosses_def list_all_iff)
  have "lv' = [] \<or> shares (oPool bkS a) = 0"
  proof (rule ccontr)
    assume c: "\<not> (lv' = [] \<or> shares (oPool bkS a) = 0)"
    with matchLevels_stops[OF na ms] have nc: "\<not> crosses sd p (fst (hd lv'))" by simp
    have "hd lv' \<in> set lv'" using c by simp
    then have "fst (hd lv') \<in> fst ` set (makerLevels sd bk)"
      using matchLevels_keys[OF ms] mk by auto
    then show False using cr nc by blast
  qed
  moreover have "lv' = [] \<Longrightarrow> restingRoot (opposite sd) bk2 = Null"
    using l2 by (auto simp: makerLevels_def levels_of_def split: if_splits)
  ultimately show ?thesis using ml o2 by auto
qed

theorem market_sweep_witness:
  "\<exists>bk a bk1 lp bk2. resting_book = Some bk \<and> getOrder 3 Sell Market 7 0 0 bk = Some (a, bk1)
     \<and> keys (buyRoot bk) = [100]
     \<and> matchLoop a Sell 0 0 bk1 = Some (lp, bk2)
     \<and> (restingRoot (opposite Sell) bk2 = Null \<or> shares (oPool bk2 a) = 0)
     \<and> buyRoot bk2 = Null \<and> shares (oPool bk2 a) = 2"
proof -
  have e: "do { bk \<leftarrow> resting_book; (a, bk1) \<leftarrow> getOrder 3 Sell Market 7 0 0 bk;
                (lp, bk2) \<leftarrow> matchLoop a Sell 0 0 bk1;
                Some (keys (buyRoot bk), buyRoot bk2, shares (oPool bk2 a)) }
           = Some ([100], Null, 2)"
    by (simp add: resting_book_def engine_defs keys_def)
  then obtain bk a bk1 lp bk2 where b: "resting_book = Some bk"
    and g: "getOrder 3 Sell Market 7 0 0 bk = Some (a, bk1)"
    and m: "matchLoop a Sell 0 0 bk1 = Some (lp, bk2)"
    and h: "keys (buyRoot bk) = [100]" "buyRoot bk2 = Null" "shares (oPool bk2 a) = 2"
    by (auto split: bind_splits)
  have inv: "book_inv bk" using book_inv_run[OF b[unfolded resting_book_def]] .
  have c: "(Sell = Buy \<and> (0::int) = INT64_MAX \<and> list_all (\<lambda>k. k \<le> INT64_MAX) (keys (sellRoot bk)))
     \<or> (Sell = Sell \<and> (0::int) = 0 \<and> list_all (\<lambda>k. 0 \<le> k) (keys (buyRoot bk)))"
    using h(1) by simp
  from market_sweep[OF inv g c] m have
    "restingRoot (opposite Sell) bk2 = Null \<or> shares (oPool bk2 a) = 0" by simp
  then show ?thesis using b g m h
    by (intro exI[of _ bk] exI[of _ a] exI[of _ bk1] exI[of _ lp] exI[of _ bk2]) simp
qed

text \<open>
  The claim as stated fails for a sell market order when a buy order rests at a negative
  price: with a buy order resting at \<open>-10\<close>, the matching loop of a sell market order of
  3 shares with the sentinel price 0 stops at the cross test, with no report pushed, the
  buy level in place and the 3 shares left.
\<close>

theorem negative_bid_counterexample:
  "map_option (\<lambda>(lp, bk2). (tradeBuffer bk2, inorder (buyRoot bk2), oid (oPool bk2 1),
                             shares (oPool bk2 1)))
     negative_bid_match = Some ([], [(-10, [0])], 2, 3)"
  by (simp add: negative_bid_match_def engine_defs)

section \<open>The order in which stops fire\<close>

text \<open>
  Claim C3, as the code has it. On a book with consistent trees, the trigger pass for
  an executed price and an aggressor side returns, and the stops it collects are those
  of all the levels of \<open>firedLevels\<close>, in the order of that list and, within a level,
  from the head of the FIFO to its tail. \<open>firedLevels\<close> holds every level of the stop tree
  of the aggressor's side that qualifies (stop price at or above the executed price for
  a sell, at or below it for a buy), and lists them by decreasing distance from the
  executed price: the level farthest from the last fill comes first, the closest last.
  The triggered stops are re-submitted in the order collected (\<open>resubmitStops\<close> goes
  through the list from its head).
\<close>

theorem trigger_pass_order:
  assumes "trees_ok bk"
  shows "\<exists>bk'. checkStopOrders ep sd [] bk =
            Some (map (\<lambda>a. descriptor (oPool bk a)) (concat (map snd (firedLevels ep sd bk))), bk')
     \<and> sorted_wrt (\<lambda>x y. \<bar>fst y - ep\<bar> < \<bar>fst x - ep\<bar>) (firedLevels ep sd bk)"
proof -
  have b: "bst (stopRoot sd bk)" using trees_ok_stop[OF assms, of sd] by (simp add: tree_ok_def)
  from checkStopOrders_phase[OF assms, of ep sd "[]"] obtain bk' where
    "checkStopOrders ep sd [] bk =
       Some ([] @ map (\<lambda>a. descriptor (oPool bk a)) (concat (map snd (firedLevels ep sd bk))), bk')"
    by blast
  then show ?thesis using firedLevels_farthest_first[OF b, of ep] by simp
qed

theorem trigger_pass_order_witness:
  "\<exists>bk bk'. two_stops_book = Some bk \<and> trees_ok bk
     \<and> firedLevels 90 Sell bk = [(100, [2]), (95, [1])]
     \<and> map (\<lambda>a. (originalId (descriptor (oPool bk a)), stopPrice (oPool bk a))) [2, 1]
         = [(3, 100), (2, 95)]
     \<and> checkStopOrders 90 Sell [] bk =
          Some (map (\<lambda>a. descriptor (oPool bk a)) (concat (map snd (firedLevels 90 Sell bk))), bk')
     \<and> sorted_wrt (\<lambda>x y. \<bar>fst y - 90\<bar> < \<bar>fst x - 90\<bar>) (firedLevels 90 Sell bk)"
proof -
  have e: "map_option (\<lambda>bk. (firedLevels 90 Sell bk,
               map (\<lambda>a. (originalId (descriptor (oPool bk a)), stopPrice (oPool bk a))) [2, 1]))
             two_stops_book = Some ([(100, [2]), (95, [1])], [(3, 100), (2, 95)])"
    by (simp add: two_stops_book_def engine_defs firedLevels_def)
  then obtain bk where b: "two_stops_book = Some bk"
    and h: "firedLevels 90 Sell bk = [(100, [2]), (95, [1])]"
      "map (\<lambda>a. (originalId (descriptor (oPool bk a)), stopPrice (oPool bk a))) [2, 1]
         = [(3, 100), (2, 95)]"
    by auto
  have t: "trees_ok bk" using book_inv_run[OF b[unfolded two_stops_book_def]] by (simp add: book_inv_def)
  from trigger_pass_order[OF t, of 90 Sell] obtain bk' where
    "checkStopOrders 90 Sell [] bk =
          Some (map (\<lambda>a. descriptor (oPool bk a)) (concat (map snd (firedLevels 90 Sell bk))), bk')"
    "sorted_wrt (\<lambda>x y. \<bar>fst y - 90\<bar> < \<bar>fst x - 90\<bar>) (firedLevels 90 Sell bk)" by blast
  then show ?thesis using b t h by (intro exI[of _ bk] exI[of _ bk']) simp
qed

text \<open>
  The claim as stated fails. With a buy order of 10 shares resting at 90 and sell stops
  armed at 95 (order 2, 3 shares) and 100 (order 3, 4 shares), a sell limit order of 4
  shares at 90 trades at 90, and the trigger pass collects order 3, whose stop price is
  the farthest from 90, before order 2. They are re-submitted in this order: the first
  re-entry sells the 4 shares of order 3, the second finds 2 shares for the 3 of order 2.
\<close>

theorem closest_first_counterexample:
  "map_option (\<lambda>(tr, bk). map (\<lambda>t. (originalId t, ts_shares t)) tr)
     (do { bk \<leftarrow> two_stops_book; processBody 4 Sell Limit 4 90 0 True bk })
     = Some [(3, 4), (2, 3)]
   \<and> map_option (\<lambda>bk. map (\<lambda>t. (takerId t, makerId t, qty t, tprice t)) (tradeBuffer bk))
       (do { bk \<leftarrow> two_stops_book; processOrder 4 Sell Limit 4 90 0 bk })
     = Some [(4, 1, 4, 90), (1000000000, 1, 4, 90), (1000000001, 1, 2, 90)]"
  by (simp add: two_stops_book_def engine_defs)

end
